(* ===== verification/Prelude.thy ===== *)
theory Prelude
  imports Main "HOL-Library.Word" "HOL-Library.List_Lexorder"
begin

section \<open>Prelude: machine types, outcomes, byte encodings, formatting\<close>

text \<open>
  What every component shares:
  \<^item> the names of the machine types of the source (\<open>byte\<close>, \<open>u16\<close>, \<open>u32\<close>, \<open>u64\<close>, \<open>usize\<close>);
  \<^item> the type \<open>outcome\<close> of a Rust call (\<open>Ok\<close>, \<open>Err\<close>, or a panic) and the combinator
    \<open>andThen\<close> that models the \<open>?\<close> operator on a call that also updates state;
  \<^item> \<open>to_le_bytes\<close>, \<open>from_le_bytes\<close>, \<open>to_be_bytes\<close>, \<open>from_be_bytes\<close> of the
    standard library's integers, slices, and their round trips;
  \<^item> the decimal and hexadecimal formatting that \<open>format!\<close> uses for error messages and
    file names.
  Integer addition is modelled at its width with wrap-around, as the release profile of
  Cargo.toml compiles it.
\<close>

type_synonym byte = "8 word"
type_synonym bytes = "byte list"
type_synonym u16 = "16 word"
type_synonym u32 = "32 word"
type_synonym u64 = "64 word"
type_synonym usize = "64 word"

named_theorems codec_simps \<open>lengths, slices and round trips of byte encodings\<close>
named_theorems io_simps \<open>fault-free behaviour of the input/output layer\<close>

subsection \<open>Outcomes\<close>

datatype ('e, 'a) outcome = Ok 'a | Err 'e | Panic

text \<open>
  \<open>andThen\<close> is \<open>call?\<close> followed by the rest of the body: the state reached by the call is
  kept on every path, because a Rust method that returns early keeps the updates made so far.
\<close>

fun andThen :: "('e, 'a) outcome \<times> 's \<Rightarrow> ('a \<Rightarrow> 's \<Rightarrow> ('e, 'b) outcome \<times> 's) \<Rightarrow>
    ('e, 'b) outcome \<times> 's" where
  "andThen (Ok x, s) k = k x s"
| "andThen (Err e, s) k = (Err e, s)"
| "andThen (Panic, s) k = (Panic, s)"

fun bindO :: "('e, 'a) outcome \<Rightarrow> ('a \<Rightarrow> ('e, 'b) outcome) \<Rightarrow> ('e, 'b) outcome" where
  "bindO (Ok x) k = k x"
| "bindO (Err e) k = Err e"
| "bindO Panic k = Panic"

lemma bindO_Ok_iff: "bindO r k = Ok y \<longleftrightarrow> (\<exists>x. r = Ok x \<and> k x = Ok y)"
  by (cases r) auto

lemma andThen_Ok_iff:
  "andThen p k = (Ok y, t) \<longleftrightarrow> (\<exists>x s. p = (Ok x, s) \<and> k x s = (Ok y, t))"
  by (cases "(p, k)" rule: andThen.cases) auto

lemma andThen_cases [consumes 1, case_names Ok Err Panic]:
  assumes "andThen p k = q"
  obtains x s where "p = (Ok x, s)" and "k x s = q"
  | e s where "p = (Err e, s)" and "q = (Err e, s)"
  | s where "p = (Panic, s)" and "q = (Panic, s)"
  using assms by (cases "(p, k)" rule: andThen.cases) auto

lemma andThen_assoc: "andThen (andThen m k) l = andThen m (\<lambda>x s. andThen (k x s) l)"
  by (cases "(m, k)" rule: andThen.cases) auto

text \<open>
  What holds after a call: \<open>Q\<close> of its value and the state when it returned \<open>Ok\<close>, \<open>E\<close> of the
  error and the state when it returned \<open>Err\<close>; it did not panic.
\<close>

fun wp :: "('e, 'a) outcome \<times> 's \<Rightarrow> ('a \<Rightarrow> 's \<Rightarrow> bool) \<Rightarrow> ('e \<Rightarrow> 's \<Rightarrow> bool) \<Rightarrow> bool" where
  "wp (Ok x, s) Q E = Q x s"
| "wp (Err e, s) Q E = E e s"
| "wp (Panic, s) Q E = False"

lemma wp_andThen [simp]: "wp (andThen m k) Q E \<longleftrightarrow> wp m (\<lambda>x s. wp (k x s) Q E) E"
  by (cases "(m, k)" rule: andThen.cases) auto

lemma wp_mono:
  "wp m Q E \<Longrightarrow> (\<And>x s. Q x s \<Longrightarrow> Q' x s) \<Longrightarrow> (\<And>e s. E e s \<Longrightarrow> E' e s) \<Longrightarrow> wp m Q' E'"
  by (cases m; cases "fst m") auto

lemma wp_conj: "wp m Q E \<Longrightarrow> wp m Q' E' \<Longrightarrow> wp m (\<lambda>x s. Q x s \<and> Q' x s) (\<lambda>e s. E e s \<and> E' e s)"
  by (cases m; cases "fst m") auto

lemma wp_iff: "wp (r, s) Q E \<longleftrightarrow> r \<noteq> Panic \<and> (\<forall>x. r = Ok x \<longrightarrow> Q x s) \<and> (\<forall>e. r = Err e \<longrightarrow> E e s)"
  by (cases r) auto

text \<open>
  A method of an enclosing object that calls a method of one of its fields: the call runs on
  the field and the outer object takes the updated field, whatever the call returned.
\<close>

definition zoom :: "('s \<Rightarrow> 'f) \<Rightarrow> ('f \<Rightarrow> 's \<Rightarrow> 's) \<Rightarrow> ('f \<times> 'w \<Rightarrow> ('e, 'a) outcome \<times> 'f \<times> 'w) \<Rightarrow>
    's \<times> 'w \<Rightarrow> ('e, 'a) outcome \<times> 's \<times> 'w" where
  "zoom get put m = (\<lambda>(s, w). case m (get s, w) of (r, f, w') \<Rightarrow> (r, put f s, w'))"

lemma andThen_no_panic:
  assumes "fst m \<noteq> Panic" and "\<And>x s. fst (k x s) \<noteq> Panic"
  shows "fst (andThen m k) \<noteq> Panic"
  using assms by (cases "(m, k)" rule: andThen.cases) auto

lemma fst_zoom: "fst (zoom get put m s) = fst (m (get (fst s), snd s))"
  by (cases s) (simp add: zoom_def split: prod.split)

text \<open>
  What a computation leaves of the state it does not own: a reflexive and transitive relation
  between the state before and after is kept by sequences and branches.
\<close>

locale effect_order =
  fixes R :: "'s \<Rightarrow> 's \<Rightarrow> bool"
  assumes eff_refl: "R s s" and eff_trans: "R a b \<Longrightarrow> R b c \<Longrightarrow> R a c"
begin

lemma andThen_keeps:
  assumes "R s (snd m)" and "\<And>x t. R t (snd (k x t))"
  shows "R s (snd (andThen m k))"
  using assms eff_trans by (cases "(m, k)" rule: andThen.cases) fastforce+

lemma if_keeps: "R s (snd a) \<Longrightarrow> R s (snd b) \<Longrightarrow> R s (snd (if c then a else b))"
  by simp

lemma pure_keeps: "R s (snd (r, s))"
  by (simp add: eff_refl)

lemmas keeps_intros = andThen_keeps if_keeps pure_keeps

end

subsection \<open>Slices\<close>

definition slice :: "nat \<Rightarrow> nat \<Rightarrow> 'a list \<Rightarrow> 'a list" where
  "slice a b xs = take (b - a) (drop a xs)"

lemma length_slice: "b \<le> length xs \<Longrightarrow> length (slice a b xs) = b - a"
  by (simp add: slice_def)

lemma slice_0: "slice 0 n xs = take n xs"
  by (simp add: slice_def)

lemma slice_append_skip:
  "length xs \<le> a \<Longrightarrow> slice a b (xs @ ys) = slice (a - length xs) (b - length xs) ys"
  by (simp add: slice_def)

lemma slice_append_here:
  "b \<le> length xs \<Longrightarrow> slice a b (xs @ ys) = slice a b xs"
  by (cases "a \<le> b") (simp_all add: slice_def)

lemma slice_all: "slice 0 (length xs) xs = xs"
  by (simp add: slice_def)

lemmas slice_simps = slice_append_skip slice_append_here slice_0 slice_all length_slice

subsection \<open>Integers as byte sequences\<close>

fun nat_le_bytes :: "nat \<Rightarrow> nat \<Rightarrow> bytes" where
  "nat_le_bytes 0 n = []"
| "nat_le_bytes (Suc k) n = of_nat (n mod 256) # nat_le_bytes k (n div 256)"

fun le_bytes_nat :: "bytes \<Rightarrow> nat" where
  "le_bytes_nat [] = 0"
| "le_bytes_nat (b # bs) = unat b + 256 * le_bytes_nat bs"

lemma length_nat_le_bytes [simp]: "length (nat_le_bytes k n) = k"
  by (induction k n rule: nat_le_bytes.induct) auto

lemma unat_byte_of_nat: "n < 256 \<Longrightarrow> unat (of_nat n :: byte) = n"
  by (simp add: unat_of_nat)

lemma le_bytes_nat_of_bytes: "le_bytes_nat (nat_le_bytes k n) = n mod 256 ^ k"
proof (induction k n rule: nat_le_bytes.induct)
  case (1 n)
  then show ?case by simp
next
  case (2 k n)
  have "n mod 256 ^ Suc k = n mod 256 + 256 * (n div 256 mod 256 ^ k)"
    using mod_mult2_eq [of n 256 "256 ^ k"] by simp
  with 2 show ?case by (simp add: unat_byte_of_nat)
qed

lemma le_bytes_nat_bound: "le_bytes_nat bs < 256 ^ length bs"
proof (induction bs)
  case Nil
  then show ?case by simp
next
  case (Cons b bs)
  have "unat b < 256" using unsigned_less [of b] by simp
  with Cons show ?case by simp
qed

lemma nat_le_bytes_of_nat: "nat_le_bytes (length bs) (le_bytes_nat bs) = bs"
proof (induction bs)
  case Nil
  then show ?case by simp
next
  case (Cons b bs)
  have "unat b < 256" using unsigned_less [of b] by simp
  then have "(unat b + 256 * le_bytes_nat bs) div 256 = le_bytes_nat bs"
    and "(unat b + 256 * le_bytes_nat bs) mod 256 = unat b" by simp_all
  with Cons show ?case by simp
qed

definition to_le_bytes :: "'a::len word \<Rightarrow> bytes" where
  "to_le_bytes x = nat_le_bytes (LENGTH('a) div 8) (unat x)"

definition from_le_bytes :: "bytes \<Rightarrow> 'a::len word" where
  "from_le_bytes bs = of_nat (le_bytes_nat bs)"

definition to_be_bytes :: "'a::len word \<Rightarrow> bytes" where
  "to_be_bytes x = rev (to_le_bytes x)"

definition from_be_bytes :: "bytes \<Rightarrow> 'a::len word" where
  "from_be_bytes bs = from_le_bytes (rev bs)"

lemma length_to_le_bytes [simp]: "length (to_le_bytes (x :: 'a::len word)) = LENGTH('a) div 8"
  by (simp add: to_le_bytes_def)

lemma length_to_be_bytes [simp]: "length (to_be_bytes (x :: 'a::len word)) = LENGTH('a) div 8"
  by (simp add: to_be_bytes_def)

lemma from_to_le_bytes:
  fixes x :: "'a::len word"
  assumes "8 dvd LENGTH('a)"
  shows "from_le_bytes (to_le_bytes x) = x"
proof -
  obtain k where k: "LENGTH('a) = 8 * k" using assms by auto
  have "(256::nat) ^ k = 2 ^ LENGTH('a)"
    by (simp add: k power_mult)
  then have "unat x < 256 ^ k" using unsigned_less [of x] by simp
  then have "le_bytes_nat (to_le_bytes x) = unat x"
    by (simp add: to_le_bytes_def k le_bytes_nat_of_bytes)
  then show ?thesis by (simp add: from_le_bytes_def)
qed

lemma to_from_le_bytes:
  assumes "8 dvd LENGTH('a::len)" and "length bs = LENGTH('a) div 8"
  shows "to_le_bytes (from_le_bytes bs :: 'a word) = bs"
proof -
  obtain k where k: "LENGTH('a) = 8 * k" using assms by auto
  have "(256::nat) ^ k = 2 ^ LENGTH('a)"
    by (simp add: k power_mult)
  then have "le_bytes_nat bs < 2 ^ LENGTH('a)"
    using le_bytes_nat_bound [of bs] assms(2) k by simp
  then have "unat (of_nat (le_bytes_nat bs) :: 'a word) = le_bytes_nat bs"
    by (simp add: unat_of_nat)
  then show ?thesis
    using assms(2) nat_le_bytes_of_nat [of bs] by (simp add: to_le_bytes_def from_le_bytes_def)
qed

lemma from_to_bytes [simp]:
  "from_le_bytes (to_le_bytes (a :: u16)) = a"
  "from_le_bytes (to_le_bytes (b :: u32)) = b"
  "from_le_bytes (to_le_bytes (c :: u64)) = c"
  "from_be_bytes (to_be_bytes (d :: u32)) = d"
  by (simp_all add: from_to_le_bytes from_be_bytes_def to_be_bytes_def)

lemma to_from_bytes:
  "length p = 2 \<Longrightarrow> to_le_bytes (from_le_bytes p :: u16) = p"
  "length q = 4 \<Longrightarrow> to_le_bytes (from_le_bytes q :: u32) = q"
  "length r = 8 \<Longrightarrow> to_le_bytes (from_le_bytes r :: u64) = r"
  "length s = 4 \<Longrightarrow> to_be_bytes (from_be_bytes s :: u32) = s"
  by (simp_all add: to_from_le_bytes from_be_bytes_def to_be_bytes_def)

text \<open>A length that was cast to a narrower integer is read back exactly when it fits.\<close>

lemma unat_u32_of_nat [simp]: "n < 2 ^ 32 \<Longrightarrow> unat (of_nat n :: u32) = n"
  by (simp add: unat_of_nat)

lemma unat_u64_of_nat [simp]: "n < 2 ^ 64 \<Longrightarrow> unat (of_nat n :: u64) = n"
  by (simp add: unat_of_nat)

lemma u32_bound: "unat (x :: u32) < 2 ^ 32"
  using unsigned_less [of x] by simp

lemma u64_bound: "unat (x :: u64) < 2 ^ 64"
  using unsigned_less [of x] by simp

subsection \<open>Formatting\<close>

definition digit_char :: "nat \<Rightarrow> char" where
  "digit_char d = (if d < 10 then char_of (48 + d) else char_of (87 + d))"

text \<open>\<open>show_base b n\<close> writes \<open>n\<close> in base \<open>b\<close>, without leading zeros, in lower case.\<close>

function show_base :: "nat \<Rightarrow> nat \<Rightarrow> string" where
  "show_base b n =
     (if n < b \<or> b < 2 then [digit_char n] else show_base b (n div b) @ [digit_char (n mod b)])"
  by pat_completeness auto
termination
  by (relation "measure snd") auto

declare show_base.simps [simp del]

definition show_dec :: "nat \<Rightarrow> string" where
  "show_dec n = show_base 10 n"

text \<open>\<open>pad_left c k s\<close>: the width of a format specification such as \<open>06\<close> or \<open>02x\<close>.\<close>

definition pad_left :: "char \<Rightarrow> nat \<Rightarrow> string \<Rightarrow> string" where
  "pad_left c k s = replicate (k - length s) c @ s"

text \<open>The bytes of a string literal (\<open>b"..."\<close>, \<open>as_bytes()\<close>).\<close>

definition str_bytes :: "string \<Rightarrow> bytes" where
  "str_bytes s = map of_char s"

text \<open>\<open>{:?}\<close> of a byte slice: \<open>[65, 84, 75, 86]\<close>.\<close>

fun join_with :: "string \<Rightarrow> string list \<Rightarrow> string" where
  "join_with sep [] = []"
| "join_with sep [s] = s"
| "join_with sep (s # t # ss) = s @ sep @ join_with sep (t # ss)"

definition show_bytes :: "bytes \<Rightarrow> string" where
  "show_bytes bs = ''['' @ join_with '', '' (map (\<lambda>b. show_dec (unat b)) bs) @ '']''"

end
