(* ===== verification/Ordered_Map.thy ===== *)
theory Ordered_Map
  imports Prelude
begin

section \<open>The ordered map of the standard library\<close>

text \<open>
  \<open>BTreeMap\<close> is the data structure of the memtable and of the index of an SSTable. The model is
  the ascending association list that iterating the map yields; \<open>bt_get\<close>, \<open>bt_insert\<close>,
  \<open>bt_len\<close>, \<open>bt_first_key\<close>, \<open>bt_last_key\<close> are \<open>get\<close>, \<open>insert\<close>, \<open>len\<close>,
  \<open>keys().next()\<close> and \<open>keys().next_back()\<close>. The locale \<open>ordered_map\<close> is the contract its
  clients use; the facts about iteration and about sums over the entries are proved from the
  contract alone.
\<close>

locale ordered_map =
  fixes empty :: "'m"
    and get :: "'m \<Rightarrow> 'k::linorder \<Rightarrow> 'v option"
    and insert :: "'k \<Rightarrow> 'v \<Rightarrow> 'm \<Rightarrow> 'm"
    and iter :: "'m \<Rightarrow> ('k \<times> 'v) list"
    and inv :: "'m \<Rightarrow> bool"
  assumes inv_empty: "inv empty"
    and inv_insert: "inv m \<Longrightarrow> inv (insert k v m)"
    and get_empty: "get empty = Map.empty"
    and get_insert: "inv m \<Longrightarrow> get (insert k v m) = (get m)(k \<mapsto> v)"
    and iter_ascending: "inv m \<Longrightarrow> sorted_wrt (<) (map fst (iter m))"
    and iter_get: "inv m \<Longrightarrow> map_of (iter m) = get m"
begin

lemma iter_distinct: "inv m \<Longrightarrow> distinct (map fst (iter m))"
  using iter_ascending strict_sorted_iff by blast

lemma iter_iff_get: "inv m \<Longrightarrow> (k, v) \<in> set (iter m) \<longleftrightarrow> get m k = Some v"
  using iter_distinct iter_get by (metis map_of_eq_Some_iff)

lemma iter_keys: "inv m \<Longrightarrow> set (map fst (iter m)) = dom (get m)"
  using iter_get by (metis dom_map_of_conv_image_fst list.set_map)

lemma iter_determined:
  assumes "inv m" and "inv n" and "get m = get n"
  shows "iter m = iter n"
proof -
  have "set (iter m) = set (iter n)" using assms by (auto simp: iter_iff_get)
  moreover have "inj_on fst (set (iter m) \<union> set (iter n))"
    using calculation iter_distinct [OF assms(1)] by (simp add: distinct_map)
  ultimately show ?thesis
    using assms iter_ascending iter_distinct
    by (intro map_sorted_distinct_set_unique [of fst]) (auto simp: strict_sorted_iff)
qed

lemma iter_empty_iff: "inv m \<Longrightarrow> iter m = [] \<longleftrightarrow> get m = Map.empty"
  by (metis iter_get map_of_eq_empty_iff)

text \<open>Summing a weight over the entries: an insertion adds its own and drops the old one.\<close>

definition total :: "('k \<times> 'v \<Rightarrow> nat) \<Rightarrow> 'm \<Rightarrow> nat" where
  "total f m = (\<Sum>e\<leftarrow>iter m. f e)"

definition old_weight :: "('k \<times> 'v \<Rightarrow> nat) \<Rightarrow> 'k \<Rightarrow> 'm \<Rightarrow> nat" where
  "old_weight f k m = (case get m k of None \<Rightarrow> 0 | Some v \<Rightarrow> f (k, v))"

lemma total_graph: "inv m \<Longrightarrow> total f m = sum f (Map.graph (get m))"
  using iter_distinct iter_get
  by (simp add: total_def graph_map_of_if_distinct_dom distinct_map sum_list_distinct_conv_sum_set
      flip: iter_get)

lemma total_insert:
  assumes "inv m"
  shows "total f (insert k v m) + old_weight f k m = total f m + f (k, v)"
proof -
  let ?g = "get m"
  let ?rest = "Map.graph (?g(k := None))"
  have fin: "finite (Map.graph ?g)"
    using assms iter_distinct iter_get by (metis finite_set graph_map_of_if_distinct_dom)
  have sub: "?rest \<subseteq> Map.graph ?g" by (auto simp: graph_def split: if_splits)
  then have fin_rest: "finite ?rest" using fin finite_subset by blast
  have "Map.graph (?g(k \<mapsto> v)) = Set.insert (k, v) ?rest"
    by (auto simp: graph_def split: if_splits)
  moreover have "(k, v) \<notin> ?rest" by (simp add: graph_def)
  ultimately have new: "total f (insert k v m) = f (k, v) + sum f ?rest"
    using assms fin_rest by (simp add: total_graph inv_insert get_insert)
  have "total f m = old_weight f k m + sum f ?rest"
  proof (cases "?g k")
    case None
    then have "?g(k := None) = ?g" by auto
    then show ?thesis using assms None by (simp add: total_graph old_weight_def)
  next
    case (Some u)
    then have "Map.graph ?g = Set.insert (k, u) ?rest"
      by (auto simp: graph_def split: if_splits)
    moreover have "(k, u) \<notin> ?rest" by (simp add: graph_def)
    ultimately show ?thesis using assms Some fin_rest by (simp add: total_graph old_weight_def)
  qed
  with new show ?thesis by simp
qed

text \<open>Replaying a list of insertions.\<close>

definition insert_all :: "('k \<times> 'v) list \<Rightarrow> 'm \<Rightarrow> 'm" where
  "insert_all es m = foldl (\<lambda>m (k, v). insert k v m) m es"

lemma insert_all_inv_get:
  "inv m \<Longrightarrow> inv (insert_all es m) \<and> get (insert_all es m) = get m ++ map_of (rev es)"
proof (induction es arbitrary: m)
  case Nil
  then show ?case by (simp add: insert_all_def)
next
  case (Cons e es)
  obtain k v where e: "e = (k, v)" by (cases e)
  from Cons.prems have "inv (insert k v m)" by (rule inv_insert)
  from Cons.IH [OF this] show ?case
    using Cons.prems by (simp add: insert_all_def e get_insert map_add_upd_left map_add_def fun_eq_iff
        split: option.split)
qed

end

subsection \<open>The ascending association list\<close>

fun bt_insert :: "'k::linorder \<Rightarrow> 'v \<Rightarrow> ('k \<times> 'v) list \<Rightarrow> ('k \<times> 'v) list" where
  "bt_insert k v [] = [(k, v)]"
| "bt_insert k v ((a, b) # m) =
     (if k < a then (k, v) # (a, b) # m
      else if k = a then (a, v) # m
      else (a, b) # bt_insert k v m)"

definition bt_get :: "('k::linorder \<times> 'v) list \<Rightarrow> 'k \<Rightarrow> 'v option" where
  "bt_get m k = map_of m k"

definition bt_len :: "('k \<times> 'v) list \<Rightarrow> nat" where
  "bt_len m = length m"

fun bt_first_key :: "('k \<times> 'v) list \<Rightarrow> 'k option" where
  "bt_first_key [] = None"
| "bt_first_key ((k, v) # m) = Some k"

fun bt_last_key :: "('k \<times> 'v) list \<Rightarrow> 'k option" where
  "bt_last_key [] = None"
| "bt_last_key [(k, v)] = Some k"
| "bt_last_key (e # f # m) = bt_last_key (f # m)"

definition bt_inv :: "('k::linorder \<times> 'v) list \<Rightarrow> bool" where
  "bt_inv m = sorted_wrt (<) (map fst m)"

lemma map_of_bt_insert: "map_of (bt_insert k v m) = (map_of m)(k \<mapsto> v)"
  by (induction k v m rule: bt_insert.induct) (auto simp: fun_eq_iff)

lemma keys_bt_insert: "set (map fst (bt_insert k v m)) = insert k (set (map fst m))"
  by (induction k v m rule: bt_insert.induct) auto

lemma bt_inv_insert: "bt_inv m \<Longrightarrow> bt_inv (bt_insert k v m)"
proof (induction k v m rule: bt_insert.induct)
  case (1 k v)
  then show ?case by (simp add: bt_inv_def)
next
  case (2 k v a b m)
  have "\<forall>x \<in> set (map fst (bt_insert k v m)). a < x" if "a < k" "\<forall>x \<in> set (map fst m). a < x"
    unfolding keys_bt_insert using that by simp
  with 2 show ?case by (auto simp: bt_inv_def dest: order.strict_trans)
qed

interpretation bt: ordered_map "[]" bt_get bt_insert "\<lambda>m. m" bt_inv
  by unfold_locales
    (auto simp: bt_inv_def bt_get_def fun_eq_iff map_of_bt_insert bt_inv_insert [unfolded bt_inv_def])

text \<open>The first and the last key bound every key of the map.\<close>

lemma bt_first_key_Some: "bt_first_key m = Some k \<longleftrightarrow> (\<exists>v m'. m = (k, v) # m')"
  by (cases m rule: bt_first_key.cases) auto

lemma bt_last_key_snoc: "bt_last_key (m @ [(k, v)]) = Some k"
  by (induction m rule: bt_last_key.induct) auto

lemma bt_key_bounds:
  assumes "bt_inv m" and "bt_get m k \<noteq> None"
  obtains lo hi where "bt_first_key m = Some lo" and "bt_last_key m = Some hi" and "lo \<le> k" and "k \<le> hi"
proof -
  from assms(2) obtain v where kv: "(k, v) \<in> set m"
    by (auto simp: bt_get_def dest: map_of_SomeD)
  obtain lo u m' where first: "m = (lo, u) # m'" using kv by (cases m) auto
  obtain hi t m'' where last: "m = m'' @ [(hi, t)]" using kv by (cases m rule: rev_cases) auto
  have "lo \<le> k" using assms(1) kv unfolding bt_inv_def first by (auto intro: less_imp_le)
  moreover have "k \<le> hi" using assms(1) kv unfolding bt_inv_def last
    by (auto simp: sorted_wrt_append intro: less_imp_le)
  ultimately show ?thesis using that first last by (metis bt_first_key.simps(2) bt_last_key_snoc)
qed

lemma bt_outside_bounds:
  assumes "bt_inv m" and "bt_first_key m = Some lo" and "bt_last_key m = Some hi" and "k < lo \<or> hi < k"
  shows "bt_get m k = None"
  using assms bt_key_bounds [of m k] by (metis leD option.inject)

end
