(* ===== verification/Std_IO.thy ===== *)
theory Std_IO
  imports Prelude "HOL-Library.AList" "HOL-Library.Sublist"
begin

section \<open>The standard library's files\<close>

text \<open>
  What the source uses of \<open>std::fs\<close> and \<open>std::io\<close>: a file system, \<open>File\<close> handles with a
  cursor, \<open>read_exact\<close>, \<open>seek\<close>, \<open>write_all\<close>, \<open>set_len\<close>, \<open>sync_all\<close>, \<open>read_dir\<close>,
  \<open>create_dir_all\<close>, and \<open>BufWriter\<close> with its 8 KiB buffer. The state is the \<open>world\<close>:
  \<^item> \<open>fs\<close>: the nodes of the file system by path, in directory order. A file keeps the content
    that reads see and the content that the last \<open>sync_all\<close> made durable;
  \<^item> \<open>faults\<close>: what the operating system answers to the next calls, \<open>Some\<close> an error or
    \<open>None\<close> for success; no entry left means success. A fault of a write says how many bytes
    were transferred before it. Every fallible operation consumes one entry, so a theorem for
    every \<open>world\<close> covers every pattern of input/output errors;
  \<^item> \<open>now\<close>: what \<open>SystemTime::now().duration_since(UNIX_EPOCH)\<close> answers in milliseconds,
    \<open>None\<close> when the clock is before the epoch.
  The program never removes or renames a file, so a handle is a path and a cursor. A buffered
  read is one fallible call in the model even when the buffer already holds the bytes, which
  admits more failures than the code has, never fewer.
\<close>

type_synonym path = "string list"

datatype error_kind = NotFound | AlreadyExists | NotADirectory | IsADirectory | InvalidInput
  | UnexpectedEof | ConnectionReset | ConnectionAborted | BrokenPipe | WouldBlock | TimedOut
  | OtherKind

datatype io_error = IoError (io_kind: error_kind) (io_message: string)

datatype fault = Fault nat io_error

datatype node = FileNode bytes bytes | DirNode

record world =
  fs :: "(path \<times> node) list"
  faults :: "fault option list"
  now :: "nat option"

type_synonym ('s, 'a) io = "'s \<Rightarrow> (io_error, 'a) outcome \<times> 's"

definition lookup :: "world \<Rightarrow> path \<Rightarrow> node option" where
  "lookup w p = map_of (fs w) p"

definition set_node :: "path \<Rightarrow> node \<Rightarrow> world \<Rightarrow> world" where
  "set_node p n w = w\<lparr>fs := AList.update p n (fs w)\<rparr>"

fun node_content :: "node option \<Rightarrow> bytes" where
  "node_content (Some (FileNode c d)) = c"
| "node_content _ = []"

fun node_durable :: "node option \<Rightarrow> bytes" where
  "node_durable (Some (FileNode c d)) = d"
| "node_durable _ = []"

definition content :: "world \<Rightarrow> path \<Rightarrow> bytes" where
  "content w p = node_content (lookup w p)"

definition durable :: "world \<Rightarrow> path \<Rightarrow> bytes" where
  "durable w p = node_durable (lookup w p)"

definition is_file :: "world \<Rightarrow> path \<Rightarrow> bool" where
  "is_file w p = (case lookup w p of Some (FileNode c d) \<Rightarrow> True | _ \<Rightarrow> False)"

definition exists_path :: "world \<Rightarrow> path \<Rightarrow> bool" where
  "exists_path w p = (lookup w p \<noteq> None)"

subsection \<open>Calls to the operating system\<close>

fun next_fault :: "world \<Rightarrow> fault option \<times> world" where
  "next_fault w = (case faults w of [] \<Rightarrow> (None, w) | f # rest \<Rightarrow> (f, w\<lparr>faults := rest\<rparr>))"

fun syscall :: "(world, unit) io" where
  "syscall w = (case next_fault w of
     (None, w') \<Rightarrow> (Ok (), w')
   | (Some (Fault n e), w') \<Rightarrow> (Err e, w'))"

definition enoent :: io_error where
  "enoent = IoError NotFound ''No such file or directory (os error 2)''"

definition eisdir :: io_error where
  "eisdir = IoError IsADirectory ''Is a directory (os error 21)''"

definition enotdir :: io_error where
  "enotdir = IoError NotADirectory ''Not a directory (os error 20)''"

definition einval :: io_error where
  "einval = IoError InvalidInput ''Invalid argument (os error 22)''"

definition eof_error :: io_error where
  "eof_error = IoError UnexpectedEof ''failed to fill whole buffer''"

subsection \<open>Directories\<close>

fun make_dirs :: "path \<Rightarrow> path \<Rightarrow> world \<Rightarrow> world" where
  "make_dirs done [] w = w"
| "make_dirs done (c # cs) w =
     make_dirs (done @ [c]) cs
       (case lookup w (done @ [c]) of None \<Rightarrow> set_node (done @ [c]) DirNode w | Some n \<Rightarrow> w)"

definition create_dir_all :: "path \<Rightarrow> (world, unit) io" where
  "create_dir_all p w = andThen (syscall w) (\<lambda>_ w.
     if \<exists>q \<in> set (prefixes p). is_file w q then (Err enotdir, w)
     else (Ok (), make_dirs [] p w))"

definition read_dir :: "path \<Rightarrow> (world, path list) io" where
  "read_dir d w = andThen (syscall w) (\<lambda>_ w.
     if is_file w d then (Err enotdir, w)
     else if d \<noteq> [] \<and> \<not> exists_path w d then (Err enoent, w)
     else (Ok (filter (\<lambda>p. p \<noteq> [] \<and> butlast p = d) (map fst (fs w))), w))"

subsection \<open>Reading\<close>

record rhandle =
  r_path :: path
  r_pos :: nat

definition file_open :: "path \<Rightarrow> (world, rhandle) io" where
  "file_open p w = andThen (syscall w) (\<lambda>_ w.
     case lookup w p of
       None \<Rightarrow> (Err enoent, w)
     | Some DirNode \<Rightarrow> (Err eisdir, w)
     | Some (FileNode c d) \<Rightarrow> (Ok \<lparr>r_path = p, r_pos = 0\<rparr>, w))"

definition metadata_len :: "path \<Rightarrow> (world, nat) io" where
  "metadata_len p w = andThen (syscall w) (\<lambda>_ w. (Ok (length (content w p)), w))"

definition lift_w :: "(world, 'a) io \<Rightarrow> ('h \<times> world, 'a) io" where
  "lift_w m = (\<lambda>(h, w). case m w of (r, w') \<Rightarrow> (r, h, w'))"

definition read_exact :: "nat \<Rightarrow> (rhandle \<times> world, bytes) io" where
  "read_exact n hw =
     (if n = 0 then (Ok [], hw)
      else andThen (lift_w syscall hw) (\<lambda>_ (h, w).
        let c = content w (r_path h) in
        if r_pos h + n \<le> length c
        then (Ok (slice (r_pos h) (r_pos h + n) c), h\<lparr>r_pos := r_pos h + n\<rparr>, w)
        else (Err eof_error, h\<lparr>r_pos := max (r_pos h) (length c)\<rparr>, w)))"

text \<open>An offset that does not fit \<open>i64\<close> is a negative one for the operating system.\<close>

definition seek_start :: "u64 \<Rightarrow> (rhandle \<times> world, unit) io" where
  "seek_start off hw = andThen (lift_w syscall hw) (\<lambda>_ (h, w).
     if 2 ^ 63 \<le> unat off then (Err einval, h, w)
     else (Ok (), h\<lparr>r_pos := unat off\<rparr>, w))"

definition seek_end_back :: "nat \<Rightarrow> (rhandle \<times> world, unit) io" where
  "seek_end_back k hw = andThen (lift_w syscall hw) (\<lambda>_ (h, w).
     let c = content w (r_path h) in
     if length c < k then (Err einval, h, w)
     else (Ok (), h\<lparr>r_pos := length c - k\<rparr>, w))"

definition seek_current :: "nat \<Rightarrow> (rhandle \<times> world, unit) io" where
  "seek_current k hw = andThen (lift_w syscall hw) (\<lambda>_ (h, w).
     (Ok (), h\<lparr>r_pos := r_pos h + k\<rparr>, w))"

subsection \<open>Writing\<close>

record whandle =
  w_path :: path
  w_pos :: nat
  w_append :: bool

definition open_truncate :: "path \<Rightarrow> (world, whandle) io" where
  "open_truncate p w = andThen (syscall w) (\<lambda>_ w.
     case lookup w p of
       Some DirNode \<Rightarrow> (Err eisdir, w)
     | Some (FileNode c d) \<Rightarrow>
         (Ok \<lparr>w_path = p, w_pos = 0, w_append = False\<rparr>, set_node p (FileNode [] d) w)
     | None \<Rightarrow>
         if butlast p \<noteq> [] \<and> lookup w (butlast p) \<noteq> Some DirNode then (Err enoent, w)
         else (Ok \<lparr>w_path = p, w_pos = 0, w_append = False\<rparr>, set_node p (FileNode [] []) w))"

definition open_append_mode :: "path \<Rightarrow> (world, whandle) io" where
  "open_append_mode p w = andThen (syscall w) (\<lambda>_ w.
     case lookup w p of
       Some DirNode \<Rightarrow> (Err eisdir, w)
     | Some (FileNode c d) \<Rightarrow> (Ok \<lparr>w_path = p, w_pos = 0, w_append = True\<rparr>, w)
     | None \<Rightarrow>
         if butlast p \<noteq> [] \<and> lookup w (butlast p) \<noteq> Some DirNode then (Err enoent, w)
         else (Ok \<lparr>w_path = p, w_pos = 0, w_append = True\<rparr>, set_node p (FileNode [] []) w))"

definition write_at :: "nat \<Rightarrow> bytes \<Rightarrow> bytes \<Rightarrow> bytes" where
  "write_at pos d c = take pos c @ replicate (pos - length c) 0 @ d @ drop (pos + length d) c"

text \<open>The bytes reach the file at the cursor, or at its end in append mode.\<close>

definition put_bytes :: "bytes \<Rightarrow> whandle \<times> world \<Rightarrow> whandle \<times> world" where
  "put_bytes d = (\<lambda>(h, w). case lookup w (w_path h) of
     Some (FileNode c dur) \<Rightarrow>
       (let pos = (if w_append h then length c else w_pos h) in
        (h\<lparr>w_pos := pos + length d\<rparr>, set_node (w_path h) (FileNode (write_at pos d c) dur) w))
   | _ \<Rightarrow> (h, w))"

text \<open>
  \<open>file_write_all\<close> answers with the number of bytes transferred: all of them, or fewer than
  all when the call fails.
\<close>

definition file_write_all :: "bytes \<Rightarrow> whandle \<times> world \<Rightarrow>
    (io_error, unit) outcome \<times> nat \<times> whandle \<times> world" where
  "file_write_all d = (\<lambda>(h, w).
     if d = [] then (Ok (), 0, h, w)
     else case next_fault w of
       (None, w') \<Rightarrow> (Ok (), length d, put_bytes d (h, w'))
     | (Some (Fault n e), w') \<Rightarrow>
         (let k = min n (length d - 1) in (Err e, k, put_bytes (take k d) (h, w'))))"

definition sync_all :: "(whandle \<times> world, unit) io" where
  "sync_all hw = andThen (lift_w syscall hw) (\<lambda>_ (h, w).
     case lookup w (w_path h) of
       Some (FileNode c d) \<Rightarrow> (Ok (), h, set_node (w_path h) (FileNode c c) w)
     | _ \<Rightarrow> (Ok (), h, w))"

definition set_len_0 :: "(whandle \<times> world, unit) io" where
  "set_len_0 hw = andThen (lift_w syscall hw) (\<lambda>_ (h, w).
     case lookup w (w_path h) of
       Some (FileNode c d) \<Rightarrow> (Ok (), h, set_node (w_path h) (FileNode [] d) w)
     | _ \<Rightarrow> (Ok (), h, w))"

definition wseek_start :: "nat \<Rightarrow> (whandle \<times> world, unit) io" where
  "wseek_start off hw = andThen (lift_w syscall hw) (\<lambda>_ (h, w). (Ok (), h\<lparr>w_pos := off\<rparr>, w))"

subsection \<open>Buffered writing\<close>

record bufwriter =
  inner :: whandle
  buf :: bytes

definition BUF_CAPACITY :: nat where
  "BUF_CAPACITY = 8192"

definition bufwriter_new :: "whandle \<Rightarrow> bufwriter" where
  "bufwriter_new h = \<lparr>inner = h, buf = []\<rparr>"

definition flush_buf :: "(bufwriter \<times> world, unit) io" where
  "flush_buf = (\<lambda>(b, w). case file_write_all (buf b) (inner b, w) of
     (Ok _, k, h, w') \<Rightarrow> (Ok (), b\<lparr>inner := h, buf := []\<rparr>, w')
   | (Err e, k, h, w') \<Rightarrow> (Err e, b\<lparr>inner := h, buf := drop k (buf b)\<rparr>, w')
   | (Panic, k, h, w') \<Rightarrow> (Panic, b\<lparr>inner := h\<rparr>, w'))"

definition write_through :: "bytes \<Rightarrow> (bufwriter \<times> world, unit) io" where
  "write_through d = (\<lambda>(b, w).
     if BUF_CAPACITY \<le> length d
     then (case file_write_all d (inner b, w) of (r, k, h, w') \<Rightarrow> (r, b\<lparr>inner := h\<rparr>, w'))
     else (Ok (), b\<lparr>buf := buf b @ d\<rparr>, w))"

definition write_all_cold :: "bytes \<Rightarrow> (bufwriter \<times> world, unit) io" where
  "write_all_cold d = (\<lambda>(b, w).
     andThen (if BUF_CAPACITY - length (buf b) < length d then flush_buf (b, w) else (Ok (), b, w))
       (\<lambda>_. write_through d))"

definition write_all :: "bytes \<Rightarrow> (bufwriter \<times> world, unit) io" where
  "write_all d = (\<lambda>(b, w).
     if length d < BUF_CAPACITY - length (buf b) then (Ok (), b\<lparr>buf := buf b @ d\<rparr>, w)
     else write_all_cold d (b, w))"

definition on_inner :: "(whandle \<times> world, 'a) io \<Rightarrow> (bufwriter \<times> world, 'a) io" where
  "on_inner = zoom inner (\<lambda>h b. b\<lparr>inner := h\<rparr>)"


subsection \<open>The file system after an update\<close>

lemma lookup_set_node [simp]: "lookup (set_node p n w) q = (if q = p then Some n else lookup w q)"
  by (simp add: lookup_def set_node_def update_conv')

lemma set_node_fields [simp]:
  "faults (set_node p n w) = faults w"
  "now (set_node p n w) = now w"
  by (simp_all add: set_node_def)

lemma names_set_node:
  "map fst (fs (set_node p n w)) =
     (if exists_path w p then map fst (fs w) else map fst (fs w) @ [p])"
  by (auto simp: set_node_def update_keys exists_path_def lookup_def map_of_eq_None_iff)

lemma lookup_world_update [simp]:
  "lookup (w\<lparr>faults := f\<rparr>) q = lookup w q"
  "lookup (w\<lparr>now := t\<rparr>) q = lookup w q"
  by (simp_all add: lookup_def)

lemma is_file_lookup: "is_file w p \<longleftrightarrow> (\<exists>c d. lookup w p = Some (FileNode c d))"
  by (auto simp: is_file_def split: option.splits node.splits)

lemma is_file_cases:
  assumes "is_file w p"
  shows "lookup w p = Some (FileNode (content w p) (durable w p))"
  using assms by (auto simp: is_file_lookup content_def durable_def)

lemma content_lookup:
  "lookup w p = Some (FileNode c d) \<Longrightarrow> content w p = c"
  "lookup w p = Some (FileNode c d) \<Longrightarrow> durable w p = d"
  by (simp_all add: content_def durable_def)

text \<open>
  \<open>frame P w w'\<close>: between the two worlds only the files in \<open>P\<close> changed, and no fault
  appeared. \<open>same_names\<close>: no directory entry appeared.
\<close>

definition frame :: "path set \<Rightarrow> world \<Rightarrow> world \<Rightarrow> bool" where
  "frame P w w' \<longleftrightarrow> (\<forall>q. q \<notin> P \<longrightarrow> lookup w' q = lookup w q) \<and> now w' = now w \<and>
     (faults w = [] \<longrightarrow> faults w' = [])"

definition same_names :: "world \<Rightarrow> world \<Rightarrow> bool" where
  "same_names w w' \<longleftrightarrow> map fst (fs w') = map fst (fs w)"

lemma frame_refl [simp, intro]: "frame P w w"
  by (simp add: frame_def)

lemma frame_trans [trans]: "frame P u v \<Longrightarrow> frame Q v w \<Longrightarrow> frame (P \<union> Q) u w"
  by (auto simp: frame_def)

lemma frame_trans_same: "frame P u v \<Longrightarrow> frame P v w \<Longrightarrow> frame P u w"
  using frame_trans by fastforce

lemma frame_mono: "frame P u v \<Longrightarrow> P \<subseteq> Q \<Longrightarrow> frame Q u v"
  by (auto simp: frame_def)

lemma frame_lookup: "frame P w w' \<Longrightarrow> q \<notin> P \<Longrightarrow> lookup w' q = lookup w q"
  by (simp add: frame_def)

lemma frame_content: "frame P w w' \<Longrightarrow> q \<notin> P \<Longrightarrow> content w' q = content w q"
  by (simp add: frame_def content_def)

lemma frame_no_faults: "frame P w w' \<Longrightarrow> faults w = [] \<Longrightarrow> faults w' = []"
  by (simp add: frame_def)

lemma frame_set_node: "p \<in> P \<Longrightarrow> frame P w (set_node p n w)"
  by (auto simp: frame_def)

lemma same_names_refl [simp, intro]: "same_names w w"
  by (simp add: same_names_def)

lemma same_names_trans: "same_names u v \<Longrightarrow> same_names v w \<Longrightarrow> same_names u w"
  by (simp add: same_names_def)

lemma same_names_set_node: "exists_path w p \<Longrightarrow> same_names w (set_node p n w)"
  by (simp add: same_names_def names_set_node)

lemma is_file_exists: "is_file w p \<Longrightarrow> exists_path w p"
  by (auto simp: is_file_lookup exists_path_def)

lemma next_fault_effect:
  "next_fault w = (f, w') \<Longrightarrow> frame {} w w' \<and> same_names w w' \<and> fs w' = fs w \<and> (faults w = [] \<longrightarrow> f = None)"
  by (auto simp: frame_def same_names_def lookup_def split: list.splits)

lemma syscall_effect:
  assumes "syscall w = (r, w')"
  shows "frame {} w w'" and "same_names w w'" and "fs w' = fs w"
    and "faults w = [] \<Longrightarrow> r = Ok ()" and "r \<noteq> Panic"
  using assms by (auto simp: frame_def same_names_def lookup_def split: list.splits option.splits fault.splits)

lemma syscall_no_faults [io_simps]: "faults w = [] \<Longrightarrow> syscall w = (Ok (), w)"
  by simp

lemma next_fault_no_faults [io_simps]: "faults w = [] \<Longrightarrow> next_fault w = (None, w)"
  by simp

declare syscall.simps [simp del] next_fault.simps [simp del]

lemma lift_w_no_faults [io_simps]: "faults w = [] \<Longrightarrow> lift_w syscall (h, w) = (Ok (), h, w)"
  by (simp add: lift_w_def io_simps)

text \<open>Reading, without faults.\<close>

lemma file_open_no_faults [io_simps]:
  "faults w = [] \<Longrightarrow> is_file w p \<Longrightarrow> file_open p w = (Ok \<lparr>r_path = p, r_pos = 0\<rparr>, w)"
  by (auto simp: file_open_def io_simps is_file_lookup)

lemma metadata_len_no_faults [io_simps]:
  "faults w = [] \<Longrightarrow> metadata_len p w = (Ok (length (content w p)), w)"
  by (simp add: metadata_len_def io_simps)

lemma read_exact_no_faults [io_simps]:
  "faults w = [] \<Longrightarrow> r_pos h + n \<le> length (content w (r_path h)) \<Longrightarrow>
   read_exact n (h, w) =
     (Ok (slice (r_pos h) (r_pos h + n) (content w (r_path h))), h\<lparr>r_pos := r_pos h + n\<rparr>, w)"
  by (simp add: read_exact_def io_simps Let_def slice_def)

lemma read_exact_eof:
  "faults w = [] \<Longrightarrow> length (content w (r_path h)) < r_pos h + n \<Longrightarrow> 0 < n \<Longrightarrow>
   read_exact n (h, w) =
     (Err eof_error, h\<lparr>r_pos := max (r_pos h) (length (content w (r_path h)))\<rparr>, w)"
  by (simp add: read_exact_def io_simps Let_def)

lemma seek_no_faults [io_simps]:
  "faults w = [] \<Longrightarrow> unat off < 2 ^ 63 \<Longrightarrow> seek_start off (h, w) = (Ok (), h\<lparr>r_pos := unat off\<rparr>, w)"
  "faults w = [] \<Longrightarrow> k \<le> length (content w (r_path h)) \<Longrightarrow>
     seek_end_back k (h, w) = (Ok (), h\<lparr>r_pos := length (content w (r_path h)) - k\<rparr>, w)"
  "faults w = [] \<Longrightarrow> seek_current k (h, w) = (Ok (), h\<lparr>r_pos := r_pos h + k\<rparr>, w)"
  by (simp_all add: seek_start_def seek_end_back_def seek_current_def io_simps Let_def)

subsection \<open>Sequential writers\<close>

text \<open>
  Every writer of the source is sequential: its cursor is at the end of its file. What it has
  accepted so far, its \<open>stream\<close>, is the file followed by the buffer; losing the process loses
  the buffer and nothing else.
\<close>

definition bw_path :: "bufwriter \<Rightarrow> path" where
  "bw_path b = w_path (inner b)"

definition seq_handle :: "whandle \<Rightarrow> world \<Rightarrow> bool" where
  "seq_handle h w \<longleftrightarrow> is_file w (w_path h) \<and> (w_append h \<or> w_pos h = length (content w (w_path h)))"

definition seq_writer :: "bufwriter \<Rightarrow> world \<Rightarrow> bool" where
  "seq_writer b w \<longleftrightarrow> seq_handle (inner b) w"

definition stream :: "bufwriter \<Rightarrow> world \<Rightarrow> bytes" where
  "stream b w = content w (bw_path b) @ buf b"

definition advances :: "bufwriter \<times> world \<Rightarrow> bytes \<Rightarrow> bufwriter \<times> world \<Rightarrow> bool" where
  "advances s d t \<longleftrightarrow> (case (s, t) of ((b, w), (b', w')) \<Rightarrow>
     seq_writer b' w' \<and> bw_path b' = bw_path b \<and> frame {bw_path b} w w' \<and> same_names w w' \<and>
     durable w' (bw_path b) = durable w (bw_path b) \<and>
     stream b' w' = stream b w @ d \<and> prefix (content w (bw_path b)) (content w' (bw_path b)))"

lemma advances_refl: "seq_writer b w \<Longrightarrow> advances (b, w) [] (b, w)"
  by (simp add: advances_def)

lemma advances_trans:
  assumes "advances (b, w) d (b', w')" and "advances (b', w') e (b'', w'')"
  shows "advances (b, w) (d @ e) (b'', w'')"
  using assms unfolding advances_def
  by (auto intro: frame_trans_same same_names_trans prefix_order.trans)

lemma advances_frame: "advances (b, w) d (b', w') \<Longrightarrow> frame {bw_path b} w w'"
  by (simp add: advances_def)

lemma advances_seq: "advances (b, w) d (b', w') \<Longrightarrow> seq_writer b' w'"
  by (simp add: advances_def)

lemma advances_path: "advances (b, w) d (b', w') \<Longrightarrow> bw_path b' = bw_path b"
  by (simp add: advances_def)

lemma advances_stream: "advances (b, w) d (b', w') \<Longrightarrow> stream b' w' = stream b w @ d"
  by (simp add: advances_def)

lemma write_at_end: "write_at (length c) d c = c @ d"
  by (simp add: write_at_def)

lemma put_bytes_seq:
  assumes "seq_handle h w"
  shows "put_bytes d (h, w) =
    (h\<lparr>w_pos := length (content w (w_path h)) + length d\<rparr>,
     set_node (w_path h) (FileNode (content w (w_path h) @ d) (durable w (w_path h))) w)"
proof -
  have "lookup w (w_path h) = Some (FileNode (content w (w_path h)) (durable w (w_path h)))"
    using assms is_file_cases by (auto simp: seq_handle_def)
  then show ?thesis
    using assms by (auto simp: put_bytes_def seq_handle_def write_at_end Let_def)
qed

lemma put_bytes_effect:
  assumes seq: "seq_handle h w" and run: "put_bytes d (h, w) = (h', w')"
  shows "seq_handle h' w' \<and> w_path h' = w_path h \<and> frame {w_path h} w w' \<and> same_names w w' \<and>
    durable w' (w_path h) = durable w (w_path h) \<and> content w' (w_path h) = content w (w_path h) @ d"
proof -
  let ?p = "w_path h"
  have w': "w' = set_node ?p (FileNode (content w ?p @ d) (durable w ?p)) w"
    and h': "h' = h\<lparr>w_pos := length (content w ?p) + length d\<rparr>"
    using run by (simp_all add: put_bytes_seq [OF seq])
  have "exists_path w ?p" using seq by (simp add: seq_handle_def is_file_exists)
  then have "same_names w w'" unfolding w' by (rule same_names_set_node)
  moreover have "frame {?p} w w'" unfolding w' by (rule frame_set_node) simp
  moreover have "lookup w' ?p = Some (FileNode (content w ?p @ d) (durable w ?p))" by (simp add: w')
  ultimately show ?thesis by (simp add: seq_handle_def is_file_def h' content_lookup)
qed

text \<open>One transfer of the operating system: some bytes reach the file, all of them on success.\<close>

definition transfers :: "whandle \<times> world \<Rightarrow> bytes \<Rightarrow> whandle \<times> world \<Rightarrow> bool" where
  "transfers s d t \<longleftrightarrow> (case (s, t) of ((h, w), (h', w')) \<Rightarrow>
     seq_handle h' w' \<and> w_path h' = w_path h \<and> frame {w_path h} w w' \<and> same_names w w' \<and>
     durable w' (w_path h) = durable w (w_path h) \<and>
     content w' (w_path h) = content w (w_path h) @ d)"

lemma file_write_all_transfers:
  assumes seq: "seq_handle h w" and run: "file_write_all d (h, w) = (r, k, h', w')"
  shows "transfers (h, w) (take k d) (h', w')" and "k \<le> length d"
    and "r = Ok () \<Longrightarrow> k = length d" and "faults w = [] \<Longrightarrow> r = Ok ()" and "r \<noteq> Panic"
proof -
  obtain f w1 where nf: "next_fault w = (f, w1)" by (cases "next_fault w")
  note eff = next_fault_effect [OF nf]
  then have same: "lookup w1 = lookup w" by (auto simp: lookup_def)
  then have seq1: "seq_handle h w1" using seq by (simp add: seq_handle_def is_file_def content_def)
  have put: "transfers (h, w) e (h', w')" if "put_bytes e (h, w1) = (h', w')" for e
    using put_bytes_effect [OF seq1 that] eff frame_mono [of "{}" w w1 "{w_path h}"] same
    by (auto simp: transfers_def durable_def content_def intro: frame_trans_same same_names_trans)
  have "transfers (h, w) (take k d) (h', w') \<and> k \<le> length d \<and> (r = Ok () \<longrightarrow> k = length d) \<and>
      (faults w = [] \<longrightarrow> r = Ok ()) \<and> r \<noteq> Panic"
  proof (cases "d = []")
    case True
    with run seq show ?thesis by (auto simp: file_write_all_def transfers_def)
  next
    case False
    with run put eff show ?thesis
      by (cases f) (auto simp: file_write_all_def nf Let_def split: fault.splits)
  qed
  then show "transfers (h, w) (take k d) (h', w')" and "k \<le> length d"
    and "r = Ok () \<Longrightarrow> k = length d" and "faults w = [] \<Longrightarrow> r = Ok ()" and "r \<noteq> Panic"
    by auto
qed

lemma transfers_advances:
  assumes "transfers (inner b, w) d (h, w')" and "buf b @ e = d @ c"
  shows "advances (b, w) e (b\<lparr>inner := h, buf := c\<rparr>, w')"
  using assms by (auto simp: transfers_def advances_def bw_path_def seq_writer_def stream_def)

lemma flush_buf_advances:
  assumes seq: "seq_writer b w" and run: "flush_buf (b, w) = (r, b', w')"
  shows "advances (b, w) [] (b', w')" and "r = Ok () \<Longrightarrow> buf b' = []"
    and "faults w = [] \<Longrightarrow> r = Ok ()" and "r \<noteq> Panic"
proof -
  obtain r0 k h w0 where fw: "file_write_all (buf b) (inner b, w) = (r0, k, h, w0)"
    by (metis prod_cases4)
  note fws = file_write_all_transfers [OF seq [unfolded seq_writer_def] fw]
  have res: "w' = w0" "r = r0"
    "b' = b\<lparr>inner := h, buf := (if r0 = Ok () then [] else drop k (buf b))\<rparr>"
    using run fws(5) by (auto simp: flush_buf_def fw split: outcome.splits)
  show "advances (b, w) [] (b', w')"
    unfolding res by (rule transfers_advances [OF fws(1)]) (use fws(3) in auto)
  show "r = Ok () \<Longrightarrow> buf b' = []" and "faults w = [] \<Longrightarrow> r = Ok ()" and "r \<noteq> Panic"
    using res fws by auto
qed

text \<open>
  \<open>accepts s d r t\<close>: the call that led from \<open>s\<close> to \<open>t\<close> with result \<open>r\<close> accepted all of \<open>d\<close>
  when it returned \<open>Ok\<close>, and a prefix of it when it failed.
\<close>

definition accepts :: "bufwriter \<times> world \<Rightarrow> bytes \<Rightarrow> ('e, unit) outcome \<Rightarrow> bufwriter \<times> world \<Rightarrow> bool" where
  "accepts s d r t \<longleftrightarrow> (\<exists>k. advances s (take k d) t \<and> (r = Ok () \<longrightarrow> length d \<le> k)) \<and>
     (faults (snd s) = [] \<longrightarrow> r = Ok ()) \<and> r \<noteq> Panic"

lemma accepts_Ok: "accepts s d (Ok ()) t \<Longrightarrow> advances s d t"
  by (auto simp: accepts_def)

lemma acceptsI:
  "advances s (take k d) t \<Longrightarrow> (r = Ok () \<Longrightarrow> length d \<le> k) \<Longrightarrow> (faults (snd s) = [] \<Longrightarrow> r = Ok ()) \<Longrightarrow>
   r \<noteq> Panic \<Longrightarrow> accepts s d r t"
  by (auto simp: accepts_def)

lemma accepts_after_nothing:
  assumes "advances (b, w) [] (b1, w1)" and "accepts (b1, w1) d r t"
  shows "accepts (b, w) d r t"
proof -
  obtain b2 w2 where t: "t = (b2, w2)" by (cases t)
  from assms(2) obtain k where k: "advances (b1, w1) (take k d) (b2, w2)" "r = Ok () \<Longrightarrow> length d \<le> k"
    and rest: "faults w1 = [] \<Longrightarrow> r = Ok ()" "r \<noteq> Panic" by (auto simp: accepts_def t)
  have "advances (b, w) (take k d) t" using advances_trans [OF assms(1) k(1)] by (simp add: t)
  moreover have "faults w = [] \<Longrightarrow> r = Ok ()"
    using rest(1) frame_no_faults [OF advances_frame [OF assms(1)]] by blast
  ultimately show ?thesis using k(2) rest(2) by (auto intro: acceptsI)
qed

lemma buffered_accepts:
  "seq_writer b w \<Longrightarrow> accepts (b, w) d (Ok ()) (b\<lparr>buf := buf b @ d\<rparr>, w)"
  by (auto simp: accepts_def advances_def seq_writer_def bw_path_def stream_def
      intro!: exI [of _ "length d"])

lemma write_through_accepts:
  assumes seq: "seq_writer b w" and empty: "BUF_CAPACITY \<le> length d \<Longrightarrow> buf b = []"
    and run: "write_through d (b, w) = (r, t)"
  shows "accepts (b, w) d r t"
proof (cases "BUF_CAPACITY \<le> length d")
  case True
  with run obtain k h w' where fw: "file_write_all d (inner b, w) = (r, k, h, w')"
    and t: "t = (b\<lparr>inner := h\<rparr>, w')" by (auto simp: write_through_def split: prod.splits)
  note fws = file_write_all_transfers [OF seq [unfolded seq_writer_def] fw]
  have "advances (b, w) (take k d) (b\<lparr>inner := h, buf := []\<rparr>, w')"
    by (rule transfers_advances [OF fws(1)]) (simp add: empty [OF True])
  moreover have "b\<lparr>inner := h, buf := []\<rparr> = b\<lparr>inner := h\<rparr>" using empty [OF True] by simp
  ultimately show ?thesis unfolding t using fws by (auto intro: acceptsI)
next
  case False
  with run buffered_accepts [OF seq] show ?thesis by (auto simp: write_through_def)
qed

lemma write_all_accepts:
  assumes seq: "seq_writer b w" and run: "write_all d (b, w) = (r, t)"
  shows "accepts (b, w) d r t"
proof (cases "length d < BUF_CAPACITY - length (buf b)")
  case True
  with run buffered_accepts [OF seq] show ?thesis by (auto simp: write_all_def)
next
  case cold: False
  show ?thesis
  proof (cases "BUF_CAPACITY - length (buf b) < length d")
    case True
    obtain r1 b1 w1 where fl: "flush_buf (b, w) = (r1, b1, w1)" by (metis prod_cases3)
    note fls = flush_buf_advances [OF seq fl]
    from run cold True fl have "andThen (r1, b1, w1) (\<lambda>_. write_through d) = (r, t)"
      by (simp add: write_all_def write_all_cold_def)
    then show ?thesis
    proof (cases rule: andThen_cases)
      case (Ok x s)
      with fls write_through_accepts [of b1 w1 d r t]
      show ?thesis by (auto intro: accepts_after_nothing advances_seq)
    next
      case (Err e s)
      with fls show ?thesis by (auto intro: acceptsI [of _ 0])
    next
      case (Panic s)
      with fls show ?thesis by simp
    qed
  next
    case False
    with cold have "BUF_CAPACITY \<le> length d \<Longrightarrow> length (buf b) = 0"
      unfolding BUF_CAPACITY_def by linarith
    then have empty: "BUF_CAPACITY \<le> length d \<Longrightarrow> buf b = []" by simp
    have "write_through d (b, w) = (r, t)"
      using run cold False by (simp add: write_all_def write_all_cold_def)
    with seq empty show ?thesis by (blast intro: write_through_accepts)
  qed
qed

text \<open>Bytes that fit the buffer are accepted as a whole or not at all.\<close>

lemma write_all_small:
  assumes seq: "seq_writer b w" and run: "write_all d (b, w) = (r, b', w')" and small: "length d < BUF_CAPACITY" and err: "r \<noteq> Ok ()"
  shows "advances (b, w) [] (b', w')"
proof -
  have through: "write_through d t = (Ok (), (fst t)\<lparr>buf := buf (fst t) @ d\<rparr>, snd t)" for t
    using small by (cases t) (simp add: write_through_def)
  obtain r1 b1 w1 where fl: "flush_buf (b, w) = (r1, b1, w1)" by (metis prod_cases3)
  with run err have "b' = b1" "w' = w1"
    by (cases r1; auto simp: write_all_def write_all_cold_def through split: if_splits)+
  with flush_buf_advances(1) [OF seq fl] show ?thesis by simp
qed

text \<open>\<open>sync_all\<close> makes the content of the file durable and changes nothing else.\<close>

lemma sync_all_effect:
  assumes run: "sync_all (h, w) = (r, h', w')" and isf: "is_file w (w_path h)"
  shows "h' = h" and "frame {w_path h} w w'" and "same_names w w'"
    and "content w' (w_path h) = content w (w_path h)" and "is_file w' (w_path h)"
    and "r = Ok () \<Longrightarrow> durable w' (w_path h) = content w (w_path h)"
    and "r \<noteq> Ok () \<Longrightarrow> durable w' (w_path h) = durable w (w_path h)"
    and "faults w = [] \<Longrightarrow> r = Ok ()" and "r \<noteq> Panic"
proof -
  obtain r0 w0 where sys: "syscall w = (r0, w0)" by (cases "syscall w")
  note eff = syscall_effect [OF sys]
  have look: "lookup w0 = lookup w" using eff(3) by (auto simp: lookup_def)
  let ?p = "w_path h"
  note isfc = is_file_cases [OF isf]
  have fr: "frame {?p} w w0" using eff(1) by (rule frame_mono) simp
  have ex: "exists_path w0 ?p" using isf by (auto simp: exists_path_def look is_file_lookup)
  have "h' = h \<and> frame {?p} w w' \<and> same_names w w' \<and> content w' ?p = content w ?p \<and> is_file w' ?p \<and>
      (r = Ok () \<longrightarrow> durable w' ?p = content w ?p) \<and> (r \<noteq> Ok () \<longrightarrow> durable w' ?p = durable w ?p) \<and>
      (faults w = [] \<longrightarrow> r = Ok ()) \<and> r \<noteq> Panic"
  proof (cases r0)
    case (Ok u)
    then have res: "r = Ok ()" "h' = h" "w' = set_node ?p (FileNode (content w ?p) (content w ?p)) w0"
      using run by (auto simp: sync_all_def lift_w_def sys look isfc)
    then have "lookup w' ?p = Some (FileNode (content w ?p) (content w ?p))" by simp
    moreover have "frame {?p} w w'" unfolding res(3)
      using fr by (auto intro: frame_trans_same frame_set_node)
    moreover have "same_names w w'" unfolding res(3)
      using eff(2) ex by (blast intro: same_names_trans same_names_set_node)
    ultimately show ?thesis using res(1,2) by (simp add: content_lookup is_file_def)
  next
    case (Err e)
    then have "r = Err e" "h' = h" "w' = w0"
      using run by (auto simp: sync_all_def lift_w_def sys)
    with eff fr isf Err show ?thesis by (auto simp: content_def durable_def is_file_def look)
  next
    case Panic
    with eff(5) show ?thesis by simp
  qed
  then show "h' = h" and "frame {?p} w w'" and "same_names w w'"
    and "content w' ?p = content w ?p" and "is_file w' ?p"
    and "r = Ok () \<Longrightarrow> durable w' ?p = content w ?p"
    and "r \<noteq> Ok () \<Longrightarrow> durable w' ?p = durable w ?p"
    and "faults w = [] \<Longrightarrow> r = Ok ()" and "r \<noteq> Panic" by auto
qed

lemma set_len_0_effect:
  assumes run: "set_len_0 (h, w) = (r, h', w')" and isf: "is_file w (w_path h)"
  shows "h' = h" and "frame {w_path h} w w'" and "same_names w w'" and "is_file w' (w_path h)"
    and "durable w' (w_path h) = durable w (w_path h)"
    and "content w' (w_path h) = (if r = Ok () then [] else content w (w_path h))"
    and "faults w = [] \<Longrightarrow> r = Ok ()" and "r \<noteq> Panic"
proof -
  obtain r0 w0 where sys: "syscall w = (r0, w0)" by (cases "syscall w")
  note eff = syscall_effect [OF sys]
  have look: "lookup w0 = lookup w" using eff(3) by (auto simp: lookup_def)
  let ?p = "w_path h"
  note isfc = is_file_cases [OF isf]
  have fr: "frame {?p} w w0" using eff(1) by (rule frame_mono) simp
  have ex: "exists_path w0 ?p" using isf by (auto simp: exists_path_def look is_file_lookup)
  have "h' = h \<and> frame {?p} w w' \<and> same_names w w' \<and> is_file w' ?p \<and>
      durable w' ?p = durable w ?p \<and> content w' ?p = (if r = Ok () then [] else content w ?p) \<and>
      (faults w = [] \<longrightarrow> r = Ok ()) \<and> r \<noteq> Panic"
  proof (cases r0)
    case (Ok u)
    then have res: "r = Ok ()" "h' = h" "w' = set_node ?p (FileNode [] (durable w ?p)) w0"
      using run by (auto simp: set_len_0_def lift_w_def sys look isfc)
    then have "lookup w' ?p = Some (FileNode [] (durable w ?p))" by simp
    moreover have "frame {?p} w w'" unfolding res(3)
      using fr by (auto intro: frame_trans_same frame_set_node)
    moreover have "same_names w w'" unfolding res(3)
      using eff(2) ex by (blast intro: same_names_trans same_names_set_node)
    ultimately show ?thesis using res(1,2) by (simp add: content_lookup is_file_def)
  next
    case (Err e)
    then have "r = Err e" "h' = h" "w' = w0"
      using run by (auto simp: set_len_0_def lift_w_def sys)
    with eff fr isf Err show ?thesis by (auto simp: content_def durable_def is_file_def look)
  next
    case Panic
    with eff(5) show ?thesis by simp
  qed
  then show "h' = h" and "frame {?p} w w'" and "same_names w w'" and "is_file w' ?p"
    and "durable w' ?p = durable w ?p"
    and "content w' ?p = (if r = Ok () then [] else content w ?p)"
    and "faults w = [] \<Longrightarrow> r = Ok ()" and "r \<noteq> Panic" by auto
qed

lemma wseek_start_effect:
  assumes run: "wseek_start off (h, w) = (r, h', w')"
  shows "frame {} w w'" and "same_names w w'" and "lookup w' = lookup w"
    and "h' = (if r = Ok () then h\<lparr>w_pos := off\<rparr> else h)"
    and "faults w = [] \<Longrightarrow> r = Ok ()" and "r \<noteq> Panic"
proof -
  obtain r0 w0 where sys: "syscall w = (r0, w0)" by (cases "syscall w")
  note eff = syscall_effect [OF sys]
  have "r = r0 \<and> w' = w0 \<and> h' = (if r = Ok () then h\<lparr>w_pos := off\<rparr> else h)"
    using run eff(5) by (cases r0) (auto simp: wseek_start_def lift_w_def sys)
  then show "frame {} w w'" and "same_names w w'" and "lookup w' = lookup w"
    and "h' = (if r = Ok () then h\<lparr>w_pos := off\<rparr> else h)"
    and "faults w = [] \<Longrightarrow> r = Ok ()" and "r \<noteq> Panic"
    using eff by (auto simp: lookup_def)
qed

text \<open>Opening for writing: the file is there and empty, with the cursor at its end.\<close>

lemma open_truncate_Ok:
  assumes run: "open_truncate p w = (Ok h, w')"
  shows "h = \<lparr>w_path = p, w_pos = 0, w_append = False\<rparr>"
    and "lookup w' p = Some (FileNode [] (durable w p))" and "frame {p} w w'"
    and "map fst (fs w') = (if exists_path w p then map fst (fs w) else map fst (fs w) @ [p])"
proof -
  obtain r0 w0 where sys: "syscall w = (r0, w0)" by (cases "syscall w")
  note eff = syscall_effect [OF sys]
  have look: "lookup w0 = lookup w" using eff(3) by (auto simp: lookup_def)
  have ok: "r0 = Ok ()" using run eff(5) by (cases r0) (auto simp: open_truncate_def sys)
  have "h = \<lparr>w_path = p, w_pos = 0, w_append = False\<rparr> \<and> w' = set_node p (FileNode [] (durable w p)) w0"
  proof (cases "lookup w p")
    case None
    with run ok show ?thesis by (auto simp: open_truncate_def sys look durable_def split: if_splits)
  next
    case (Some n)
    with run ok show ?thesis by (cases n) (auto simp: open_truncate_def sys look durable_def)
  qed
  then have h: "h = \<lparr>w_path = p, w_pos = 0, w_append = False\<rparr>"
    and w': "w' = set_node p (FileNode [] (durable w p)) w0" by auto
  show "h = \<lparr>w_path = p, w_pos = 0, w_append = False\<rparr>" by (rule h)
  show "lookup w' p = Some (FileNode [] (durable w p))" by (simp add: w')
  show "frame {p} w w'" unfolding w'
    using frame_mono [OF eff(1), of "{p}"] by (auto intro: frame_trans_same frame_set_node)
  show "map fst (fs w') = (if exists_path w p then map fst (fs w) else map fst (fs w) @ [p])"
    using eff(3) by (simp add: w' names_set_node exists_path_def look)
qed

lemma open_truncate_no_faults:
  assumes "faults w = []" and "is_file w p \<or> \<not> exists_path w p \<and> lookup w (butlast p) = Some DirNode"
  obtains h w' where "open_truncate p w = (Ok h, w')"
  using assms by (cases "lookup w p")
    (auto simp: open_truncate_def io_simps is_file_def exists_path_def split: node.splits if_splits)

lemma open_truncate_seq:
  assumes "open_truncate p w = (Ok h, w')"
  shows "seq_writer (bufwriter_new h) w'" and "stream (bufwriter_new h) w' = []"
    and "bw_path (bufwriter_new h) = p"
  using open_truncate_Ok(1,2) [OF assms]
  by (simp_all add: seq_writer_def seq_handle_def is_file_def content_def bufwriter_new_def
      stream_def bw_path_def)

lemma open_truncate_error:
  assumes "open_truncate p w = (Err e, w')"
  shows "frame {p} w w'" and "same_names w w'"
proof -
  obtain r0 w0 where sys: "syscall w = (r0, w0)" by (cases "syscall w")
  have "w' = w0" using assms
    by (cases r0) (auto simp: open_truncate_def sys split: option.splits node.splits if_splits)
  with syscall_effect [OF sys] show "frame {p} w w'" and "same_names w w'"
    by (auto intro: frame_mono)
qed

lemma open_truncate_not_Panic: "open_truncate p w \<noteq> (Panic, w')"
proof -
  obtain r0 w0 where sys: "syscall w = (r0, w0)" by (cases "syscall w")
  show ?thesis using syscall_effect(5) [OF sys]
    by (cases r0) (auto simp: open_truncate_def sys split: option.splits node.splits)
qed

lemma file_write_all_at:
  assumes isf: "is_file w (w_path h)" and run: "file_write_all d (h, w) = (r, k, h', w')"
  shows "frame {w_path h} w w'" and "same_names w w'" and "is_file w' (w_path h)" and "w_path h' = w_path h"
    and "r = Ok () \<Longrightarrow> \<not> w_append h \<Longrightarrow> d \<noteq> [] \<Longrightarrow>
      content w' (w_path h) = write_at (w_pos h) d (content w (w_path h))"
    and "faults w = [] \<Longrightarrow> r = Ok ()" and "r \<noteq> Panic"
proof -
  let ?p = "w_path h"
  obtain f w1 where nf: "next_fault w = (f, w1)" by (cases "next_fault w")
  note eff = next_fault_effect [OF nf]
  have look: "lookup w1 = lookup w" using eff by (auto simp: lookup_def)
  have put: "frame {?p} w w2 \<and> same_names w w2 \<and> is_file w2 ?p \<and> w_path h2 = ?p \<and>
      (\<not> w_append h \<longrightarrow> content w2 ?p = write_at (w_pos h) e (content w ?p))"
    if "put_bytes e (h, w1) = (h2, w2)" for e h2 w2
  proof -
    let ?pos = "if w_append h then length (content w ?p) else w_pos h"
    have w2: "w2 = set_node ?p (FileNode (write_at ?pos e (content w ?p)) (durable w ?p)) w1"
      and h2: "h2 = h\<lparr>w_pos := ?pos + length e\<rparr>"
      using that is_file_cases [OF isf] by (auto simp: put_bytes_def look Let_def)
    have "frame {?p} w w2" unfolding w2
      using eff by (blast intro: frame_trans_same frame_mono frame_set_node)
    moreover have "exists_path w1 ?p" using is_file_exists [OF isf] by (simp add: exists_path_def look)
    then have "same_names w1 w2" unfolding w2 by (rule same_names_set_node)
    then have "same_names w w2" using eff by (blast intro: same_names_trans)
    moreover have "lookup w2 ?p = Some (FileNode (write_at ?pos e (content w ?p)) (durable w ?p))"
      by (simp add: w2)
    ultimately show ?thesis by (auto simp: h2 is_file_def content_lookup)
  qed
  have "frame {?p} w w' \<and> same_names w w' \<and> is_file w' ?p \<and> w_path h' = ?p \<and>
    (r = Ok () \<longrightarrow> \<not> w_append h \<longrightarrow> d \<noteq> [] \<longrightarrow> content w' ?p = write_at (w_pos h) d (content w ?p)) \<and>
    (faults w = [] \<longrightarrow> r = Ok ()) \<and> r \<noteq> Panic"
  proof (cases "d = []")
    case True
    with run isf show ?thesis by (auto simp: file_write_all_def)
  next
    case False
    with run put eff show ?thesis
      by (cases f) (auto simp: file_write_all_def nf Let_def split: fault.splits)
  qed
  then show "frame {?p} w w'" and "same_names w w'" and "is_file w' ?p" and "w_path h' = ?p"
    and "r = Ok () \<Longrightarrow> \<not> w_append h \<Longrightarrow> d \<noteq> [] \<Longrightarrow> content w' ?p = write_at (w_pos h) d (content w ?p)"
    and "faults w = [] \<Longrightarrow> r = Ok ()" and "r \<noteq> Panic" by auto
qed

lemma metadata_len_effect:
  assumes "metadata_len p w = (r, w')"
  shows "frame {} w w'" and "same_names w w'" and "lookup w' = lookup w"
    and "r = Ok n \<Longrightarrow> n = length (content w p)" and "faults w = [] \<Longrightarrow> \<exists>n. r = Ok n" and "r \<noteq> Panic"
proof -
  obtain r0 w0 where sys: "syscall w = (r0, w0)" by (cases "syscall w")
  note eff = syscall_effect [OF sys]
  have "w' = w0 \<and> r = (case r0 of Ok _ \<Rightarrow> Ok (length (content w0 p)) | Err e \<Rightarrow> Err e | Panic \<Rightarrow> Panic)"
    using assms by (cases r0) (auto simp: metadata_len_def sys)
  with eff show "frame {} w w'" and "same_names w w'" and "lookup w' = lookup w"
    and "r = Ok n \<Longrightarrow> n = length (content w p)" and "faults w = [] \<Longrightarrow> \<exists>n. r = Ok n" and "r \<noteq> Panic"
    by (auto simp: lookup_def content_def split: outcome.splits)
qed


text \<open>Writing keeps the mode of the handle.\<close>

lemma file_write_all_append_mode:
  "file_write_all d (h, w) = (r, k, h', w') \<Longrightarrow> w_append h' = w_append h"
  by (auto simp: file_write_all_def put_bytes_def Let_def split: if_splits prod.splits option.splits fault.splits node.splits)

lemma flush_buf_append_mode:
  "flush_buf (b, w) = (r, b', w') \<Longrightarrow> w_append (inner b') = w_append (inner b)"
  by (auto simp: flush_buf_def split: prod.splits outcome.splits dest: file_write_all_append_mode)

lemma write_all_append_mode:
  assumes "write_all d (b, w) = (r, b', w')"
  shows "w_append (inner b') = w_append (inner b)"
proof -
  have thr: "w_append (inner c') = w_append (inner c)" if "write_through d (c, v) = (s, c', v')" for c v s c' v'
    using that by (auto simp: write_through_def split: if_splits prod.splits dest: file_write_all_append_mode)
  obtain r1 b1 w1 where fl: "flush_buf (b, w) = (r1, b1, w1)" by (metis prod_cases3)
  note flush_buf_append_mode [OF fl]
  with assms thr show ?thesis
    by (cases r1) (auto simp: write_all_def write_all_cold_def fl split: if_splits)
qed

subsection \<open>Reading with faults\<close>

text \<open>
  A read only consumes faults. When it succeeds it has done what it does without faults; it
  fails when the operating system does or when the range is beyond the end.
\<close>

definition quiet :: "world \<Rightarrow> world \<Rightarrow> bool" where
  "quiet w w' \<longleftrightarrow> fs w' = fs w \<and> now w' = now w \<and> (faults w = [] \<longrightarrow> faults w' = [])"

lemma quiet_refl [simp, intro]: "quiet w w"
  by (simp add: quiet_def)

lemma quiet_trans [trans]: "quiet u v \<Longrightarrow> quiet v w \<Longrightarrow> quiet u w"
  by (simp add: quiet_def)

lemma quiet_frame: "quiet w w' \<Longrightarrow> frame P w w' \<and> same_names w w'"
  by (auto simp: quiet_def frame_def same_names_def lookup_def)

lemma quiet_same:
  assumes "quiet w w'"
  shows "lookup w' = lookup w" and "content w' = content w" and "durable w' = durable w"
    and "is_file w' = is_file w" and "exists_path w' = exists_path w" and "fs w' = fs w"
    and "faults w = [] \<Longrightarrow> faults w' = []"
  using assms by (auto simp: quiet_def lookup_def content_def durable_def is_file_def exists_path_def fun_eq_iff)

lemma syscall_quiet: "syscall w = (r, w') \<Longrightarrow> quiet w w' \<and> r \<noteq> Panic \<and> (faults w = [] \<longrightarrow> r = Ok ())"
  using syscall_effect [of w r w'] by (simp add: quiet_def frame_def)

lemma lift_syscall_quiet:
  "lift_w syscall (h, w) = (r, h', w') \<Longrightarrow> h' = h \<and> quiet w w' \<and> r \<noteq> Panic \<and> (faults w = [] \<longrightarrow> r = Ok ())"
  by (auto simp: lift_w_def split: prod.splits dest: syscall_quiet)

lemma file_open_effect:
  assumes "file_open p w = (r, w')"
  shows "quiet w w'" and "r \<noteq> Panic" and "faults w = [] \<Longrightarrow> is_file w p \<Longrightarrow> \<exists>h. r = Ok h"
    and "\<And>h. r = Ok h \<Longrightarrow> h = \<lparr>r_path = p, r_pos = 0\<rparr> \<and> is_file w p"
proof -
  obtain r0 w0 where sys: "syscall w = (r0, w0)" by (cases "syscall w")
  note q = syscall_quiet [OF sys]
  have "quiet w w' \<and> r \<noteq> Panic \<and> (faults w = [] \<longrightarrow> is_file w p \<longrightarrow> (\<exists>h. r = Ok h)) \<and>
    (\<forall>h. r = Ok h \<longrightarrow> h = \<lparr>r_path = p, r_pos = 0\<rparr> \<and> is_file w p)"
    using assms q by (cases r0)
      (auto simp: file_open_def sys quiet_same is_file_def split: option.splits node.splits)
  then show "quiet w w'" and "r \<noteq> Panic" and "faults w = [] \<Longrightarrow> is_file w p \<Longrightarrow> \<exists>h. r = Ok h"
    and "\<And>h. r = Ok h \<Longrightarrow> h = \<lparr>r_path = p, r_pos = 0\<rparr> \<and> is_file w p" by auto
qed

lemma metadata_len_quiet: "metadata_len p w = (r, w') \<Longrightarrow> quiet w w'"
  by (cases "syscall w"; cases "fst (syscall w)") (auto simp: metadata_len_def dest: syscall_quiet)

lemma read_exact_effect:
  assumes "read_exact n (h, w) = (r, h', w')"
  shows "quiet w w'" and "r_path h' = r_path h" and "r \<noteq> Panic"
    and "\<And>d. r = Ok d \<Longrightarrow> d = slice (r_pos h) (r_pos h + n) (content w (r_path h)) \<and>
      r_pos h' = r_pos h + n \<and> (n \<noteq> 0 \<longrightarrow> r_pos h + n \<le> length (content w (r_path h)))"
    and "faults w = [] \<Longrightarrow> r_pos h + n \<le> length (content w (r_path h)) \<Longrightarrow> \<exists>d. r = Ok d"
proof -
  obtain r0 h0 w0 where sys: "lift_w syscall (h, w) = (r0, h0, w0)" by (metis prod_cases3)
  note q = lift_syscall_quiet [OF sys]
  have "quiet w w' \<and> r_path h' = r_path h \<and> r \<noteq> Panic \<and>
    (\<forall>d. r = Ok d \<longrightarrow> d = slice (r_pos h) (r_pos h + n) (content w (r_path h)) \<and>
      r_pos h' = r_pos h + n \<and> (n \<noteq> 0 \<longrightarrow> r_pos h + n \<le> length (content w (r_path h)))) \<and>
    (faults w = [] \<longrightarrow> r_pos h + n \<le> length (content w (r_path h)) \<longrightarrow> (\<exists>d. r = Ok d))"
  proof (cases "n = 0")
    case True
    with assms show ?thesis by (auto simp: read_exact_def slice_def)
  next
    case False
    with assms q show ?thesis
      by (cases r0) (auto simp: read_exact_def sys quiet_same Let_def split: if_splits)
  qed
  then show "quiet w w'" and "r_path h' = r_path h" and "r \<noteq> Panic"
    and "\<And>d. r = Ok d \<Longrightarrow> d = slice (r_pos h) (r_pos h + n) (content w (r_path h)) \<and>
      r_pos h' = r_pos h + n \<and> (n \<noteq> 0 \<longrightarrow> r_pos h + n \<le> length (content w (r_path h)))"
    and "faults w = [] \<Longrightarrow> r_pos h + n \<le> length (content w (r_path h)) \<Longrightarrow> \<exists>d. r = Ok d" by auto
qed

lemma seek_start_effect:
  assumes "seek_start off (h, w) = (r, h', w')"
  shows "quiet w w'" and "r_path h' = r_path h" and "r \<noteq> Panic"
    and "r = Ok () \<Longrightarrow> r_pos h' = unat off \<and> unat off < 2 ^ 63"
    and "faults w = [] \<Longrightarrow> unat off < 2 ^ 63 \<Longrightarrow> r = Ok ()"
proof -
  obtain r0 h0 w0 where sys: "lift_w syscall (h, w) = (r0, h0, w0)" by (metis prod_cases3)
  note q = lift_syscall_quiet [OF sys]
  have "quiet w w' \<and> r_path h' = r_path h \<and> r \<noteq> Panic \<and> (r = Ok () \<longrightarrow> r_pos h' = unat off \<and> unat off < 2 ^ 63) \<and>
    (faults w = [] \<longrightarrow> unat off < 2 ^ 63 \<longrightarrow> r = Ok ())"
    using assms q by (cases r0) (auto simp: seek_start_def sys split: if_splits)
  then show "quiet w w'" and "r_path h' = r_path h" and "r \<noteq> Panic"
    and "r = Ok () \<Longrightarrow> r_pos h' = unat off \<and> unat off < 2 ^ 63"
    and "faults w = [] \<Longrightarrow> unat off < 2 ^ 63 \<Longrightarrow> r = Ok ()" by auto
qed

lemma seek_current_effect:
  assumes "seek_current k (h, w) = (r, h', w')"
  shows "quiet w w'" and "r_path h' = r_path h" and "r \<noteq> Panic"
    and "r = Ok () \<Longrightarrow> r_pos h' = r_pos h + k" and "faults w = [] \<Longrightarrow> r = Ok ()"
proof -
  obtain r0 h0 w0 where sys: "lift_w syscall (h, w) = (r0, h0, w0)" by (metis prod_cases3)
  note q = lift_syscall_quiet [OF sys]
  have "quiet w w' \<and> r_path h' = r_path h \<and> r \<noteq> Panic \<and> (r = Ok () \<longrightarrow> r_pos h' = r_pos h + k) \<and>
    (faults w = [] \<longrightarrow> r = Ok ())"
    using assms q by (cases r0) (auto simp: seek_current_def sys)
  then show "quiet w w'" and "r_path h' = r_path h" and "r \<noteq> Panic"
    and "r = Ok () \<Longrightarrow> r_pos h' = r_pos h + k" and "faults w = [] \<Longrightarrow> r = Ok ()" by auto
qed

lemma seek_end_back_effect:
  assumes "seek_end_back k (h, w) = (r, h', w')"
  shows "quiet w w'" and "r_path h' = r_path h" and "r \<noteq> Panic"
    and "r = Ok () \<Longrightarrow> r_pos h' = length (content w (r_path h)) - k \<and> k \<le> length (content w (r_path h))"
    and "faults w = [] \<Longrightarrow> k \<le> length (content w (r_path h)) \<Longrightarrow> r = Ok ()"
proof -
  obtain r0 h0 w0 where sys: "lift_w syscall (h, w) = (r0, h0, w0)" by (metis prod_cases3)
  note q = lift_syscall_quiet [OF sys]
  have "quiet w w' \<and> r_path h' = r_path h \<and> r \<noteq> Panic \<and>
    (r = Ok () \<longrightarrow> r_pos h' = length (content w (r_path h)) - k \<and> k \<le> length (content w (r_path h))) \<and>
    (faults w = [] \<longrightarrow> k \<le> length (content w (r_path h)) \<longrightarrow> r = Ok ())"
    using assms q by (cases r0) (auto simp: seek_end_back_def sys quiet_same Let_def split: if_splits)
  then show "quiet w w'" and "r_path h' = r_path h" and "r \<noteq> Panic"
    and "r = Ok () \<Longrightarrow> r_pos h' = length (content w (r_path h)) - k \<and> k \<le> length (content w (r_path h))"
    and "faults w = [] \<Longrightarrow> k \<le> length (content w (r_path h)) \<Longrightarrow> r = Ok ()" by auto
qed

subsection \<open>Writers under faults\<close>

text \<open>
  Whatever the operating system answers, an operation on a writer touches no file but its own,
  creates no name, and leaves its file a file.
\<close>

definition keeps :: "path \<Rightarrow> world \<Rightarrow> world \<Rightarrow> bool" where
  "keeps p w w' \<longleftrightarrow> frame {p} w w' \<and> same_names w w' \<and> is_file w' p = is_file w p"

lemma keeps_refl [simp, intro]: "keeps p w w"
  by (simp add: keeps_def)

lemma keeps_trans: "keeps p u v \<Longrightarrow> keeps p v w \<Longrightarrow> keeps p u w"
  by (auto simp: keeps_def intro: frame_trans_same same_names_trans)

lemma keeps_set_node:
  assumes "lookup w p = Some (FileNode c d)"
  shows "keeps p w (set_node p (FileNode c' d') w)"
  using assms by (auto simp: keeps_def is_file_def frame_set_node exists_path_def intro!: same_names_set_node)

lemma keeps_next_fault: "next_fault w = (f, w') \<Longrightarrow> keeps p w w'"
  using next_fault_effect [of w f w'] by (simp add: keeps_def is_file_def frame_def)

lemma keeps_syscall: "keeps p w (snd (syscall w))"
proof -
  obtain r v where "syscall w = (r, v)" by fastforce
  from this syscall_effect(1,2) [OF this] show ?thesis by (simp add: keeps_def is_file_def frame_def)
qed

definition handle_keeps :: "whandle \<times> world \<Rightarrow> whandle \<times> world \<Rightarrow> bool" where
  "handle_keeps s t \<longleftrightarrow> w_path (fst t) = w_path (fst s) \<and> keeps (w_path (fst s)) (snd s) (snd t)"

interpretation hk: effect_order handle_keeps
proof unfold_locales
  show "handle_keeps s s" for s by (simp add: handle_keeps_def)
  show "handle_keeps a b \<Longrightarrow> handle_keeps b c \<Longrightarrow> handle_keeps a c" for a b c
    unfolding handle_keeps_def by (auto elim: keeps_trans)
qed

lemma handle_keeps_syscall: "handle_keeps s (snd (lift_w syscall s))"
  using keeps_syscall [of "w_path (fst s)" "snd s"]
  by (cases s; cases "syscall (snd s)") (auto simp: handle_keeps_def lift_w_def)

lemma put_bytes_keeps: "handle_keeps s (put_bytes d s)"
  by (cases s) (auto simp: handle_keeps_def put_bytes_def Let_def intro: keeps_set_node split: option.split node.split)

lemma file_write_all_keeps: "handle_keeps s (snd (snd (file_write_all d s)))"
proof -
  obtain h w where s: "s = (h, w)" by (cases s)
  obtain f v where f: "next_fault w = (f, v)" by fastforce
  have "handle_keeps (h, w) (h, v)" using keeps_next_fault [OF f] by (simp add: handle_keeps_def)
  moreover have "handle_keeps (h, w) (h, w)" by (simp add: handle_keeps_def)
  ultimately show ?thesis
    by (auto simp: s f file_write_all_def Let_def split: option.split fault.split
        intro: hk.eff_trans put_bytes_keeps)
qed

lemma sync_all_keeps: "handle_keeps s (snd (sync_all s))"
  unfolding sync_all_def
  by (rule hk.andThen_keeps [OF handle_keeps_syscall])
    (auto simp: handle_keeps_def intro: keeps_set_node split: option.split node.split)

lemma set_len_0_keeps: "handle_keeps s (snd (set_len_0 s))"
  unfolding set_len_0_def
  by (rule hk.andThen_keeps [OF handle_keeps_syscall])
    (auto simp: handle_keeps_def intro: keeps_set_node split: option.split node.split)

lemma wseek_start_keeps: "handle_keeps s (snd (wseek_start n s))"
  unfolding wseek_start_def
  by (rule hk.andThen_keeps [OF handle_keeps_syscall]) (auto simp: handle_keeps_def)

definition bw_keeps :: "bufwriter \<times> world \<Rightarrow> bufwriter \<times> world \<Rightarrow> bool" where
  "bw_keeps s t \<longleftrightarrow> bw_path (fst t) = bw_path (fst s) \<and> keeps (bw_path (fst s)) (snd s) (snd t)"

interpretation bk: effect_order bw_keeps
proof unfold_locales
  show "bw_keeps s s" for s by (simp add: bw_keeps_def)
  show "bw_keeps a b \<Longrightarrow> bw_keeps b c \<Longrightarrow> bw_keeps a c" for a b c
    unfolding bw_keeps_def by (auto elim: keeps_trans)
qed

lemma flush_buf_keeps: "bw_keeps s (snd (flush_buf s))"
  using file_write_all_keeps [of "(inner (fst s), snd s)" "buf (fst s)"]
  by (cases s) (auto simp: flush_buf_def bw_keeps_def handle_keeps_def bw_path_def split: prod.split outcome.split)

lemma write_through_keeps: "bw_keeps s (snd (write_through d s))"
  using file_write_all_keeps [of "(inner (fst s), snd s)" d]
  by (cases s) (auto simp: write_through_def bw_keeps_def handle_keeps_def bw_path_def split: prod.split)

lemma write_all_keeps: "bw_keeps s (snd (write_all d s))"
proof -
  obtain b w where s: "s = (b, w)" by (cases s)
  have "bw_keeps s (snd (write_all_cold d s))"
    unfolding write_all_cold_def s prod.case
    by (intro bk.keeps_intros flush_buf_keeps write_through_keeps)
  then show ?thesis by (auto simp: s write_all_def bw_keeps_def bw_path_def)
qed

lemma on_inner_keeps:
  assumes "\<And>s. handle_keeps s (snd (m s))"
  shows "bw_keeps s (snd (on_inner m s))"
  using assms [of "(inner (fst s), snd s)"]
  by (cases s) (auto simp: on_inner_def zoom_def bw_keeps_def handle_keeps_def bw_path_def split: prod.split)

lemma file_write_all_no_panic: "fst (file_write_all d s) \<noteq> Panic"
  by (cases s) (auto simp: file_write_all_def Let_def split: option.split fault.split prod.split)

lemma flush_buf_no_panic: "fst (flush_buf s) \<noteq> Panic"
  using file_write_all_no_panic [of "buf (fst s)" "(inner (fst s), snd s)"]
  by (cases s) (auto simp: flush_buf_def split: prod.split outcome.split)

lemma lift_syscall_no_panic: "fst (lift_w syscall s) \<noteq> Panic"
proof -
  obtain h w r v where "s = (h, w)" "syscall w = (r, v)" by (metis surj_pair)
  with syscall_effect(5) [OF this(2)] show ?thesis by (simp add: lift_w_def)
qed

lemma whandle_no_panic:
  "fst (sync_all s) \<noteq> Panic" "fst (set_len_0 s) \<noteq> Panic" "fst (wseek_start n s) \<noteq> Panic"
  unfolding sync_all_def set_len_0_def wseek_start_def
  by (rule andThen_no_panic [OF lift_syscall_no_panic]; simp split: prod.split option.split node.split)+

end
