(* ===== verification/Errors.thy ===== *)
theory Errors
  imports Std_IO
begin

section \<open>The error type (src/src/error.rs)\<close>

text \<open>
  \<open>AtlasError\<close> with its variants, the text \<open>thiserror\<close> derives from the \<open>#[error(...)]\<close>
  attributes (\<open>display\<close>, what a client is sent), and the \<open>#[from] std::io::Error\<close> conversion
  that \<open>?\<close> applies to an input/output call (\<open>from_io\<close>).
\<close>

datatype atlas_error =
    Io io_error
  | WalCorruption string
  | WalWrite string
  | Storage string
  | KeyNotFound
  | Serialization string
  | Network string
  | Protocol string
  | Config string
  | LockPoisoned string

type_synonym 'a result = "(atlas_error, 'a) outcome"

fun display :: "atlas_error \<Rightarrow> string" where
  "display (Io e) = ''IO error: '' @ io_message e"
| "display (WalCorruption s) = ''WAL corruption detected: '' @ s"
| "display (WalWrite s) = ''WAL write failed: '' @ s"
| "display (Storage s) = ''Storage error: '' @ s"
| "display KeyNotFound = ''Key not found''"
| "display (Serialization s) = ''Serialization error: '' @ s"
| "display (Network s) = ''Network error: '' @ s"
| "display (Protocol s) = ''Protocol error: '' @ s"
| "display (Config s) = ''Configuration error: '' @ s"
| "display (LockPoisoned s) = ''Lock poisoned: '' @ s"

fun from_io_outcome :: "(io_error, 'a) outcome \<Rightarrow> 'a result" where
  "from_io_outcome (Ok x) = Ok x"
| "from_io_outcome (Err e) = Err (Io e)"
| "from_io_outcome Panic = Panic"

definition from_io :: "(io_error, 'a) outcome \<times> 's \<Rightarrow> 'a result \<times> 's" where
  "from_io p = (case p of (r, s) \<Rightarrow> (from_io_outcome r, s))"

lemma from_io_simps [simp]:
  "from_io (Ok x, s) = (Ok x, s)"
  "from_io (Err e, s) = (Err (Io e), s)"
  "from_io (Panic, s) = (Panic, s)"
  by (simp_all add: from_io_def)

lemma from_io_eq_iff [simp]:
  "from_io p = (Ok x, s) \<longleftrightarrow> p = (Ok x, s)"
  "from_io p = (Panic, s) \<longleftrightarrow> p = (Panic, s)"
  "from_io p = (Err f, s) \<longleftrightarrow> (\<exists>e. f = Io e \<and> p = (Err e, s))"
  by (cases p; cases "fst p"; auto simp: from_io_def)+

lemma from_io_outcome_iff [simp]:
  "from_io_outcome r = Ok x \<longleftrightarrow> r = Ok x"
  "from_io_outcome r = Panic \<longleftrightarrow> r = Panic"
  by (cases r; simp)+

text \<open>No input/output call reports a missing key, so \<open>KeyNotFound\<close> only comes from the index.\<close>

lemma from_io_not_KeyNotFound: "fst (from_io p) \<noteq> Err KeyNotFound"
  by (cases p; cases "fst p"; simp add: from_io_def)

lemma snd_from_io [simp]: "snd (from_io m) = snd m"
  by (cases m) (simp add: from_io_def)

lemma from_io_Panic [simp]: "fst (from_io m) = Panic \<longleftrightarrow> fst m = Panic"
  by (cases m; cases "fst m") (simp_all add: from_io_def)

end
