(* ===== verification/Wal_Entry.thy ===== *)
theory Wal_Entry
  imports Errors
begin

section \<open>Entries of the write-ahead log (src/src/wal/entry.rs)\<close>

text \<open>
  A log entry, its byte format (LSN, CRC, length, data) and the checks of \<open>deserialize\<close>. The
  crates \<open>bincode\<close> and \<open>crc32fast\<close> are parameters, the fields of \<open>libs\<close>: every definition
  that calls them takes a \<open>libs\<close> argument. Their documented behaviour is stated as the
  predicates \<open>bincode_roundtrip\<close>, \<open>bincode_sizes\<close> and \<open>crc_incremental\<close>.
\<close>

datatype operation = OpPut (op_key: bytes) (op_value: bytes) | OpDelete (op_key: bytes)

record wal_entry =
  lsn :: u64
  operation :: operation
  timestamp :: u64

record 'h libs =
  bincode_serialize :: "wal_entry \<Rightarrow> string + bytes"
  bincode_deserialize :: "bytes \<Rightarrow> string + wal_entry"
  bincode_serialized_size :: "wal_entry \<Rightarrow> string + u64"
  crc32_hash :: "bytes \<Rightarrow> u32"
  hasher_new :: 'h
  hasher_update :: "'h \<Rightarrow> bytes \<Rightarrow> 'h"
  hasher_finalize :: "'h \<Rightarrow> u32"

text \<open>Deserialising what was serialised gives it back.\<close>

definition bincode_roundtrip :: "'h libs \<Rightarrow> bool" where
  "bincode_roundtrip L \<longleftrightarrow>
     (\<forall>e bs. bincode_serialize L e = Inr bs \<longrightarrow> bincode_deserialize L bs = Inr e)"

text \<open>\<open>serialized_size\<close> is the length \<open>serialize\<close> would produce.\<close>

definition bincode_sizes :: "'h libs \<Rightarrow> bool" where
  "bincode_sizes L \<longleftrightarrow> (\<forall>e bs. bincode_serialize L e = Inr bs \<longrightarrow>
     bincode_serialized_size L e = Inr (of_nat (length bs)))"

text \<open>Feeding a hasher in pieces gives the checksum of the concatenation.\<close>

definition crc_incremental :: "'h libs \<Rightarrow> bool" where
  "crc_incremental L \<longleftrightarrow> (\<forall>chunks.
     hasher_finalize L (foldl (hasher_update L) (hasher_new L) chunks) = crc32_hash L (concat chunks))"

definition WAL_HEADER_SIZE :: nat where
  "WAL_HEADER_SIZE = 16"

definition wal_entry_new :: "u64 \<Rightarrow> operation \<Rightarrow> world \<Rightarrow> wal_entry result" where
  "wal_entry_new n op w = (case now w of
     None \<Rightarrow> Panic
   | Some millis \<Rightarrow> Ok \<lparr>lsn = n, operation = op, timestamp = of_nat millis\<rparr>)"

definition serialize :: "'h libs \<Rightarrow> wal_entry \<Rightarrow> bytes result" where
  "serialize L self = (case bincode_serialize L self of
     Inl e \<Rightarrow> Err (Serialization (''Failed to serialize WAL entry: '' @ e))
   | Inr data \<Rightarrow>
      let data_len = (of_nat (length data) :: u32);
          crc_buffer = to_le_bytes (lsn self) @ to_le_bytes data_len @ data;
          crc = crc32_hash L crc_buffer
      in Ok (to_le_bytes (lsn self) @ to_le_bytes crc @ to_le_bytes data_len @ data))"

definition deserialize :: "'h libs \<Rightarrow> bytes \<Rightarrow> wal_entry result" where
  "deserialize L bs =
    (if length bs < WAL_HEADER_SIZE then
       Err (WalCorruption (''Entry too small: '' @ show_dec (length bs) @
         '' bytes, expected at least '' @ show_dec WAL_HEADER_SIZE))
     else
       let n = (from_le_bytes (slice 0 8 bs) :: u64);
           stored_crc = (from_le_bytes (slice 8 12 bs) :: u32);
           data_len = unat (from_le_bytes (slice 12 16 bs) :: u32);
           expected_size = WAL_HEADER_SIZE + data_len
       in if length bs < expected_size then
         Err (WalCorruption (''Entry truncated: '' @ show_dec (length bs) @
           '' bytes, expected '' @ show_dec expected_size))
       else
         let data = slice WAL_HEADER_SIZE (WAL_HEADER_SIZE + data_len) bs;
             crc_buffer = to_le_bytes n @ to_le_bytes (of_nat data_len :: u32) @ data;
             computed_crc = crc32_hash L crc_buffer
         in if computed_crc \<noteq> stored_crc then
           Err (WalCorruption (''CRC mismatch for LSN '' @ show_dec (unat n) @
             '': stored=0x'' @ show_base 16 (unat stored_crc) @
             '', computed=0x'' @ show_base 16 (unat computed_crc)))
         else (case bincode_deserialize L data of
           Inl e \<Rightarrow> Err (WalCorruption (''Failed to deserialize WAL entry: '' @ e))
         | Inr entry \<Rightarrow>
             if lsn entry \<noteq> n then
               Err (WalCorruption (''LSN mismatch: header='' @ show_dec (unat n) @
                 '', data='' @ show_dec (unat (lsn entry))))
             else Ok entry))"

definition serialized_size :: "'h libs \<Rightarrow> wal_entry \<Rightarrow> usize result" where
  "serialized_size L self = (case bincode_serialized_size L self of
     Inl e \<Rightarrow> Err (Serialization (''Failed to compute size: '' @ e))
   | Inr data_size \<Rightarrow> Ok (of_nat WAL_HEADER_SIZE + data_size))"

definition compute_crc :: "'h libs \<Rightarrow> wal_entry \<Rightarrow> u32 result" where
  "compute_crc L self = (case bincode_serialize L self of
     Inl e \<Rightarrow> Err (Serialization (''Failed to serialize: '' @ e))
   | Inr data \<Rightarrow> Ok (crc32_hash L
       (to_le_bytes (lsn self) @ to_le_bytes (of_nat (length data) :: u32) @ data)))"

subsection \<open>A reference instance of the parameters\<close>

text \<open>
  The layout the \<open>bincode\<close> 1.3 documentation gives for this type (fixed-width little-endian
  integers, a 32-bit variant tag, a 64-bit length before each byte vector, fields in order) and
  a plain additive checksum. It only serves to show that the hypotheses on the parameters can
  hold; no theorem about the program depends on it.
\<close>

definition ref_bytes :: "bytes \<Rightarrow> bytes" where
  "ref_bytes b = to_le_bytes (of_nat (length b) :: u64) @ b"

fun ref_operation :: "operation \<Rightarrow> bytes" where
  "ref_operation (OpPut k v) = to_le_bytes (0 :: u32) @ ref_bytes k @ ref_bytes v"
| "ref_operation (OpDelete k) = to_le_bytes (1 :: u32) @ ref_bytes k"

definition ref_short :: "operation \<Rightarrow> bool" where
  "ref_short op = (case op of OpPut k v \<Rightarrow> length k < 2 ^ 64 \<and> length v < 2 ^ 64
     | OpDelete k \<Rightarrow> length k < 2 ^ 64)"

definition ref_serialize :: "wal_entry \<Rightarrow> string + bytes" where
  "ref_serialize e = (if ref_short (operation e)
     then Inr (to_le_bytes (lsn e) @ ref_operation (operation e) @ to_le_bytes (timestamp e))
     else Inl ''too long'')"

definition ref_take :: "nat \<Rightarrow> bytes \<Rightarrow> (bytes \<times> bytes) option" where
  "ref_take n bs = (if n \<le> length bs then Some (take n bs, drop n bs) else None)"

definition ref_take_bytes :: "bytes \<Rightarrow> (bytes \<times> bytes) option" where
  "ref_take_bytes bs = Option.bind (ref_take 8 bs) (\<lambda>(h, r). ref_take (unat (from_le_bytes h :: u64)) r)"

definition ref_take_operation :: "bytes \<Rightarrow> (operation \<times> bytes) option" where
  "ref_take_operation bs = Option.bind (ref_take 4 bs) (\<lambda>(t, r).
     if (from_le_bytes t :: u32) = 0 then
       Option.bind (ref_take_bytes r) (\<lambda>(k, r).
         map_option (\<lambda>(v, r). (OpPut k v, r)) (ref_take_bytes r))
     else if (from_le_bytes t :: u32) = 1 then
       map_option (\<lambda>(k, r). (OpDelete k, r)) (ref_take_bytes r)
     else None)"

definition ref_deserialize :: "bytes \<Rightarrow> string + wal_entry" where
  "ref_deserialize bs = (case
     Option.bind (ref_take 8 bs) (\<lambda>(l, r).
       Option.bind (ref_take_operation r) (\<lambda>(op, r).
         map_option (\<lambda>(t, r). \<lparr>lsn = from_le_bytes l, operation = op, timestamp = from_le_bytes t\<rparr>)
           (ref_take 8 r)))
     of None \<Rightarrow> Inl ''io error: unexpected end of file'' | Some e \<Rightarrow> Inr e)"

definition ref_checksum :: "bytes \<Rightarrow> u32" where
  "ref_checksum bs = foldl (\<lambda>a b. a + ucast b) 0 bs"

definition ref_libs :: "u32 libs" where
  "ref_libs = \<lparr>bincode_serialize = ref_serialize, bincode_deserialize = ref_deserialize,
     bincode_serialized_size = map_sum id (\<lambda>bs. of_nat (length bs)) \<circ> ref_serialize,
     crc32_hash = ref_checksum,
     hasher_new = 0, hasher_update = foldl (\<lambda>a b. a + ucast b), hasher_finalize = id\<rparr>"

lemma ref_take_append: "length p = n \<Longrightarrow> ref_take n (p @ r) = Some (p, r)"
  by (simp add: ref_take_def)

lemma ref_take_bytes_append: "length b < 2 ^ 64 \<Longrightarrow> ref_take_bytes (ref_bytes b @ r) = Some (b, r)"
  by (simp add: ref_take_bytes_def ref_bytes_def ref_take_append)

lemma ref_take_operation_append:
  "ref_short op \<Longrightarrow> ref_take_operation (ref_operation op @ r) = Some (op, r)"
  by (cases op) (simp_all add: ref_take_operation_def ref_take_append ref_take_bytes_append ref_short_def)

lemma ref_deserialize_serialize:
  assumes "ref_short (operation e)"
  shows "ref_deserialize (to_le_bytes (lsn e) @ ref_operation (operation e) @ to_le_bytes (timestamp e)) = Inr e"
  using assms ref_take_append [of "to_le_bytes (timestamp e)" 8 "[]"]
  by (simp add: ref_deserialize_def ref_take_append ref_take_operation_append)

lemma ref_libs_ok: "bincode_roundtrip ref_libs" "bincode_sizes ref_libs" "crc_incremental ref_libs"
proof -
  show "bincode_roundtrip ref_libs" "bincode_sizes ref_libs"
    by (auto simp: bincode_roundtrip_def bincode_sizes_def ref_libs_def ref_serialize_def
        ref_deserialize_serialize split: if_splits)
  have "foldl (foldl (\<lambda>a b. a + ucast b)) s chunks = foldl (\<lambda>a b. a + ucast b) s (concat chunks)"
    for s :: u32 and chunks :: "bytes list"
    by (induction chunks arbitrary: s) simp_all
  then show "crc_incremental ref_libs"
    by (simp add: crc_incremental_def ref_libs_def ref_checksum_def)
qed

subsection \<open>What an entry looks like on disk\<close>

text \<open>
  \<open>loggable\<close>: the entry serialises and its data fits the 32-bit length field. \<open>entry_bytes\<close> is
  then its encoding.
\<close>

definition entry_bytes :: "'h libs \<Rightarrow> wal_entry \<Rightarrow> bytes" where
  "entry_bytes L e = (case serialize L e of Ok bs \<Rightarrow> bs | _ \<Rightarrow> [])"

definition loggable :: "'h libs \<Rightarrow> wal_entry \<Rightarrow> bool" where
  "loggable L e = (case bincode_serialize L e of Inl m \<Rightarrow> False | Inr data \<Rightarrow> length data < 2 ^ 32)"

lemma entry_bytes_eq:
  assumes "bincode_serialize L e = Inr data"
  shows "entry_bytes L e = to_le_bytes (lsn e) @
    to_le_bytes (crc32_hash L (to_le_bytes (lsn e) @ to_le_bytes (of_nat (length data) :: u32) @ data)) @
    to_le_bytes (of_nat (length data) :: u32) @ data"
  using assms by (simp add: entry_bytes_def serialize_def Let_def)

lemma length_entry_bytes:
  "bincode_serialize L e = Inr data \<Longrightarrow> length (entry_bytes L e) = WAL_HEADER_SIZE + length data"
  by (simp add: entry_bytes_eq WAL_HEADER_SIZE_def)

lemma serialize_loggable: "loggable L e \<Longrightarrow> serialize L e = Ok (entry_bytes L e)"
  by (auto simp: loggable_def entry_bytes_def serialize_def Let_def split: sum.splits)

lemma entry_bytes_len_field:
  assumes "loggable L e"
  shows "WAL_HEADER_SIZE \<le> length (entry_bytes L e)"
    and "unat (from_le_bytes (slice 12 16 (entry_bytes L e @ rest)) :: u32) = length (entry_bytes L e) - WAL_HEADER_SIZE"
proof -
  obtain data where data: "bincode_serialize L e = Inr data" "length data < 2 ^ 32"
    using assms by (auto simp: loggable_def split: sum.splits)
  show "WAL_HEADER_SIZE \<le> length (entry_bytes L e)"
    by (simp add: length_entry_bytes [OF data(1)])
  show "unat (from_le_bytes (slice 12 16 (entry_bytes L e @ rest)) :: u32) = length (entry_bytes L e) - WAL_HEADER_SIZE"
    using data(2) by (simp add: length_entry_bytes [OF data(1)]) (simp add: entry_bytes_eq [OF data(1)] slice_def)
qed

subsection \<open>Correctness of the format\<close>

lemma deserialize_entry_bytes:
  assumes rt: "bincode_roundtrip L" and ok: "loggable L e"
  shows "deserialize L (entry_bytes L e @ rest) = Ok e"
proof -
  obtain data where data: "bincode_serialize L e = Inr data" "length data < 2 ^ 32"
    using ok by (auto simp: loggable_def split: sum.splits)
  have decoded: "bincode_deserialize L data = Inr e"
    using rt data(1) by (simp add: bincode_roundtrip_def)
  have len: "length (entry_bytes L e) = 16 + length data"
    using length_entry_bytes [OF data(1)] by (simp add: WAL_HEADER_SIZE_def)
  show ?thesis
    using data(2) by (simp add: deserialize_def WAL_HEADER_SIZE_def len)
      (simp add: entry_bytes_eq [OF data(1)] slice_def decoded Let_def WAL_HEADER_SIZE_def)
qed

lemma deserialize_cases:
  obtains e where "deserialize L bs = Ok e" | m where "deserialize L bs = Err (WalCorruption m)"
proof -
  have "(\<exists>e. deserialize L bs = Ok e) \<or> (\<exists>m. deserialize L bs = Err (WalCorruption m))"
    by (simp add: deserialize_def Let_def split: sum.split)
  with that show thesis by blast
qed

lemma deserialize_OkD:
  assumes "deserialize L bs = Ok e"
  defines "data_len \<equiv> unat (from_le_bytes (slice 12 16 bs) :: u32)"
  shows "16 + data_len \<le> length bs"
    and "lsn e = from_le_bytes (slice 0 8 bs)"
    and "bincode_deserialize L (slice 16 (16 + data_len) bs) = Inr e"
    and "crc32_hash L (slice 0 8 bs @ slice 12 (16 + data_len) bs) = from_le_bytes (slice 8 12 bs)"
proof -
  have len: "16 \<le> length bs" using assms(1) by (auto simp: deserialize_def WAL_HEADER_SIZE_def split: if_splits)
  have slices: "to_le_bytes (from_le_bytes (slice 0 8 bs) :: u64) = slice 0 8 bs"
      "to_le_bytes (from_le_bytes (slice 12 16 bs) :: u32) = slice 12 16 bs"
    using len by (simp_all add: to_from_bytes length_slice)
  have join: "slice 12 16 bs @ slice 16 (16 + data_len) bs = slice 12 (16 + data_len) bs"
    by (simp add: slice_def take_add)
  have fields: "16 + data_len \<le> length bs \<and> lsn e = from_le_bytes (slice 0 8 bs) \<and>
      bincode_deserialize L (slice 16 (16 + data_len) bs) = Inr e \<and>
      crc32_hash L (slice 0 8 bs @ slice 12 16 bs @ slice 16 (16 + data_len) bs) = from_le_bytes (slice 8 12 bs)"
    using assms(1) slices
    by (auto simp: deserialize_def WAL_HEADER_SIZE_def data_len_def Let_def split: if_splits sum.splits)
  then show "16 + data_len \<le> length bs" and "lsn e = from_le_bytes (slice 0 8 bs)"
    and "bincode_deserialize L (slice 16 (16 + data_len) bs) = Inr e"
    and "crc32_hash L (slice 0 8 bs @ slice 12 (16 + data_len) bs) = from_le_bytes (slice 8 12 bs)"
    by (simp_all add: join)
qed


subsection \<open>Properties\<close>

text \<open>C34: An entry that serialises to at most \<open>2 ^ 32 - 1\<close> bytes of data is read back from its bytes,
  whatever follows them in the file: \<open>deserialize\<close> inverts \<open>serialize\<close>.\<close>

theorem wal_entry_roundtrip:
  assumes "bincode_roundtrip L" and "loggable L e"
  shows "\<exists>bs. serialize L e = Ok bs \<and> deserialize L (bs @ rest) = Ok e"
  using serialize_loggable [OF assms(2)] deserialize_entry_bytes [OF assms] by blast

theorem wal_entry_roundtrip_witness:
  "\<exists>bs. serialize ref_libs \<lparr>lsn = 7, operation = OpPut [1] [2, 3], timestamp = 9\<rparr> = Ok bs \<and>
     deserialize ref_libs (bs @ [0, 1]) = Ok \<lparr>lsn = 7, operation = OpPut [1] [2, 3], timestamp = 9\<rparr>"
  by (rule wal_entry_roundtrip [OF ref_libs_ok(1)])
    (simp add: loggable_def ref_libs_def ref_serialize_def ref_short_def ref_bytes_def)

text \<open>C35: \<open>deserialize\<close> never panics and never returns an entry from damaged bytes: every error is a
  \<open>WalCorruption\<close>, and an entry is only returned when the checksum stored in the header is the one
  of the LSN, the length field and the data, and the LSN inside the data is the one of the header.\<close>

theorem deserialize_checked:
  "case deserialize L bs of
     Ok e \<Rightarrow> 16 + unat (from_le_bytes (slice 12 16 bs) :: u32) \<le> length bs \<and>
       lsn e = from_le_bytes (slice 0 8 bs) \<and>
       crc32_hash L (slice 0 8 bs @ slice 12 (16 + unat (from_le_bytes (slice 12 16 bs) :: u32)) bs) =
         from_le_bytes (slice 8 12 bs)
   | Err x \<Rightarrow> (\<exists>m. x = WalCorruption m)
   | Panic \<Rightarrow> False"
  by (cases L bs rule: deserialize_cases) (use deserialize_OkD [of L bs] in auto)

text \<open>\<open>serialized_size\<close> predicts the length of what \<open>serialize\<close> produces and \<open>compute_crc\<close> is the
  checksum \<open>serialize\<close> stores.\<close>

lemma entry_size_and_crc:
  assumes "bincode_sizes L" and "loggable L e"
  shows "serialized_size L e = Ok (of_nat (length (entry_bytes L e))) \<and>
    compute_crc L e = Ok (from_le_bytes (slice 8 12 (entry_bytes L e)))"
proof -
  obtain data where data: "bincode_serialize L e = Inr data"
    using assms(2) by (auto simp: loggable_def split: sum.splits)
  have "bincode_serialized_size L e = Inr (of_nat (length data))"
    using assms(1) data by (simp add: bincode_sizes_def)
  then have "serialized_size L e = Ok (of_nat (length (entry_bytes L e)))"
    by (simp add: serialized_size_def length_entry_bytes [OF data])
  moreover have "compute_crc L e = Ok (from_le_bytes (slice 8 12 (entry_bytes L e)))"
    by (simp add: compute_crc_def data entry_bytes_eq [OF data] slice_def)
  ultimately show ?thesis by simp
qed

end
