(* ===== verification/MemTable.thy ===== *)
theory MemTable
  imports Ordered_Map Wal_Entry
begin

section \<open>The memtable (src/src/memtable/mod.rs, table.rs)\<close>

text \<open>
  The in-memory table: a \<open>BTreeMap\<close> from keys to values or tombstones and a running size. The
  lock around the map makes every operation atomic. Sizes are \<open>usize\<close>: the difference between
  the new and the old size of an entry is a signed 64-bit number, added when positive and
  subtracted otherwise, with wrap-around. The locale \<open>kv_table\<close> is what the engine relies on
  (a table of values and tombstones under \<open>put\<close> and \<open>delete\<close>); replaying a log into a table
  is treated there once.
\<close>

datatype memtable_entry = Value bytes | Tombstone

record memtable =
  mem_data :: "(bytes \<times> memtable_entry) list"
  mem_size :: usize

definition memtable_new :: memtable where
  "memtable_new = \<lparr>mem_data = [], mem_size = 0\<rparr>"

definition memtable_default :: memtable where
  "memtable_default = memtable_new"

definition memtable_get :: "memtable \<Rightarrow> bytes \<Rightarrow> memtable_entry option" where
  "memtable_get t key = bt_get (mem_data t) key"

definition old_entry_size :: "memtable \<Rightarrow> bytes \<Rightarrow> usize" where
  "old_entry_size t key = (case bt_get (mem_data t) key of
     Some (Value v) \<Rightarrow> of_nat (length key) + of_nat (length v)
   | Some Tombstone \<Rightarrow> of_nat (length key)
   | None \<Rightarrow> 0)"

definition apply_size_delta :: "usize \<Rightarrow> usize \<Rightarrow> usize \<Rightarrow> usize" where
  "apply_size_delta new_size old_size sz =
     (let size_delta = new_size - old_size in
      if 0 < sint size_delta then sz + size_delta else sz - (- size_delta))"

definition memtable_put :: "bytes \<Rightarrow> bytes \<Rightarrow> memtable \<Rightarrow> usize \<times> memtable" where
  "memtable_put key value t =
     (let entry_size = of_nat (length key) + of_nat (length value);
          old_size = old_entry_size t key;
          t = t\<lparr>mem_data := bt_insert key (Value value) (mem_data t)\<rparr>;
          t = t\<lparr>mem_size := apply_size_delta entry_size old_size (mem_size t)\<rparr>
      in (mem_size t, t))"

definition memtable_delete :: "bytes \<Rightarrow> memtable \<Rightarrow> usize \<times> memtable" where
  "memtable_delete key t =
     (let old_size = old_entry_size t key;
          new_size = of_nat (length key);
          t = t\<lparr>mem_data := bt_insert key Tombstone (mem_data t)\<rparr>;
          t = t\<lparr>mem_size := apply_size_delta new_size old_size (mem_size t)\<rparr>
      in (mem_size t, t))"

definition memtable_size :: "memtable \<Rightarrow> usize" where
  "memtable_size t = mem_size t"

definition memtable_entry_count :: "memtable \<Rightarrow> usize" where
  "memtable_entry_count t = of_nat (bt_len (mem_data t))"

definition memtable_is_empty :: "memtable \<Rightarrow> bool" where
  "memtable_is_empty t = (bt_len (mem_data t) = 0)"

definition memtable_should_flush :: "memtable \<Rightarrow> usize \<Rightarrow> bool" where
  "memtable_should_flush t size_limit = (size_limit \<le> memtable_size t)"

definition memtable_iter :: "memtable \<Rightarrow> (bytes \<times> memtable_entry) list" where
  "memtable_iter t = mem_data t"

definition memtable_clear :: "memtable \<Rightarrow> memtable" where
  "memtable_clear t = t\<lparr>mem_data := [], mem_size := 0\<rparr>"

subsection \<open>Invariant: ordered keys, exact size\<close>

fun entry_weight :: "bytes \<times> memtable_entry \<Rightarrow> nat" where
  "entry_weight (k, Value v) = length k + length v"
| "entry_weight (k, Tombstone) = length k"

definition mem_weight :: "memtable \<Rightarrow> nat" where
  "mem_weight t = (\<Sum>e\<leftarrow>mem_data t. entry_weight e)"

definition mem_inv :: "memtable \<Rightarrow> bool" where
  "mem_inv t \<longleftrightarrow> bt_inv (mem_data t) \<and> mem_size t = of_nat (mem_weight t)"

lemma apply_size_delta_eq: "apply_size_delta new_size old_size sz = sz + new_size - old_size"
  by (simp add: apply_size_delta_def Let_def)

lemma old_entry_size_weight:
  "old_entry_size t key = of_nat (bt.old_weight entry_weight key (mem_data t))"
  by (auto simp: old_entry_size_def bt.old_weight_def split: option.splits memtable_entry.splits)

lemma mem_weight_insert:
  assumes "bt_inv (mem_data t)"
  shows "mem_weight (t\<lparr>mem_data := bt_insert k e (mem_data t), mem_size := n\<rparr>) +
    bt.old_weight entry_weight k (mem_data t) = mem_weight t + entry_weight (k, e)"
  using bt.total_insert [OF assms, of entry_weight k e] by (simp add: mem_weight_def bt.total_def)

lemma mem_inv_insert:
  assumes "mem_inv t" and "n = of_nat (entry_weight (k, e))"
  shows "mem_inv (t\<lparr>mem_data := bt_insert k e (mem_data t),
    mem_size := apply_size_delta n (old_entry_size t k) (mem_size t)\<rparr>)"
proof -
  have inv: "bt_inv (mem_data t)" using assms(1) by (simp add: mem_inv_def)
  let ?t = "t\<lparr>mem_data := bt_insert k e (mem_data t),
    mem_size := apply_size_delta n (old_entry_size t k) (mem_size t)\<rparr>"
  have "(of_nat (mem_weight ?t) :: usize) + of_nat (bt.old_weight entry_weight k (mem_data t)) =
      of_nat (mem_weight t) + of_nat (entry_weight (k, e))"
    using arg_cong [OF mem_weight_insert [OF inv, where k = k and e = e], of "of_nat :: nat \<Rightarrow> usize"] by simp
  then have "(of_nat (mem_weight ?t) :: usize) =
      of_nat (mem_weight t) + of_nat (entry_weight (k, e)) - of_nat (bt.old_weight entry_weight k (mem_data t))"
    by (simp add: eq_diff_eq)
  then have "mem_size ?t = of_nat (mem_weight ?t)"
    using assms by (simp add: mem_inv_def apply_size_delta_eq old_entry_size_weight)
  with inv show ?thesis by (simp add: mem_inv_def bt.inv_insert)
qed

lemma mem_inv_new: "mem_inv memtable_new"
  by (simp add: mem_inv_def memtable_new_def mem_weight_def bt.inv_empty)

lemma mem_inv_put: "mem_inv t \<Longrightarrow> mem_inv (snd (memtable_put k v t))"
  using mem_inv_insert [of t _ k "Value v"] by (simp add: memtable_put_def Let_def old_entry_size_def)

lemma mem_inv_delete: "mem_inv t \<Longrightarrow> mem_inv (snd (memtable_delete k t))"
  using mem_inv_insert [of t _ k Tombstone] by (simp add: memtable_delete_def Let_def old_entry_size_def)

lemma mem_inv_clear: "mem_inv (memtable_clear t)"
  by (simp add: mem_inv_def memtable_clear_def mem_weight_def bt.inv_empty)

lemmas mem_inv_intros = mem_inv_new mem_inv_put mem_inv_delete mem_inv_clear

subsection \<open>Lookup\<close>

lemma memtable_get_new: "memtable_get memtable_new = Map.empty"
  by (simp add: memtable_get_def memtable_new_def bt.get_empty fun_eq_iff bt_get_def)

lemma memtable_get_put:
  "mem_inv t \<Longrightarrow> memtable_get (snd (memtable_put k v t)) = (memtable_get t)(k \<mapsto> Value v)"
  using bt.get_insert [of "mem_data t" k "Value v"]
  by (auto simp: memtable_get_def memtable_put_def Let_def mem_inv_def)

lemma memtable_get_delete:
  "mem_inv t \<Longrightarrow> memtable_get (snd (memtable_delete k t)) = (memtable_get t)(k \<mapsto> Tombstone)"
  using bt.get_insert [of "mem_data t" k Tombstone]
  by (auto simp: memtable_get_def memtable_delete_def Let_def mem_inv_def)

lemma memtable_get_clear: "memtable_get (memtable_clear t) = Map.empty"
  by (simp add: memtable_get_def memtable_clear_def fun_eq_iff bt_get_def)

lemma memtable_is_empty_iff: "mem_inv t \<Longrightarrow> memtable_is_empty t \<longleftrightarrow> memtable_get t = Map.empty"
  using bt.iter_empty_iff [of "mem_data t"]
  by (auto simp: memtable_is_empty_def bt_len_def mem_inv_def memtable_get_def fun_eq_iff)

lemma memtable_returned_size:
  "fst (memtable_put k v t) = mem_size (snd (memtable_put k v t))"
  "fst (memtable_delete k t) = mem_size (snd (memtable_delete k t))"
  by (simp_all add: memtable_put_def memtable_delete_def Let_def)

subsection \<open>The interface the engine uses\<close>

text \<open>The entry an operation leaves for its key.\<close>

fun op_entry :: "operation \<Rightarrow> memtable_entry" where
  "op_entry (OpPut k v) = Value v"
| "op_entry (OpDelete k) = Tombstone"

locale kv_table =
  fixes empty :: "'t"
    and get :: "'t \<Rightarrow> bytes \<Rightarrow> memtable_entry option"
    and put :: "bytes \<Rightarrow> bytes \<Rightarrow> 't \<Rightarrow> 't"
    and delete :: "bytes \<Rightarrow> 't \<Rightarrow> 't"
    and inv :: "'t \<Rightarrow> bool"
  assumes inv_empty: "inv empty"
    and inv_put: "inv t \<Longrightarrow> inv (put k v t)"
    and inv_delete: "inv t \<Longrightarrow> inv (delete k t)"
    and get_empty: "get empty = Map.empty"
    and get_put: "inv t \<Longrightarrow> get (put k v t) = (get t)(k \<mapsto> Value v)"
    and get_delete: "inv t \<Longrightarrow> get (delete k t) = (get t)(k \<mapsto> Tombstone)"
begin

fun apply_op :: "operation \<Rightarrow> 't \<Rightarrow> 't" where
  "apply_op (OpPut k v) t = put k v t"
| "apply_op (OpDelete k) t = delete k t"

definition replay :: "wal_entry list \<Rightarrow> 't \<Rightarrow> 't" where
  "replay es t = foldl (\<lambda>t e. apply_op (operation e) t) t es"

lemma replay_simps [simp]:
  "replay [] t = t"
  "replay (e # es) t = replay es (apply_op (operation e) t)"
  "replay (es @ ds) t = replay ds (replay es t)"
  by (simp_all add: replay_def)

lemma inv_apply_op: "inv t \<Longrightarrow> inv (apply_op op t)"
  by (cases op) (simp_all add: inv_put inv_delete)

lemma inv_replay: "inv t \<Longrightarrow> inv (replay es t)"
  by (induction es arbitrary: t) (simp_all add: inv_apply_op)

lemma get_apply_op: "inv t \<Longrightarrow> get (apply_op op t) = (get t)(op_key op \<mapsto> op_entry op)"
  by (cases op) (simp_all add: get_put get_delete)

text \<open>After a replay a key has the entry of its last operation in the log.\<close>

lemma get_replay:
  "inv t \<Longrightarrow> get (replay es t) =
     get t ++ map_of (rev (map (\<lambda>e. (op_key (operation e), op_entry (operation e))) es))"
proof (induction es arbitrary: t)
  case Nil
  then show ?case by simp
next
  case (Cons e es)
  from Cons.IH [OF inv_apply_op [OF Cons.prems, of "operation e"]] Cons.prems show ?case
    by (simp add: get_apply_op map_add_def fun_eq_iff split: option.split)
qed

end

interpretation mt: kv_table memtable_new memtable_get
  "\<lambda>k v t. snd (memtable_put k v t)" "\<lambda>k t. snd (memtable_delete k t)" mem_inv
  by unfold_locales
    (simp_all add: mem_inv_intros memtable_get_new memtable_get_put memtable_get_delete)

text \<open>A size below \<open>2 ^ 64\<close> is exact.\<close>

lemma mem_size_exact: "mem_inv t \<Longrightarrow> mem_weight t < 2 ^ 64 \<Longrightarrow> unat (memtable_size t) = mem_weight t"
  by (simp add: mem_inv_def memtable_size_def)


subsection \<open>Properties\<close>

text \<open>C37: After any sequence of operations on a new memtable, its keys are in order, a lookup finds the
  last operation on the key (a tombstone for a delete), and the size it reports is the sum of the
  lengths of the keys and values it holds, modulo \<open>2 ^ 64\<close>.\<close>

theorem memtable_after_operations:
  "mem_inv (mt.replay es memtable_new) \<and>
   memtable_get (mt.replay es memtable_new) =
     map_of (rev (map (\<lambda>e. (op_key (operation e), op_entry (operation e))) es)) \<and>
   memtable_size (mt.replay es memtable_new) = of_nat (mem_weight (mt.replay es memtable_new))"
proof -
  have inv: "mem_inv (mt.replay es memtable_new)" by (rule mt.inv_replay [OF mt.inv_empty])
  then show ?thesis
    using mt.get_replay [OF mt.inv_empty, of es] by (simp add: mt.get_empty mem_inv_def memtable_size_def)
qed

text \<open>\<open>put\<close> and \<open>delete\<close> return the new size, which is what \<open>should_flush\<close> compares, and \<open>clear\<close>
  leaves an empty memtable of size 0.\<close>

lemma memtable_sizes:
  "fst (memtable_put k v t) = memtable_size (snd (memtable_put k v t)) \<and>
   fst (memtable_delete k t) = memtable_size (snd (memtable_delete k t)) \<and>
   memtable_should_flush (snd (memtable_put k v t)) limit = (limit \<le> fst (memtable_put k v t)) \<and>
   memtable_is_empty (memtable_clear t) \<and> memtable_size (memtable_clear t) = 0"
  by (simp add: memtable_returned_size memtable_size_def memtable_should_flush_def memtable_clear_def
      memtable_is_empty_def bt_len_def)

end
