(* ===== verification/SSTable.thy ===== *)
theory SSTable
  imports MemTable
begin

section \<open>SSTable files: builder (src/src/storage/sstable/mod.rs, builder.rs)\<close>

text \<open>
  The immutable on-disk tables: constants and metadata of \<open>mod.rs\<close> and the \<open>SSTableBuilder\<close>.
  Offsets and counts are \<open>u64\<close>, lengths are cut to \<open>u32\<close> as the casts of the source do. The
  layout of a file is given as a function \<open>sst_bytes\<close> of its entries; the builder is shown to
  write exactly these bytes.
\<close>

definition MAGIC :: bytes where
  "MAGIC = str_bytes ''ATKV''"

definition SST_VERSION :: u16 where
  "SST_VERSION = 1"

definition SST_HEADER_SIZE :: nat where
  "SST_HEADER_SIZE = 14"

definition FOOTER_SIZE :: nat where
  "FOOTER_SIZE = 16"

definition TOMBSTONE_MARKER :: u32 where
  "TOMBSTONE_MARKER = - 1"

record sstable =
  sst_path :: path
  sst_entry_count :: u64
  sst_min_key :: bytes
  sst_max_key :: bytes
  sst_file_size :: u64

definition sstable_entry_count :: "sstable \<Rightarrow> u64" where
  "sstable_entry_count t = sst_entry_count t"

definition sstable_might_contain :: "sstable \<Rightarrow> bytes \<Rightarrow> bool" where
  "sstable_might_contain t key = (sst_min_key t \<le> key \<and> key \<le> sst_max_key t)"

subsection \<open>The builder\<close>

record 'h builder =
  b_path :: path
  b_writer :: bufwriter
  b_entry_count :: u64
  current_offset :: u64
  b_index :: "(bytes \<times> u64) list"
  b_min_key :: "bytes option"
  b_max_key :: "bytes option"
  data_hasher :: 'h

definition on_writer :: "(bufwriter \<times> world, 'a) io \<Rightarrow> ('h builder \<times> world, 'a) io" where
  "on_writer = zoom b_writer (\<lambda>f b. b\<lparr>b_writer := f\<rparr>)"

text \<open>Dropping a \<open>BufWriter\<close> flushes it; the result is ignored.\<close>

definition drop_writer :: "bufwriter \<times> world \<Rightarrow> world" where
  "drop_writer s = (case flush_buf s of (r, b, w) \<Rightarrow> w)"

definition builder_new :: "'h libs \<Rightarrow> path \<Rightarrow> world \<Rightarrow> 'h builder result \<times> world" where
  "builder_new L p w = andThen (from_io (open_truncate p w)) (\<lambda>h w.
     case andThen (from_io (write_all MAGIC (bufwriter_new h, w))) (\<lambda>_ s.
       andThen (from_io (write_all (to_le_bytes SST_VERSION) s)) (\<lambda>_ s.
         from_io (write_all (to_le_bytes (0 :: u64)) s)))
     of (Ok _, writer, w) \<Rightarrow>
          (Ok \<lparr>b_path = p, b_writer = writer, b_entry_count = 0,
             current_offset = of_nat SST_HEADER_SIZE, b_index = [], b_min_key = None, b_max_key = None,
             data_hasher = hasher_new L\<rparr>, w)
      | (Err e, s) \<Rightarrow> (Err e, drop_writer s)
      | (Panic, s) \<Rightarrow> (Panic, drop_writer s))"

definition write_entry :: "'h libs \<Rightarrow> bytes \<Rightarrow> bytes option \<Rightarrow> 'h builder \<times> world \<Rightarrow>
    unit result \<times> 'h builder \<times> world" where
  "write_entry L key value = (\<lambda>(b, w).
     let b = b\<lparr>b_index := b_index b @ [(key, current_offset b)]\<rparr>;
         b = (if b_min_key b = None then b\<lparr>b_min_key := Some key\<rparr> else b);
         b = b\<lparr>b_max_key := Some key\<rparr>;
         key_len = (of_nat (length key) :: u32);
         val_len = (case value of Some v \<Rightarrow> (of_nat (length v) :: u32) | None \<Rightarrow> TOMBSTONE_MARKER);
         key_len_bytes = to_le_bytes key_len;
         val_len_bytes = to_le_bytes val_len
     in andThen (from_io (on_writer (write_all key_len_bytes) (b, w))) (\<lambda>_ s.
        andThen (from_io (on_writer (write_all val_len_bytes) s)) (\<lambda>_ s.
        andThen (from_io (on_writer (write_all key) s)) (\<lambda>_ (b, w).
          let b = b\<lparr>data_hasher := hasher_update L (data_hasher b) key_len_bytes\<rparr>;
              b = b\<lparr>data_hasher := hasher_update L (data_hasher b) val_len_bytes\<rparr>;
              b = b\<lparr>data_hasher := hasher_update L (data_hasher b) key\<rparr>;
              entry_size = (8 + of_nat (length key) :: u64)
          in andThen (case value of
               None \<Rightarrow> (Ok entry_size, b, w)
             | Some v \<Rightarrow> andThen (from_io (on_writer (write_all v) (b, w))) (\<lambda>_ (b, w).
                 (Ok (entry_size + of_nat (length v)),
                  b\<lparr>data_hasher := hasher_update L (data_hasher b) v\<rparr>, w)))
             (\<lambda>entry_size (b, w).
               (Ok (), b\<lparr>current_offset := current_offset b + entry_size,
                  b_entry_count := b_entry_count b + 1\<rparr>, w))))))"

definition builder_add :: "'h libs \<Rightarrow> bytes \<Rightarrow> bytes \<Rightarrow> 'h builder \<times> world \<Rightarrow> unit result \<times> 'h builder \<times> world" where
  "builder_add L key value s = write_entry L key (Some value) s"

definition builder_add_tombstone :: "'h libs \<Rightarrow> bytes \<Rightarrow> 'h builder \<times> world \<Rightarrow> unit result \<times> 'h builder \<times> world" where
  "builder_add_tombstone L key s = write_entry L key None s"

fun write_index :: "(bytes \<times> u64) list \<Rightarrow> bufwriter \<times> world \<Rightarrow> unit result \<times> bufwriter \<times> world" where
  "write_index [] s = (Ok (), s)"
| "write_index ((key, offset) # index) s =
     andThen (from_io (write_all (to_le_bytes (of_nat (length key) :: u32)) s)) (\<lambda>_ s.
     andThen (from_io (write_all (to_le_bytes offset) s)) (\<lambda>_ s.
     andThen (from_io (write_all key s)) (\<lambda>_ s.
       write_index index s)))"

definition write_tail :: "'h libs \<Rightarrow> 'h builder \<Rightarrow> bufwriter \<times> world \<Rightarrow> unit result \<times> bufwriter \<times> world" where
  "write_tail L b s =
     andThen (write_index (b_index b) s) (\<lambda>_ s.
     andThen (from_io (write_all (to_le_bytes (current_offset b)) s)) (\<lambda>_ s.
     andThen (from_io (write_all (to_le_bytes (hasher_finalize L (data_hasher b))) s)) (\<lambda>_ s.
     andThen (from_io (write_all (replicate 4 0) s)) (\<lambda>_ s.
       from_io (flush_buf s)))))"

text \<open>\<open>into_inner\<close> flushes once more; then the count in the header is overwritten in place.\<close>

definition update_header :: "u64 \<Rightarrow> whandle \<times> world \<Rightarrow> nat result \<times> whandle \<times> world" where
  "update_header count hw =
     andThen (from_io (wseek_start 6 hw)) (\<lambda>_ hw.
     andThen (case file_write_all (to_le_bytes count) hw of (r, k, hw) \<Rightarrow> from_io (r, hw)) (\<lambda>_ hw.
     andThen (from_io (sync_all hw)) (\<lambda>_ (h, w).
       from_io (lift_w (metadata_len (w_path h)) (h, w)))))"

definition builder_finish :: "'h libs \<Rightarrow> 'h builder \<times> world \<Rightarrow> sstable result \<times> world" where
  "builder_finish L = (\<lambda>(b, w).
     case write_tail L b (b_writer b, w) of
       (Err e, s) \<Rightarrow> (Err e, drop_writer s)
     | (Panic, s) \<Rightarrow> (Panic, drop_writer s)
     | (Ok _, s) \<Rightarrow>
        (case flush_buf s of
           (Err e, s) \<Rightarrow> (Err (Storage (''Failed to flush SSTable: '' @ io_message e)), drop_writer s)
         | (Panic, s) \<Rightarrow> (Panic, drop_writer s)
         | (Ok _, writer, w) \<Rightarrow>
            (case update_header (b_entry_count b) (inner writer, w) of
               (Err e, h, w) \<Rightarrow> (Err e, w)
             | (Panic, h, w) \<Rightarrow> (Panic, w)
             | (Ok fsize, h, w) \<Rightarrow>
                (Ok \<lparr>sst_path = b_path b, sst_entry_count = b_entry_count b,
                   sst_min_key = (case b_min_key b of Some k \<Rightarrow> k | None \<Rightarrow> []),
                   sst_max_key = (case b_max_key b of Some k \<Rightarrow> k | None \<Rightarrow> []),
                   sst_file_size = of_nat fsize\<rparr>, w))))"

subsection \<open>The layout of a file\<close>

type_synonym entries = "(bytes \<times> memtable_entry) list"

fun val_len_of :: "memtable_entry \<Rightarrow> u32" where
  "val_len_of (Value v) = of_nat (length v)"
| "val_len_of Tombstone = TOMBSTONE_MARKER"

fun val_bytes :: "memtable_entry \<Rightarrow> bytes" where
  "val_bytes (Value v) = v"
| "val_bytes Tombstone = []"

fun entry_value :: "memtable_entry \<Rightarrow> bytes option" where
  "entry_value (Value v) = Some v"
| "entry_value Tombstone = None"

definition data_entry :: "bytes \<times> memtable_entry \<Rightarrow> bytes" where
  "data_entry ke = to_le_bytes (of_nat (length (fst ke)) :: u32) @ to_le_bytes (val_len_of (snd ke)) @
     fst ke @ val_bytes (snd ke)"

definition data_block :: "entries \<Rightarrow> bytes" where
  "data_block es = concat (map data_entry es)"

definition sst_header :: "u64 \<Rightarrow> bytes" where
  "sst_header n = MAGIC @ to_le_bytes SST_VERSION @ to_le_bytes n"

fun index_from :: "nat \<Rightarrow> entries \<Rightarrow> (bytes \<times> u64) list" where
  "index_from n [] = []"
| "index_from n (e # es) = (fst e, of_nat n) # index_from (n + length (data_entry e)) es"

definition index_entry :: "bytes \<times> u64 \<Rightarrow> bytes" where
  "index_entry ko = to_le_bytes (of_nat (length (fst ko)) :: u32) @ to_le_bytes (snd ko) @ fst ko"

definition index_block :: "(bytes \<times> u64) list \<Rightarrow> bytes" where
  "index_block idx = concat (map index_entry idx)"

definition sst_footer :: "u64 \<Rightarrow> u32 \<Rightarrow> bytes" where
  "sst_footer off crc = to_le_bytes off @ to_le_bytes crc @ replicate 4 0"

definition index_start :: "entries \<Rightarrow> nat" where
  "index_start es = SST_HEADER_SIZE + length (data_block es)"

definition sst_bytes :: "u32 \<Rightarrow> entries \<Rightarrow> bytes" where
  "sst_bytes crc es = sst_header (of_nat (length es)) @ data_block es @
     index_block (index_from SST_HEADER_SIZE es) @ sst_footer (of_nat (index_start es)) crc"

text \<open>The pieces the hasher is fed with.\<close>

fun data_chunks :: "bytes \<times> memtable_entry \<Rightarrow> bytes list" where
  "data_chunks (k, e) = [to_le_bytes (of_nat (length k) :: u32), to_le_bytes (val_len_of e), k] @
     (case e of Value v \<Rightarrow> [v] | Tombstone \<Rightarrow> [])"

definition data_crc :: "'h libs \<Rightarrow> entries \<Rightarrow> u32" where
  "data_crc L es = hasher_finalize L (foldl (hasher_update L) (hasher_new L) (concat (map data_chunks es)))"

lemma concat_data_chunks: "concat (data_chunks e) = data_entry e"
  by (cases e; cases "snd e") (auto simp: data_entry_def)

lemma data_crc_eq: "crc_incremental L \<Longrightarrow> data_crc L es = crc32_hash L (data_block es)"
proof -
  assume "crc_incremental L"
  moreover have "concat (concat (map data_chunks es)) = data_block es"
    by (induction es) (simp_all add: data_block_def concat_data_chunks)
  ultimately show ?thesis by (simp add: data_crc_def crc_incremental_def)
qed

lemma data_block_simps [simp]:
  "data_block [] = []"
  "data_block (e # es) = data_entry e @ data_block es"
  "data_block (es @ ds) = data_block es @ data_block ds"
  by (simp_all add: data_block_def)

lemma length_data_entry: "length (data_entry (k, e)) = 8 + length k + length (val_bytes e)"
  by (simp add: data_entry_def)

lemma length_sst_header [simp]: "length (sst_header n) = SST_HEADER_SIZE"
  by (simp add: sst_header_def MAGIC_def str_bytes_def SST_HEADER_SIZE_def)

lemma length_sst_footer [simp]: "length (sst_footer off crc) = FOOTER_SIZE"
  by (simp add: sst_footer_def FOOTER_SIZE_def)

lemma index_from_append:
  "index_from n (es @ ds) = index_from n es @ index_from (n + length (data_block es)) ds"
  by (induction es arbitrary: n) (simp_all add: add.assoc)

lemma map_fst_index_from [simp]: "map fst (index_from n es) = map fst es"
  by (induction es arbitrary: n) simp_all

subsection \<open>The builder writes the layout\<close>

definition builder_holds :: "'h libs \<Rightarrow> entries \<Rightarrow> 'h builder \<Rightarrow> world \<Rightarrow> bool" where
  "builder_holds L es b w \<longleftrightarrow>
     seq_writer (b_writer b) w \<and> bw_path (b_writer b) = b_path b \<and> \<not> w_append (inner (b_writer b)) \<and>
     stream (b_writer b) w = sst_header 0 @ data_block es \<and>
     b_entry_count b = of_nat (length es) \<and> current_offset b = of_nat (index_start es) \<and>
     b_index b = index_from SST_HEADER_SIZE es \<and>
     b_min_key b = (if es = [] then None else Some (fst (hd es))) \<and>
     b_max_key b = (if es = [] then None else Some (fst (last es))) \<and>
     data_hasher b = foldl (hasher_update L) (hasher_new L) (concat (map data_chunks es))"

text \<open>
  A chain of writes on one writer: each step either fails or has appended its bytes. The rule
  for one step of the chain.
\<close>

definition appends :: "bufwriter \<times> world \<Rightarrow> bytes \<Rightarrow> unit result \<Rightarrow> bufwriter \<times> world \<Rightarrow> bool" where
  "appends s d r t \<longleftrightarrow> seq_writer (fst s) (snd s) \<longrightarrow>
     r \<noteq> Panic \<and> (faults (snd s) = [] \<longrightarrow> r = Ok ()) \<and> (r = Ok () \<longrightarrow> advances s d t) \<and>
     frame {bw_path (fst s)} (snd s) (snd t) \<and> same_names (snd s) (snd t) \<and>
     seq_writer (fst t) (snd t) \<and> bw_path (fst t) = bw_path (fst s) \<and>
     w_append (inner (fst t)) = w_append (inner (fst s))"

lemma appends_write_all:
  assumes "from_io (write_all d s) = (r, t)"
  shows "appends s d r t"
proof -
  obtain b w b' w' r0 where s: "s = (b, w)" "t = (b', w')" "write_all d (b, w) = (r0, b', w')" "r = from_io_outcome r0"
    using assms by (cases s; cases t; cases "write_all d s") (auto simp: from_io_def)
  show ?thesis
  proof (cases "seq_writer b w")
    case True
    from write_all_accepts [OF this s(3)] write_all_append_mode [OF s(3)] s(4) show ?thesis
      by (auto simp: appends_def s(1,2) accepts_def advances_def)
  qed (simp add: appends_def s)
qed

lemma appends_flush:
  assumes "from_io (flush_buf s) = (r, t)"
  shows "appends s [] r t" and "seq_writer (fst s) (snd s) \<Longrightarrow> r = Ok () \<Longrightarrow> buf (fst t) = []"
proof -
  obtain b w b' w' r0 where s: "s = (b, w)" "t = (b', w')" "flush_buf (b, w) = (r0, b', w')" "r = from_io_outcome r0"
    using assms by (cases s; cases t; cases "flush_buf s") (auto simp: from_io_def)
  show "appends s [] r t"
  proof (cases "seq_writer b w")
    case True
    from flush_buf_advances [OF this s(3)] flush_buf_append_mode [OF s(3)] s(4) show ?thesis
      by (auto simp: appends_def s(1,2) advances_def)
  qed (simp add: appends_def s)
  show "seq_writer (fst s) (snd s) \<Longrightarrow> r = Ok () \<Longrightarrow> buf (fst t) = []"
    using flush_buf_advances(2) [OF _ s(3)] s by simp
qed

lemma appends_Ok:
  "appends s [] (Ok ()) s"
  by (cases s) (simp add: appends_def advances_refl)

lemma appends_andThen:
  assumes step: "\<And>r t. m = (r, t) \<Longrightarrow> appends s d r t"
    and rest: "\<And>t r u. m = (Ok (), t) \<Longrightarrow> k () t = (r, u) \<Longrightarrow> appends t e r u"
    and run: "andThen m k = (r, u)"
  shows "appends s (d @ e) r u"
  using run
proof (cases rule: andThen_cases)
  case (Ok x t)
  then have st: "appends s d (Ok ()) t" and re: "appends t e r u" using step rest by simp_all
  show ?thesis
    using st re unfolding appends_def
    by (cases s; cases t; cases u)
      (auto intro: advances_trans frame_trans_same same_names_trans dest: frame_no_faults)
next
  case (Err x t)
  with step have "appends s d (Err x) t" by simp
  with Err show ?thesis by (simp add: appends_def)
next
  case (Panic t)
  with step have "appends s d Panic t" by simp
  with Panic show ?thesis by (auto simp: appends_def)
qed

fun write_seq :: "bytes list \<Rightarrow> bufwriter \<times> world \<Rightarrow> unit result \<times> bufwriter \<times> world" where
  "write_seq [] s = (Ok (), s)"
| "write_seq (d # ds) s = andThen (from_io (write_all d s)) (\<lambda>_. write_seq ds)"

lemma write_seq_fun: "write_seq (d # ds) = (\<lambda>s. andThen (from_io (write_all d s)) (\<lambda>_. write_seq ds))"
  by (rule ext) simp

lemma appends_write_seq: "write_seq ds s = (r, t) \<Longrightarrow> appends s (concat ds) r t"
proof (induction ds arbitrary: s r t)
  case Nil
  then show ?case by (auto simp: appends_Ok)
next
  case (Cons d ds)
  have run: "andThen (from_io (write_all d s)) (\<lambda>_. write_seq ds) = (r, t)" using Cons.prems by simp
  have "appends s (d @ concat ds) r t"
    by (rule appends_andThen [OF _ _ run]) (auto intro: appends_write_all Cons.IH)
  then show ?case by simp
qed

lemma write_seq_append:
  "write_seq (ds @ es) s = andThen (write_seq ds s) (\<lambda>_. write_seq es)"
proof (induction ds arbitrary: s)
  case (Cons d ds)
  obtain r t where "from_io (write_all d s) = (r, t)" by (metis surj_pair)
  with Cons show ?case by (cases r) auto
qed simp

definition index_chunks :: "bytes \<times> u64 \<Rightarrow> bytes list" where
  "index_chunks ko = [to_le_bytes (of_nat (length (fst ko)) :: u32), to_le_bytes (snd ko), fst ko]"

lemma write_index_seq: "write_index idx = write_seq (concat (map index_chunks idx))"
proof (induction idx)
  case (Cons e idx)
  obtain k off where e: "e = (k, off)" by (cases e)
  have "index_chunks (k, off) = [to_le_bytes (of_nat (length k) :: u32), to_le_bytes off, k]"
    by (simp add: index_chunks_def)
  then show ?case by (intro ext) (simp add: e Cons write_seq_fun)
qed (auto simp: fun_eq_iff)

lemma concat_index_chunks: "concat (concat (map index_chunks idx)) = index_block idx"
  by (induction idx) (simp_all add: index_block_def index_chunks_def index_entry_def)

lemma andThen_Ok_right: "andThen m (\<lambda>_ s. (Ok (), s)) = (m :: unit result \<times> 's)"
  by (cases m; cases "fst m") auto

lemma on_writer_from_io:
  "from_io (on_writer m (b, w)) = (case from_io (m (b_writer b, w)) of (r, f, w') \<Rightarrow> (r, b\<lparr>b_writer := f\<rparr>, w'))"
  by (simp add: on_writer_def zoom_def from_io_def split: prod.split)

text \<open>Writing an entry is a chain of writes and, when all succeed, the bookkeeping.\<close>

definition entry_bookkeeping :: "'h libs \<Rightarrow> bytes \<Rightarrow> memtable_entry \<Rightarrow> 'h builder \<Rightarrow> bufwriter \<Rightarrow> 'h builder" where
  "entry_bookkeeping L k e b f = b\<lparr>b_writer := f,
     b_index := b_index b @ [(k, current_offset b)],
     b_min_key := (case b_min_key b of None \<Rightarrow> Some k | Some m \<Rightarrow> Some m),
     b_max_key := Some k,
     data_hasher := foldl (hasher_update L) (data_hasher b) (data_chunks (k, e)),
     current_offset := current_offset b + of_nat (length (data_entry (k, e))),
     b_entry_count := b_entry_count b + 1\<rparr>"

lemma write_entry_seq:
  assumes "write_entry L k (entry_value e) (b, w) = (r, b', w')"
  shows "write_seq (data_chunks (k, e)) (b_writer b, w) = (r, b_writer b', w')"
    and "b_path b' = b_path b"
    and "r = Ok () \<Longrightarrow> b' = entry_bookkeeping L k e b (b_writer b')"
proof -
  define kl where "kl = to_le_bytes (of_nat (length k) :: u32)"
  define vl where "vl = to_le_bytes (val_len_of e)"
  obtain r1 f1 w1 where s1: "write_all kl (b_writer b, w) = (r1, f1, w1)" by (metis prod_cases3)
  obtain r2 f2 w2 where s2: "write_all vl (f1, w1) = (r2, f2, w2)" by (metis prod_cases3)
  obtain r3 f3 w3 where s3: "write_all k (f2, w2) = (r3, f3, w3)" by (metis prod_cases3)
  have vl_case: "to_le_bytes (case entry_value e of Some v \<Rightarrow> (of_nat (length v) :: u32) | None \<Rightarrow> TOMBSTONE_MARKER) = vl"
    by (cases e) (simp_all add: vl_def)
  note run = assms [unfolded write_entry_def Let_def vl_case, folded kl_def, simplified prod.case]
  have chunks: "data_chunks (k, e) = [kl, vl, k] @ (case e of Value v \<Rightarrow> [v] | Tombstone \<Rightarrow> [])"
    by (simp add: kl_def vl_def)
  note step = on_writer_from_io s1 s2 s3
  have *: "write_seq (data_chunks (k, e)) (b_writer b, w) = (r, b_writer b', w') \<and> b_path b' = b_path b \<and>
      (r = Ok () \<longrightarrow> b' = entry_bookkeeping L k e b (b_writer b'))"
  proof (cases "r1 = Ok () \<and> r2 = Ok () \<and> r3 = Ok ()")
    case True
    show ?thesis
    proof (cases e)
      case (Value v)
      obtain r4 f4 w4 where s4: "write_all v (f3, w3) = (r4, f4, w4)" by (metis prod_cases3)
      show ?thesis using run True
        by (cases r4; cases "b_min_key b")
          (auto simp: Value chunks [unfolded Value] step s4 entry_bookkeeping_def length_data_entry add.assoc simp del: data_chunks.simps)
    next
      case Tombstone
      show ?thesis using run True
        by (cases "b_min_key b")
          (auto simp: Tombstone chunks [unfolded Tombstone] step entry_bookkeeping_def length_data_entry add.assoc simp del: data_chunks.simps)
    qed
  next
    case False
    then consider "r1 \<noteq> Ok ()" | "r1 = Ok ()" "r2 \<noteq> Ok ()" | "r1 = Ok ()" "r2 = Ok ()" "r3 \<noteq> Ok ()" by blast
    then show ?thesis
    proof cases
      case 1
      with run show ?thesis by (cases r1; cases "b_min_key b") (auto simp: chunks step simp del: data_chunks.simps)
    next
      case 2
      with run show ?thesis by (cases r2; cases "b_min_key b") (auto simp: chunks step simp del: data_chunks.simps)
    next
      case 3
      with run show ?thesis by (cases r3; cases "b_min_key b") (auto simp: chunks step simp del: data_chunks.simps)
    qed
  qed
  then show "write_seq (data_chunks (k, e)) (b_writer b, w) = (r, b_writer b', w')"
    and "b_path b' = b_path b"
    and "r = Ok () \<Longrightarrow> b' = entry_bookkeeping L k e b (b_writer b')" by auto
qed


lemma index_start_simps [simp]:
  "index_start [] = SST_HEADER_SIZE"
  "index_start (es @ [e]) = index_start es + length (data_entry e)"
  by (simp_all add: index_start_def)

lemma builder_holds_snoc:
  assumes holds: "builder_holds L es b w"
    and adv: "advances (b_writer b, w) (data_entry (k, e)) (f, w')"
    and app: "w_append (inner f) = w_append (inner (b_writer b))"
  shows "builder_holds L (es @ [(k, e)]) (entry_bookkeeping L k e b f) w'"
proof -
  have "bw_path f = bw_path (b_writer b)" "stream f w' = stream (b_writer b) w @ data_entry (k, e)"
      "seq_writer f w'"
    using adv by (auto dest: advances_path advances_stream advances_seq)
  with holds app show ?thesis
    by (cases "es = []")
      (auto simp: builder_holds_def entry_bookkeeping_def index_from_append index_start_def
        simp del: data_chunks.simps)
qed

lemma write_entry_holds:
  assumes holds: "builder_holds L es b w"
    and run: "write_entry L k (entry_value e) (b, w) = (r, b', w')"
  shows "frame {b_path b} w w'" and "same_names w w'" and "b_path b' = b_path b"
    and "faults w = [] \<Longrightarrow> r = Ok ()" and "r \<noteq> Panic"
    and "seq_writer (b_writer b') w'" and "bw_path (b_writer b') = b_path b"
    and "r = Ok () \<Longrightarrow> builder_holds L (es @ [(k, e)]) b' w'"
proof -
  have ap: "appends (b_writer b, w) (data_entry (k, e)) r (b_writer b', w')"
    using appends_write_seq [OF write_entry_seq(1) [OF run]] by (simp only: concat_data_chunks)
  have seq: "seq_writer (b_writer b) w" and p: "bw_path (b_writer b) = b_path b"
    using holds by (simp_all add: builder_holds_def)
  show "frame {b_path b} w w'" and "same_names w w'" and "faults w = [] \<Longrightarrow> r = Ok ()" and "r \<noteq> Panic"
    and "seq_writer (b_writer b') w'" and "bw_path (b_writer b') = b_path b"
    using ap seq p by (auto simp: appends_def)
  show "b_path b' = b_path b" by (rule write_entry_seq(2) [OF run])
  show "builder_holds L (es @ [(k, e)]) b' w'" if ok: "r = Ok ()"
  proof -
    have "advances (b_writer b, w) (data_entry (k, e)) (b_writer b', w')"
      using ap seq ok by (simp add: appends_def)
    moreover have "w_append (inner (b_writer b')) = w_append (inner (b_writer b))"
      using ap seq by (simp add: appends_def)
    ultimately have "builder_holds L (es @ [(k, e)]) (entry_bookkeeping L k e b (b_writer b')) w'"
      by (rule builder_holds_snoc [OF holds])
    with write_entry_seq(3) [OF run ok] show ?thesis by simp
  qed
qed

lemma drop_writer_effect:
  assumes "seq_writer b w"
  shows "frame {bw_path b} w (drop_writer (b, w))" and "same_names w (drop_writer (b, w))"
    and "prefix (content w (bw_path b)) (content (drop_writer (b, w)) (bw_path b))"
proof -
  obtain r b' w' where fl: "flush_buf (b, w) = (r, b', w')" by (metis prod_cases3)
  from flush_buf_advances(1) [OF assms fl]
  show "frame {bw_path b} w (drop_writer (b, w))" and "same_names w (drop_writer (b, w))"
    and "prefix (content w (bw_path b)) (content (drop_writer (b, w)) (bw_path b))"
    by (auto simp: drop_writer_def fl advances_def)
qed

lemma write_seq_Nil: "write_seq [] = (\<lambda>s. (Ok (), s))"
  by (rule ext) simp

lemma builder_new_write_seq:
  "builder_new L p w = andThen (from_io (open_truncate p w)) (\<lambda>h w.
     case write_seq [MAGIC, to_le_bytes SST_VERSION, to_le_bytes (0 :: u64)] (bufwriter_new h, w) of
       (Ok _, writer, w) \<Rightarrow>
          (Ok \<lparr>b_path = p, b_writer = writer, b_entry_count = 0,
             current_offset = of_nat SST_HEADER_SIZE, b_index = [], b_min_key = None, b_max_key = None,
             data_hasher = hasher_new L\<rparr>, w)
      | (Err e, s) \<Rightarrow> (Err e, drop_writer s)
      | (Panic, s) \<Rightarrow> (Panic, drop_writer s))"
  unfolding builder_new_def by (simp add: write_seq_fun write_seq_Nil andThen_Ok_right)

lemma builder_new_effect:
  assumes run: "builder_new L p w = (r, w')"
  shows "frame {p} w w'" and "r \<noteq> Panic"
    and "\<And>b. r = Ok b \<Longrightarrow> builder_holds L [] b w' \<and> b_path b = p \<and>
      map fst (fs w') = (if exists_path w p then map fst (fs w) else map fst (fs w) @ [p])"
    and "faults w = [] \<Longrightarrow> is_file w p \<or> \<not> exists_path w p \<and> lookup w (butlast p) = Some DirNode \<Longrightarrow>
      \<exists>b. r = Ok b"
proof -
  define hdr where "hdr = [MAGIC, to_le_bytes SST_VERSION, to_le_bytes (0 :: u64)]"
  obtain ro w1 where op: "open_truncate p w = (ro, w1)" by fastforce
  have "frame {p} w w' \<and> r \<noteq> Panic \<and> (\<forall>b. r = Ok b \<longrightarrow> builder_holds L [] b w' \<and> b_path b = p \<and>
      map fst (fs w') = (if exists_path w p then map fst (fs w) else map fst (fs w) @ [p])) \<and>
      (faults w = [] \<longrightarrow> (\<exists>h. ro = Ok h) \<longrightarrow> (\<exists>b. r = Ok b))"
  proof (cases ro)
    case (Ok h)
    note opened = open_truncate_Ok [OF op [unfolded Ok]] and sq = open_truncate_seq [OF op [unfolded Ok]]
    obtain r2 f w2 where ws: "write_seq hdr (bufwriter_new h, w1) = (r2, f, w2)" by (metis prod_cases3)
    from appends_write_seq [OF ws] sq
    have ap: "r2 \<noteq> Panic" "faults w1 = [] \<Longrightarrow> r2 = Ok ()" "frame {p} w1 w2" "same_names w1 w2"
        "seq_writer f w2" "bw_path f = p" "r2 = Ok () \<Longrightarrow> stream f w2 = concat hdr" "\<not> w_append (inner f)"
      using opened(1) by (auto simp: appends_def bufwriter_new_def dest: advances_stream)
    note run' = run [unfolded builder_new_write_seq op Ok, folded hdr_def]
    show ?thesis
    proof (cases r2)
      case (Ok u)
      with run' op \<open>ro = Ok h\<close> have "w' = w2" and r: "r = Ok \<lparr>b_path = p, b_writer = f, b_entry_count = 0,
          current_offset = of_nat SST_HEADER_SIZE, b_index = [], b_min_key = None, b_max_key = None,
          data_hasher = hasher_new L\<rparr>" by (auto simp: ws)
      with ap Ok opened frame_trans_same show ?thesis
        by (auto simp: builder_holds_def sst_header_def same_names_def hdr_def)
    next
      case (Err e)
      with run' op \<open>ro = Ok h\<close> have "w' = drop_writer (f, w2)" "r = Err e" by (auto simp: ws)
      with ap Err opened(3) drop_writer_effect [OF ap(5)] show ?thesis
        by (auto intro: frame_trans_same dest: frame_no_faults)
    qed (use ap in simp)
  next
    case (Err e)
    with run op open_truncate_error [of p w e w1] show ?thesis
      by (auto simp: builder_new_def)
  qed (use open_truncate_not_Panic op in auto)
  then show "frame {p} w w'" and "r \<noteq> Panic"
    and "\<And>b. r = Ok b \<Longrightarrow> builder_holds L [] b w' \<and> b_path b = p \<and>
      map fst (fs w') = (if exists_path w p then map fst (fs w) else map fst (fs w) @ [p])"
    and "faults w = [] \<Longrightarrow> is_file w p \<or> \<not> exists_path w p \<and> lookup w (butlast p) = Some DirNode \<Longrightarrow>
      \<exists>b. r = Ok b"
    by (simp_all, metis open_truncate_no_faults op prod.inject)
qed

text \<open>The three calls of \<open>update_header\<close> and the length asked at the end.\<close>

lemma update_header_effect:
  assumes isf: "is_file w (w_path h)" and app: "\<not> w_append h"
    and run: "update_header count (h, w) = (r, h', w')"
  shows "frame {w_path h} w w' \<and> same_names w w' \<and> is_file w' (w_path h) \<and> r \<noteq> Panic \<and>
    (faults w = [] \<longrightarrow> (\<exists>n. r = Ok n)) \<and>
    (\<forall>n. r = Ok n \<longrightarrow> content w' (w_path h) = write_at 6 (to_le_bytes count) (content w (w_path h)) \<and>
       durable w' (w_path h) = content w' (w_path h) \<and> n = length (content w' (w_path h)))"
proof -
  let ?p = "w_path h" and ?d = "to_le_bytes count"
  obtain r1 h1 w1 where s1: "wseek_start 6 (h, w) = (r1, h1, w1)" by (metis prod_cases3)
  note e1 = wseek_start_effect [OF s1]
  have p1: "w_path h1 = ?p" "\<not> w_append h1" "is_file w1 ?p" "content w1 ?p = content w ?p"
    "r1 = Ok () \<Longrightarrow> w_pos h1 = 6"
    using e1(3,4) app isf by (auto simp: is_file_def content_def)
  have f1: "frame {?p} w w1" using e1(1) by (rule frame_mono) simp
  obtain r2 k2 h2 w2 where s2: "file_write_all ?d (h1, w1) = (r2, k2, h2, w2)" by (metis prod_cases4)
  note e2 = file_write_all_at [of w1 h1 ?d r2 k2 h2 w2, unfolded p1, OF p1(3) s2]
  have f2: "frame {?p} w w2" using f1 e2(1) by (rule frame_trans_same)
  have isf2: "is_file w2 (w_path h2)" using e2 by simp
  obtain r3 h3 w3 where s3: "sync_all (h2, w2) = (r3, h3, w3)" by (metis prod_cases3)
  note e3 = sync_all_effect [OF s3 isf2, unfolded e2(4)]
  have f3: "frame {?p} w w3" using f2 e3(2) by (rule frame_trans_same)
  obtain r4 w4 where s4: "metadata_len ?p w3 = (r4, w4)" by fastforce
  note e4 = metadata_len_effect [OF s4]
  have f4: "frame {?p} w w4" using f3 frame_mono [OF e4(1)] by (blast intro: frame_trans_same)
  have "length ?d = 8" by simp
  then have ne: "?d \<noteq> []" by force
  consider "r1 \<noteq> Ok ()" | "r1 = Ok ()" "r2 \<noteq> Ok ()" | "r1 = Ok ()" "r2 = Ok ()" "r3 \<noteq> Ok ()"
    | "r1 = Ok ()" "r2 = Ok ()" "r3 = Ok ()" by blast
  then show ?thesis
  proof cases
    case 1
    then obtain e where "r1 = Err e" using e1(6) by (cases r1) auto
    with run s1 e1 f1 p1 show ?thesis by (auto simp: update_header_def)
  next
    case 2
    then obtain e where "r2 = Err e" using e2(7) by (cases r2) auto
    with 2 run s1 s2 e1 e2 f2 show ?thesis
      by (auto simp: update_header_def intro: same_names_trans dest: frame_no_faults)
  next
    case 3
    then obtain e where "r3 = Err e" using e3(9) by (cases r3) auto
    with 3 run s1 s2 s3 e1 e2 e3 f3 f2 show ?thesis
      by (auto simp: update_header_def intro: same_names_trans dest: frame_no_faults)
  next
    case 4
    have "w' = w4" "r = from_io_outcome r4"
      using 4 run s1 s2 s3 s4 e3(1) e2(4) by (auto simp: update_header_def lift_w_def from_io_def)
    moreover have "same_names w w4" using e1(2) e2(2) e3(3) e4(2) by (blast intro: same_names_trans)
    moreover have "content w4 ?p = write_at 6 ?d (content w ?p)" "durable w4 ?p = content w4 ?p" "is_file w4 ?p"
      using e4(3) e3 e2 p1 4 ne by (auto simp: content_def durable_def is_file_def)
    moreover have "faults w = [] \<Longrightarrow> \<exists>n. r4 = Ok n" using e4(5) frame_no_faults [OF f3] by blast
    ultimately show ?thesis using f4 e4 by (auto simp: content_def)
  qed
qed

lemma write_tail_appends:
  assumes run: "write_tail L b s = (r, t)" and seq: "seq_writer (fst s) (snd s)"
  shows "appends s (index_block (b_index b) @
      sst_footer (current_offset b) (hasher_finalize L (data_hasher b))) r t"
    and "r = Ok () \<Longrightarrow> buf (fst t) = []"
proof -
  let ?cs = "concat (map index_chunks (b_index b)) @
    [to_le_bytes (current_offset b), to_le_bytes (hasher_finalize L (data_hasher b)), replicate 4 0]"
  have tail: "write_tail L b s = andThen (write_seq ?cs s) (\<lambda>_ s. from_io (flush_buf s))"
    unfolding write_tail_def write_seq_append write_index_seq
    by (simp add: andThen_assoc write_seq_fun write_seq_Nil)
  have bytes: "concat ?cs @ [] = index_block (b_index b) @
      sst_footer (current_offset b) (hasher_finalize L (data_hasher b))"
    by (simp add: concat_index_chunks sst_footer_def)
  note run' = run [unfolded tail]
  show "appends s (index_block (b_index b) @ sst_footer (current_offset b) (hasher_finalize L (data_hasher b))) r t"
    unfolding bytes [symmetric]
    by (rule appends_andThen [OF _ _ run'], erule appends_write_seq, erule appends_flush)
  show "buf (fst t) = []" if ok: "r = Ok ()"
  proof -
    from run' ok obtain u where u: "write_seq ?cs s = (Ok (), u)" "from_io (flush_buf u) = (Ok (), t)"
      by (auto simp: andThen_Ok_iff)
    from appends_write_seq [OF u(1)] seq have "seq_writer (fst u) (snd u)" by (simp add: appends_def)
    with appends_flush(2) [OF u(2)] show ?thesis by simp
  qed
qed

lemma write_at_mid: "length e = length d \<Longrightarrow> write_at (length a) d (a @ e @ c) = a @ d @ c"
  by (simp add: write_at_def)

lemma header_count_update:
  "write_at 6 (to_le_bytes n) (sst_header 0 @ rest) = sst_header n @ rest"
proof -
  let ?a = "MAGIC @ to_le_bytes SST_VERSION"
  have "length ?a = 6" by (simp add: MAGIC_def str_bytes_def)
  with write_at_mid [of "to_le_bytes (0 :: u64)" "to_le_bytes n" ?a rest]
  show ?thesis by (simp add: sst_header_def)
qed

text \<open>
  \<open>finish\<close>: on success the file is the layout, durable, and the metadata describe it; on every
  path only this file was touched.
\<close>

text \<open>What a builder leaves after \<open>finish\<close>: the complete table, synced, and its metadata.\<close>

definition table_written :: "'h libs \<Rightarrow> path \<Rightarrow> entries \<Rightarrow> world \<Rightarrow> sstable \<Rightarrow> bool" where
  "table_written L p es w t \<longleftrightarrow> content w p = sst_bytes (data_crc L es) es \<and> durable w p = content w p \<and> is_file w p \<and>
     t = \<lparr>sst_path = p, sst_entry_count = of_nat (length es),
       sst_min_key = (if es = [] then [] else fst (hd es)), sst_max_key = (if es = [] then [] else fst (last es)),
       sst_file_size = of_nat (length (content w p))\<rparr>"

lemma write_tail_effect:
  assumes holds: "builder_holds L es b w" and run: "write_tail L b (b_writer b, w) = (r, f, w')"
  shows "r \<noteq> Panic" and "faults w = [] \<Longrightarrow> r = Ok ()" and "frame {b_path b} w w'" and "same_names w w'"
    and "seq_writer f w'" and "bw_path f = b_path b" and "\<not> w_append (inner f)"
    and "r = Ok () \<Longrightarrow> buf f = [] \<and> content w' (b_path b) = sst_header 0 @ data_block es @
      index_block (index_from SST_HEADER_SIZE es) @ sst_footer (of_nat (index_start es)) (data_crc L es)"
proof -
  have seq: "seq_writer (b_writer b) w" and p: "bw_path (b_writer b) = b_path b" and app: "\<not> w_append (inner (b_writer b))"
    using holds by (simp_all add: builder_holds_def)
  note ap = write_tail_appends [OF run, simplified fst_conv snd_conv, OF seq]
  show *: "r \<noteq> Panic" "faults w = [] \<Longrightarrow> r = Ok ()" "frame {b_path b} w w'" "same_names w w'"
      "seq_writer f w'" "bw_path f = b_path b" "\<not> w_append (inner f)"
    using ap(1) seq p app by (auto simp: appends_def)
  assume "r = Ok ()"
  then show "buf f = [] \<and> content w' (b_path b) = sst_header 0 @ data_block es @
      index_block (index_from SST_HEADER_SIZE es) @ sst_footer (of_nat (index_start es)) (data_crc L es)"
    using ap holds seq p *(6) by (auto simp: appends_def advances_def builder_holds_def data_crc_def stream_def)
qed

lemma builder_finish_result:
  assumes holds: "builder_holds L es b w" and run: "builder_finish L (b, w) = (r, w')"
  shows "frame {b_path b} w w' \<and> same_names w w' \<and> r \<noteq> Panic \<and> (faults w = [] \<longrightarrow> (\<exists>t. r = Ok t)) \<and>
    (\<forall>t. r = Ok t \<longrightarrow> table_written L (b_path b) es w' t)"
proof -
  let ?p = "b_path b"
  obtain r1 f1 w1 where s1: "write_tail L b (b_writer b, w) = (r1, f1, w1)" by (metis prod_cases3)
  note e1 = write_tail_effect [OF holds s1]
  have isf1: "is_file w1 (w_path (inner f1))" using e1(5) by (simp add: seq_writer_def seq_handle_def)
  obtain r3 h3 w3 where s3: "update_header (b_entry_count b) (inner f1, w1) = (r3, h3, w3)" by (metis prod_cases3)
  from update_header_effect [OF isf1 e1(7) s3] e1(6)
  have e3: "frame {?p} w1 w3" "same_names w1 w3" "is_file w3 ?p" "r3 \<noteq> Panic" "faults w1 = [] \<Longrightarrow> \<exists>n. r3 = Ok n"
    "\<And>n. r3 = Ok n \<Longrightarrow> content w3 ?p = write_at 6 (to_le_bytes (b_entry_count b)) (content w1 ?p) \<and>
       durable w3 ?p = content w3 ?p \<and> n = length (content w3 ?p)"
    by (simp_all add: bw_path_def)
  show ?thesis
  proof (cases "r1 = Ok ()")
    case False
    then obtain e where "r1 = Err e" using e1(1) by (cases r1) auto
    with run s1 have "r = Err e" "w' = drop_writer (f1, w1)" by (simp_all add: builder_finish_def)
    with False e1 drop_writer_effect [OF e1(5)] show ?thesis
      by (auto intro: frame_trans_same same_names_trans)
  next
    case ok1: True
    then have "flush_buf (f1, w1) = (Ok (), f1, w1)"
      using e1(8) by (simp add: flush_buf_def file_write_all_def)
    note run' = run [unfolded builder_finish_def, simplified, unfolded s1 ok1, simplified, unfolded this, simplified, unfolded s3]
    have fr: "frame {?p} w w3" "same_names w w3"
      using e1 e3 by (blast intro: frame_trans_same same_names_trans)+
    show ?thesis
    proof (cases r3)
      case (Ok n)
      have count: "b_entry_count b = of_nat (length es)" using holds by (simp add: builder_holds_def)
      have "content w3 ?p = sst_bytes (data_crc L es) es"
        using e3(6) [OF Ok] e1(8) [OF ok1] by (simp add: header_count_update sst_bytes_def count)
      with run' Ok fr e3 holds show ?thesis by (auto simp: builder_holds_def table_written_def)
    next
      case (Err e)
      with run' fr e3(5) frame_no_faults [OF e1(3)] show ?thesis by auto
    qed (use e3 in simp)
  qed
qed

lemma builder_finish_effect:
  assumes "builder_holds L es b w" and "builder_finish L (b, w) = (r, w')"
  shows "frame {b_path b} w w'" and "same_names w w'" and "r \<noteq> Panic" and "faults w = [] \<Longrightarrow> \<exists>t. r = Ok t"
    and "\<And>t. r = Ok t \<Longrightarrow> table_written L (b_path b) es w' t"
  using builder_finish_result [OF assms] by blast+

end
