(* ===== verification/SSTable_Reader.thy ===== *)
theory SSTable_Reader
  imports SSTable
begin

section \<open>SSTable files: reader and iterator (src/src/storage/sstable/reader.rs, iterator.rs)\<close>

text \<open>
  \<open>SSTableReader::open\<close> validates the header, loads the index and keeps the file open;
  \<open>get\<close> seeks to the offset of the index; \<open>SSTableIterator\<close> walks the data block. The subtraction
  that gives the size of the index block is on \<open>u64\<close>: when it underflows the debug build
  panics at once and the release build asks \<open>vec!\<close> for more than \<open>isize::MAX\<close> bytes, which
  panics too, because the preceding \<open>seek\<close> has rejected offsets of \<open>2 ^ 63\<close> and more.
  The lemmas relate all three to the layout \<open>sst_bytes\<close> that the builder writes.
\<close>

record sst_reader =
  sr_file :: rhandle
  sr_index :: "(bytes \<times> u64) list"
  sr_entry_count :: u64
  sr_index_offset :: u64

function parse_index :: "bytes \<Rightarrow> nat \<Rightarrow> (bytes \<times> u64) list \<Rightarrow> (bytes \<times> u64) list" where
  "parse_index index_data pos index =
     (if pos < length index_data then
        if pos + 4 > length index_data then index
        else let key_len = unat (from_le_bytes (slice pos (pos + 4) index_data) :: u32); pos = pos + 4 in
          if pos + 8 > length index_data then index
          else let offset = (from_le_bytes (slice pos (pos + 8) index_data) :: u64); pos = pos + 8 in
            if pos + key_len > length index_data then index
            else let key = slice pos (pos + key_len) index_data; pos = pos + key_len in
              parse_index index_data pos (bt_insert key offset index)
      else index)"
  by pat_completeness auto
termination by (relation "measure (\<lambda>(index_data, pos, index). length index_data - pos)") auto

definition load_reader :: "u64 \<Rightarrow> rhandle \<times> world \<Rightarrow> sst_reader result \<times> rhandle \<times> world" where
  "load_reader file_size hw =
     andThen (from_io (read_exact SST_HEADER_SIZE hw)) (\<lambda>header hw.
     if slice 0 4 header \<noteq> MAGIC then
       (Err (Storage (''Invalid SSTable magic: expected ATKV, got '' @ show_bytes (slice 0 4 header))), hw)
     else let version = (from_le_bytes (slice 4 6 header) :: u16) in
     if version \<noteq> SST_VERSION then
       (Err (Storage (''Unsupported SSTable version: '' @ show_dec (unat version))), hw)
     else let entry_count = (from_le_bytes (slice 6 14 header) :: u64) in
     andThen (from_io (seek_end_back FOOTER_SIZE hw)) (\<lambda>_ hw.
     andThen (from_io (read_exact FOOTER_SIZE hw)) (\<lambda>footer hw.
     let index_offset = (from_le_bytes (slice 0 8 footer) :: u64) in
     andThen (from_io (seek_start index_offset hw)) (\<lambda>_ hw.
     let index_block_size = file_size - of_nat FOOTER_SIZE - index_offset in
     if 2 ^ 63 \<le> unat index_block_size then (Panic, hw)
     else andThen (from_io (read_exact (unat index_block_size) hw)) (\<lambda>index_data hw.
     andThen (from_io (seek_start 0 hw)) (\<lambda>_ (h, w).
       (Ok \<lparr>sr_file = h, sr_index = parse_index index_data 0 [], sr_entry_count = entry_count,
          sr_index_offset = index_offset\<rparr>, h, w)))))))"

definition reader_open :: "path \<Rightarrow> world \<Rightarrow> sst_reader result \<times> world" where
  "reader_open p w =
     andThen (from_io (file_open p w)) (\<lambda>h w.
     andThen (from_io (metadata_len p w)) (\<lambda>file_size w.
       case load_reader (of_nat file_size) (h, w) of (r, h, w) \<Rightarrow> (r, w)))"

definition on_reader :: "(rhandle \<times> world, 'a) io \<Rightarrow> (sst_reader \<times> world, 'a) io" where
  "on_reader = zoom sr_file (\<lambda>h rd. rd\<lparr>sr_file := h\<rparr>)"

definition reader_get :: "bytes \<Rightarrow> sst_reader \<times> world \<Rightarrow> bytes option result \<times> sst_reader \<times> world" where
  "reader_get key = (\<lambda>(rd, w). case bt_get (sr_index rd) key of
     None \<Rightarrow> (Err KeyNotFound, rd, w)
   | Some offset \<Rightarrow>
     andThen (from_io (on_reader (seek_start offset) (rd, w))) (\<lambda>_ s.
     andThen (from_io (on_reader (read_exact 8) s)) (\<lambda>header s.
     let key_len = unat (from_le_bytes (slice 0 4 header) :: u32);
         val_len = (from_le_bytes (slice 4 8 header) :: u32) in
     andThen (from_io (on_reader (seek_current key_len) s)) (\<lambda>_ s.
     if val_len = TOMBSTONE_MARKER then (Ok None, s)
     else andThen (from_io (on_reader (read_exact (unat val_len)) s)) (\<lambda>v s.
       (Ok (Some v), s))))))"

definition reader_entry_count :: "sst_reader \<Rightarrow> u64" where
  "reader_entry_count rd = sr_entry_count rd"

definition reader_min_key :: "sst_reader \<Rightarrow> bytes option" where
  "reader_min_key rd = bt_first_key (sr_index rd)"

definition reader_max_key :: "sst_reader \<Rightarrow> bytes option" where
  "reader_max_key rd = bt_last_key (sr_index rd)"

definition reader_might_contain :: "sst_reader \<Rightarrow> bytes \<Rightarrow> bool" where
  "reader_might_contain rd key = (case (reader_min_key rd, reader_max_key rd) of
     (Some lo, Some hi) \<Rightarrow> lo \<le> key \<and> key \<le> hi
   | _ \<Rightarrow> False)"

subsection \<open>The iterator\<close>

record sst_iter =
  it_file :: rhandle
  end_offset :: u64
  it_offset :: u64

definition iterator_new :: "u64 \<Rightarrow> rhandle \<times> world \<Rightarrow> sst_iter result \<times> rhandle \<times> world" where
  "iterator_new stop hw =
     andThen (from_io (seek_start (of_nat SST_HEADER_SIZE) hw)) (\<lambda>_ (h, w).
       (Ok \<lparr>it_file = h, end_offset = stop, it_offset = of_nat SST_HEADER_SIZE\<rparr>, h, w))"

definition reader_iter :: "sst_reader \<times> world \<Rightarrow> sst_iter result \<times> sst_reader \<times> world" where
  "reader_iter = (\<lambda>(rd, w). zoom sr_file (\<lambda>h rd. rd\<lparr>sr_file := h\<rparr>) (iterator_new (sr_index_offset rd)) (rd, w))"

definition on_iter :: "(rhandle \<times> world, 'a) io \<Rightarrow> (sst_iter \<times> world, 'a) io" where
  "on_iter = zoom it_file (\<lambda>h it. it\<lparr>it_file := h\<rparr>)"

text \<open>One call of \<open>next\<close>: \<open>None\<close> at the end, otherwise an entry or an error.\<close>

definition iterator_step :: "sst_iter \<times> world \<Rightarrow> (bytes \<times> bytes option) result \<times> sst_iter \<times> world" where
  "iterator_step s =
     andThen (from_io (on_iter (read_exact 8) s)) (\<lambda>header s.
     let key_len = unat (from_le_bytes (slice 0 4 header) :: u32);
         val_len = (from_le_bytes (slice 4 8 header) :: u32) in
     andThen (from_io (on_iter (read_exact key_len) s)) (\<lambda>key s.
     let entry_size = (8 + of_nat key_len :: u64) in
     andThen (if val_len = TOMBSTONE_MARKER then (Ok (None, entry_size), s)
       else andThen (from_io (on_iter (read_exact (unat val_len)) s)) (\<lambda>v s.
         (Ok (Some v, entry_size + of_nat (unat val_len)), s)))
       (\<lambda>(value, entry_size) (it, w).
         (Ok (key, value), it\<lparr>it_offset := it_offset it + entry_size\<rparr>, w))))"

definition iterator_next :: "sst_iter \<times> world \<Rightarrow>
    (bytes \<times> bytes option) result option \<times> sst_iter \<times> world" where
  "iterator_next = (\<lambda>(it, w).
     if end_offset it \<le> it_offset it then (None, it, w)
     else (case iterator_step (it, w) of (r, s) \<Rightarrow> (Some r, s)))"

declare parse_index.simps [simp del]

subsection \<open>Single calls\<close>

text \<open>
  The rules for one read of a chain. \<open>v\<close> is the world the chain started in, so what the later
  calls see is stated on the one file the chain is about.
\<close>

lemma wp_from_io:
  "wp (from_io m) Q E \<longleftrightarrow> wp m Q (\<lambda>e. E (Io e))"
  by (cases m; cases "fst m") auto

lemma wp_on_reader:
  "wp (from_io (on_reader m (rd, w))) Q E \<longleftrightarrow>
     wp (from_io (m (sr_file rd, w))) (\<lambda>x (h, w). Q x (rd\<lparr>sr_file := h\<rparr>, w)) (\<lambda>e (h, w). E e (rd\<lparr>sr_file := h\<rparr>, w))"
  by (cases "m (sr_file rd, w)"; cases "fst (m (sr_file rd, w))") (auto simp: on_reader_def zoom_def wp_from_io)

lemma wp_on_iter:
  "wp (from_io (on_iter m (it, w))) Q E \<longleftrightarrow>
     wp (from_io (m (it_file it, w))) (\<lambda>x (h, w). Q x (it\<lparr>it_file := h\<rparr>, w)) (\<lambda>e (h, w). E e (it\<lparr>it_file := h\<rparr>, w))"
  by (cases "m (it_file it, w)"; cases "fst (m (it_file it, w))") (auto simp: on_iter_def zoom_def wp_from_io)

lemma quiet_faults: "quiet v w \<Longrightarrow> faults w \<noteq> [] \<Longrightarrow> faults v \<noteq> []"
  using quiet_same(7) by blast

lemma wp_read_exact:
  assumes q: "quiet v w"
    and ok: "\<And>h' w'. quiet v w' \<Longrightarrow> r_path h' = r_path h \<Longrightarrow> r_pos h' = r_pos h + n \<Longrightarrow>
      n \<noteq> 0 \<longrightarrow> r_pos h + n \<le> length (content v (r_path h)) \<Longrightarrow>
      Q (slice (r_pos h) (r_pos h + n) (content v (r_path h))) (h', w')"
    and err: "\<And>e h' w'. quiet v w' \<Longrightarrow> r_path h' = r_path h \<Longrightarrow>
      faults v \<noteq> [] \<or> length (content v (r_path h)) < r_pos h + n \<Longrightarrow> E (Io e) (h', w')"
  shows "wp (from_io (read_exact n (h, w))) Q E"
proof -
  obtain r h' w' where run: "read_exact n (h, w) = (r, h', w')" by (metis prod_cases3)
  note eff = read_exact_effect [OF run]
  have q': "quiet v w'" using q eff(1) by (rule quiet_trans)
  show ?thesis
  proof (cases r)
    case (Ok d)
    with q' eff(2) eff(4) [OF Ok] ok show ?thesis by (simp add: run wp_from_io quiet_same [OF q])
  next
    case (Err e)
    with eff(5) have "faults v \<noteq> [] \<or> length (content v (r_path h)) < r_pos h + n"
      using quiet_faults [OF q] by (force simp: quiet_same [OF q])
    with Err q' eff(2) err show ?thesis by (simp add: run wp_from_io)
  qed (use eff in simp)
qed

lemma wp_seek_start:
  assumes q: "quiet v w"
    and ok: "\<And>h' w'. quiet v w' \<Longrightarrow> r_path h' = r_path h \<Longrightarrow> r_pos h' = unat off \<Longrightarrow> unat off < 2 ^ 63 \<Longrightarrow> Q () (h', w')"
    and err: "\<And>e h' w'. quiet v w' \<Longrightarrow> r_path h' = r_path h \<Longrightarrow> faults v \<noteq> [] \<or> 2 ^ 63 \<le> unat off \<Longrightarrow> E (Io e) (h', w')"
  shows "wp (from_io (seek_start off (h, w))) Q E"
proof -
  obtain r h' w' where run: "seek_start off (h, w) = (r, h', w')" by (metis prod_cases3)
  note eff = seek_start_effect [OF run]
  have q': "quiet v w'" using q eff(1) by (rule quiet_trans)
  show ?thesis
  proof (cases r)
    case (Ok u)
    with q' eff(2,4) ok show ?thesis by (simp add: run wp_from_io)
  next
    case (Err e)
    with eff(5) have "faults v \<noteq> [] \<or> 2 ^ 63 \<le> unat off" using quiet_faults [OF q] by force
    with Err q' eff(2) err show ?thesis by (simp add: run wp_from_io)
  qed (use eff in simp)
qed

lemma wp_seek_current:
  assumes q: "quiet v w"
    and ok: "\<And>h' w'. quiet v w' \<Longrightarrow> r_path h' = r_path h \<Longrightarrow> r_pos h' = r_pos h + k \<Longrightarrow> Q () (h', w')"
    and err: "\<And>e h' w'. quiet v w' \<Longrightarrow> r_path h' = r_path h \<Longrightarrow> faults v \<noteq> [] \<Longrightarrow> E (Io e) (h', w')"
  shows "wp (from_io (seek_current k (h, w))) Q E"
proof -
  obtain r h' w' where run: "seek_current k (h, w) = (r, h', w')" by (metis prod_cases3)
  note eff = seek_current_effect [OF run]
  have q': "quiet v w'" using q eff(1) by (rule quiet_trans)
  show ?thesis
    using q' eff(2-5) ok err quiet_faults [OF q] by (cases r; simp add: run wp_from_io; metis)
qed

lemma wp_seek_end_back:
  assumes q: "quiet v w"
    and ok: "\<And>h' w'. quiet v w' \<Longrightarrow> r_path h' = r_path h \<Longrightarrow> k \<le> length (content v (r_path h)) \<Longrightarrow>
      r_pos h' = length (content v (r_path h)) - k \<Longrightarrow> Q () (h', w')"
    and err: "\<And>e h' w'. quiet v w' \<Longrightarrow> r_path h' = r_path h \<Longrightarrow>
      faults v \<noteq> [] \<or> length (content v (r_path h)) < k \<Longrightarrow> E (Io e) (h', w')"
  shows "wp (from_io (seek_end_back k (h, w))) Q E"
proof -
  obtain r h' w' where run: "seek_end_back k (h, w) = (r, h', w')" by (metis prod_cases3)
  note eff = seek_end_back_effect [OF run]
  have q': "quiet v w'" using q eff(1) by (rule quiet_trans)
  show ?thesis
  proof (cases r)
    case (Ok u)
    with q' eff(2,4) ok show ?thesis by (simp add: run wp_from_io quiet_same [OF q])
  next
    case (Err e)
    with eff(5) have "faults v \<noteq> [] \<or> length (content v (r_path h)) < k"
      using quiet_faults [OF q] by (force simp: quiet_same [OF q])
    with Err q' eff(2) err show ?thesis by (simp add: run wp_from_io)
  qed (use eff in simp)
qed

lemma wp_file_open:
  assumes q: "quiet v w"
    and ok: "\<And>w'. quiet v w' \<Longrightarrow> is_file v p \<Longrightarrow> Q \<lparr>r_path = p, r_pos = 0\<rparr> w'"
    and err: "\<And>e w'. quiet v w' \<Longrightarrow> faults v \<noteq> [] \<or> \<not> is_file v p \<Longrightarrow> E (Io e) w'"
  shows "wp (from_io (file_open p w)) Q E"
proof -
  obtain r w' where run: "file_open p w = (r, w')" by fastforce
  note eff = file_open_effect [OF run]
  have q': "quiet v w'" using q eff(1) by (rule quiet_trans)
  show ?thesis
  proof (cases r)
    case (Ok h)
    with q' eff(4) [OF Ok] ok show ?thesis by (simp add: run wp_from_io quiet_same [OF q])
  next
    case (Err e)
    with eff(3) have "faults v \<noteq> [] \<or> \<not> is_file v p"
      using quiet_faults [OF q] by (force simp: quiet_same [OF q])
    with Err q' err show ?thesis by (simp add: run wp_from_io)
  qed (use eff in simp)
qed

lemma wp_metadata_len:
  assumes q: "quiet v w"
    and ok: "\<And>w'. quiet v w' \<Longrightarrow> Q (length (content v p)) w'"
    and err: "\<And>e w'. quiet v w' \<Longrightarrow> faults v \<noteq> [] \<Longrightarrow> E (Io e) w'"
  shows "wp (from_io (metadata_len p w)) Q E"
proof -
  obtain r w' where run: "metadata_len p w = (r, w')" by fastforce
  note eff = metadata_len_effect [OF run]
  have q': "quiet v w'" using q metadata_len_quiet [OF run] by (rule quiet_trans)
  show ?thesis
  proof (cases r)
    case (Ok n)
    with q' eff(4) [OF Ok] ok show ?thesis by (simp add: run wp_from_io quiet_same [OF q])
  next
    case (Err e)
    with eff(5) quiet_faults [OF q] have "faults v \<noteq> []" by force
    with Err q' err show ?thesis by (simp add: run wp_from_io)
  qed (use eff in simp)
qed

subsection \<open>Reading what the builder wrote\<close>

text \<open>The limits of the format: lengths fit their fields and no value looks like a tombstone.\<close>

definition entry_fits :: "bytes \<times> memtable_entry \<Rightarrow> bool" where
  "entry_fits ke = (length (fst ke) < 2 ^ 32 \<and> length (val_bytes (snd ke)) < 2 ^ 32 - 1)"

definition sst_size :: "entries \<Rightarrow> nat" where
  "sst_size es = index_start es + length (index_block (index_from SST_HEADER_SIZE es)) + FOOTER_SIZE"

definition entries_fit :: "entries \<Rightarrow> bool" where
  "entries_fit es = ((\<forall>ke \<in> set es. entry_fits ke) \<and> sst_size es < 2 ^ 63)"

definition table_answer :: "memtable_entry option \<Rightarrow> bytes option result" where
  "table_answer found = (case found of None \<Rightarrow> Err KeyNotFound | Some e \<Rightarrow> Ok (entry_value e))"

definition table_file :: "entries \<Rightarrow> world \<Rightarrow> path \<Rightarrow> bool" where
  "table_file es w p \<longleftrightarrow> is_file w p \<and> (\<exists>crc. content w p = sst_bytes crc es) \<and> entries_fit es \<and> bt_inv es"

definition reader_holds :: "entries \<Rightarrow> world \<Rightarrow> sst_reader \<Rightarrow> bool" where
  "reader_holds es w rd \<longleftrightarrow> table_file es w (r_path (sr_file rd)) \<and>
     sr_index rd = index_from SST_HEADER_SIZE es \<and> sr_entry_count rd = of_nat (length es) \<and>
     sr_index_offset rd = of_nat (index_start es)"

lemma length_sst_bytes [simp]: "length (sst_bytes crc es) = sst_size es"
  by (simp add: sst_bytes_def sst_size_def index_start_def)

lemma index_start_bound: "index_start es + FOOTER_SIZE \<le> sst_size es"
  by (simp add: sst_size_def)

lemma quiet_table_file: "quiet w w' \<Longrightarrow> table_file es w' p = table_file es w p"
  by (simp add: table_file_def quiet_same)

lemma quiet_reader_holds: "quiet w w' \<Longrightarrow> reader_holds es w' rd = reader_holds es w rd"
  by (simp add: reader_holds_def quiet_table_file)

lemma index_from_get:
  "map_of (index_from n es) k = Some off \<Longrightarrow>
     \<exists>e pre post. es = pre @ (k, e) # post \<and> off = of_nat (n + length (data_block pre)) \<and> map_of es k = Some e"
proof (induction es arbitrary: n)
  case (Cons x es)
  show ?case
  proof (cases "fst x = k")
    case True
    with Cons.prems have "x # es = [] @ (k, snd x) # es \<and> off = of_nat (n + length (data_block [])) \<and>
      map_of (x # es) k = Some (snd x)" by (cases x) auto
    then show ?thesis by blast
  next
    case False
    with Cons.prems Cons.IH [of "n + length (data_entry x)"] obtain e pre post where
      "es = pre @ (k, e) # post" "off = of_nat (n + length (data_entry x) + length (data_block pre))" "map_of es k = Some e"
      by auto
    with False have "x # es = (x # pre) @ (k, e) # post \<and> off = of_nat (n + length (data_block (x # pre))) \<and>
      map_of (x # es) k = Some e" by (cases x) (auto simp: add.assoc)
    then show ?thesis by blast
  qed
qed simp

lemma index_from_None: "map_of (index_from n es) k = None \<longleftrightarrow> map_of es k = None"
  by (simp add: map_of_eq_None_iff flip: set_map)

lemma slice_mid: "a = length x \<Longrightarrow> b = a + length y \<Longrightarrow> slice a b (x @ y @ z) = y"
  by (simp add: slice_def)

lemma slice_u32_fields:
  "slice 0 4 (to_le_bytes (a :: u32) @ to_le_bytes (b :: u32)) = to_le_bytes a"
  "slice 4 8 (to_le_bytes a @ to_le_bytes b) = to_le_bytes b"
  by (simp_all add: slice_def)

text \<open>The bytes of an entry as the reader takes them apart.\<close>

lemma sst_bytes_at:
  assumes "es = pre @ (k, e) # post"
  defines "off \<equiv> SST_HEADER_SIZE + length (data_block pre)"
  shows "slice off (off + 8) (sst_bytes crc es) = to_le_bytes (of_nat (length k) :: u32) @ to_le_bytes (val_len_of e)"
    and "slice (off + 8) (off + 8 + length k) (sst_bytes crc es) = k"
    and "slice (off + 8 + length k) (off + 8 + length k + length (val_bytes e)) (sst_bytes crc es) = val_bytes e"
    and "off + 8 + length k + length (val_bytes e) \<le> index_start es"
proof -
  let ?hd = "sst_header (of_nat (length es)) @ data_block pre"
  let ?kv = "to_le_bytes (of_nat (length k) :: u32) @ to_le_bytes (val_len_of e)"
  let ?rest = "data_block post @ index_block (index_from SST_HEADER_SIZE es) @ sst_footer (of_nat (index_start es)) crc"
  have b: "sst_bytes crc es = ?hd @ ?kv @ k @ val_bytes e @ ?rest"
    by (simp add: sst_bytes_def assms data_entry_def)
  have off: "off = length ?hd" by (simp add: off_def)
  show "slice off (off + 8) (sst_bytes crc es) = ?kv" unfolding b by (rule slice_mid) (simp_all add: off)
  show "slice (off + 8) (off + 8 + length k) (sst_bytes crc es) = k"
    unfolding b using slice_mid [of "off + 8" "?hd @ ?kv" "off + 8 + length k" k] by (simp add: off)
  show "slice (off + 8 + length k) (off + 8 + length k + length (val_bytes e)) (sst_bytes crc es) = val_bytes e"
    unfolding b using slice_mid [of "off + 8 + length k" "?hd @ ?kv @ k" _ "val_bytes e"] by (simp add: off)
  show "off + 8 + length k + length (val_bytes e) \<le> index_start es"
    by (simp add: index_start_def assms length_data_entry)
qed

lemma entry_lengths:
  assumes "entry_fits (k, e)"
  shows "unat (of_nat (length k) :: u32) = length k"
    and "val_len_of e = TOMBSTONE_MARKER \<longleftrightarrow> e = Tombstone"
    and "e \<noteq> Tombstone \<Longrightarrow> unat (val_len_of e) = length (val_bytes e)"
    and "length k < 2 ^ 32" and "length (val_bytes e) < 2 ^ 32"
proof -
  show *: "unat (of_nat (length k) :: u32) = length k" "length k < 2 ^ 32" "length (val_bytes e) < 2 ^ 32"
    using assms by (auto simp: entry_fits_def unat_u32_of_nat)
  show un: "unat (val_len_of e) = length (val_bytes e)" if "e \<noteq> Tombstone"
    using that assms by (cases e) (auto simp: entry_fits_def unat_u32_of_nat)
  have "unat TOMBSTONE_MARKER = 2 ^ 32 - 1" by (simp add: TOMBSTONE_MARKER_def unsigned_minus_1_eq_mask mask_eq_exp_minus_1)
  then show "val_len_of e = TOMBSTONE_MARKER \<longleftrightarrow> e = Tombstone"
    using assms un by (cases e) (auto simp: entry_fits_def dest!: arg_cong [of _ TOMBSTONE_MARKER unat])
qed

lemma reader_get_answer:
  assumes holds: "reader_holds es w rd"
  shows "wp (reader_get key (rd, w))
     (\<lambda>x (rd', w'). quiet w w' \<and> reader_holds es w' rd' \<and> r_path (sr_file rd') = r_path (sr_file rd) \<and> table_answer (map_of es key) = Ok x)
     (\<lambda>e (rd', w'). quiet w w' \<and> reader_holds es w' rd' \<and> r_path (sr_file rd') = r_path (sr_file rd) \<and>
        (e = KeyNotFound \<and> map_of es key = None \<or> (\<exists>x. e = Io x) \<and> faults w \<noteq> [] \<and> map_of es key \<noteq> None))"
proof (cases "map_of es key")
  case None
  then have "bt_get (sr_index rd) key = None"
    using holds by (simp add: reader_holds_def bt_get_def index_from_None)
  with None holds show ?thesis by (simp add: reader_get_def)
next
  case (Some e)
  then obtain off where off: "bt_get (sr_index rd) key = Some off"
    using holds by (cases "bt_get (sr_index rd) key") (auto simp: reader_holds_def bt_get_def index_from_None)
  then obtain pre post where es: "es = pre @ (key, e) # post"
    and offn: "off = of_nat (SST_HEADER_SIZE + length (data_block pre))"
    using holds Some index_from_get [of SST_HEADER_SIZE es key off] by (auto simp: reader_holds_def bt_get_def)
  obtain crc where cont: "content w (r_path (sr_file rd)) = sst_bytes crc es"
    and fit: "entries_fit es" using holds by (auto simp: reader_holds_def table_file_def)
  have ef: "entry_fits (key, e)" using fit es by (simp add: entries_fit_def)
  define n where "n = SST_HEADER_SIZE + length (data_block pre)"
  note at = sst_bytes_at(1-3) [OF es, where crc = crc, folded n_def] sst_bytes_at(4) [OF es, folded n_def] and len = entry_lengths [OF ef]
  have bound: "index_start es \<le> sst_size es" using index_start_bound [of es] by simp
  have n: "unat off = n" "n < 2 ^ 63"
    using fit at(4) bound by (simp_all add: offn n_def [symmetric] entries_fit_def unat_u64_of_nat)
  have holds': "reader_holds es w' (rd\<lparr>sr_file := h\<rparr>)" if "quiet w w'" "r_path h = r_path (sr_file rd)" for w' h
    using holds that by (simp add: reader_holds_def quiet_table_file)
  have size: "n + 8 + length key + length (val_bytes e) \<le> sst_size es" using at(4) bound by simp
  note facts = wp_on_reader cont n at slice_u32_fields len Let_def Some table_answer_def add.assoc
  show ?thesis
    unfolding reader_get_def prod.case off option.case wp_andThen wp_on_reader
    apply (rule wp_seek_start [OF quiet_refl [of w]])
     apply (simp add: facts)
     apply (rule wp_read_exact, assumption)
      apply (simp add: facts)
      apply (rule wp_seek_current, assumption)
       apply (cases e)
        apply (simp add: facts)
        apply (rule wp_read_exact, assumption)
         apply (use size n(2) at(3) len(3) in \<open>auto simp: facts intro: holds'\<close>)+
    done
qed

text \<open>Loading the index gives back the entries of the index block, whatever the keys.\<close>

lemma index_block_simps [simp]:
  "index_block [] = []"
  "index_block (e # idx) = index_entry e @ index_block idx"
  by (simp_all add: index_block_def)

lemma parse_index_block:
  assumes "\<forall>ko \<in> set idx. length (fst ko) < 2 ^ 32"
  shows "parse_index (pre @ index_block idx) (length pre) acc = bt.insert_all idx acc"
  using assms
proof (induction idx arbitrary: pre acc)
  case Nil
  then show ?case by (simp add: parse_index.simps bt.insert_all_def)
next
  case (Cons ko idx)
  obtain k off where ko: "ko = (k, off)" by (cases ko)
  let ?e = "index_entry ko" and ?rest = "index_block idx"
  let ?d = "pre @ ?e @ ?rest"
  have e: "?e = to_le_bytes (of_nat (length k) :: u32) @ to_le_bytes off @ k" by (simp add: ko index_entry_def)
  have f1: "slice (length pre) (length pre + 4) ?d = to_le_bytes (of_nat (length k) :: u32)"
    unfolding e using slice_mid [of "length pre" pre _ "to_le_bytes (of_nat (length k) :: u32)"] by simp
  have f2: "slice (length pre + 4) (12 + length pre) ?d = to_le_bytes off"
    unfolding e using slice_mid [of _ "pre @ to_le_bytes (of_nat (length k) :: u32)" _ "to_le_bytes off"] by (simp add: add.commute)
  have f3: "slice (12 + length pre) (12 + length pre + length k) ?d = k"
    unfolding e using slice_mid [of _ "pre @ to_le_bytes (of_nat (length k) :: u32) @ to_le_bytes off" _ k] by (simp add: add.commute)
  have len: "unat (of_nat (length k) :: u32) = length k" using Cons.prems ko by (simp add: unat_u32_of_nat)
  have l: "length ?e = 12 + length k" by (simp add: e)
  have "parse_index ?d (length pre) acc = parse_index ?d (12 + length pre + length k) (bt_insert k off acc)"
    by (subst parse_index.simps) (simp add: f1 f2 f3 l len Let_def)
  also have "\<dots> = parse_index ((pre @ ?e) @ ?rest) (length (pre @ ?e)) (bt_insert k off acc)" by (simp add: l ac_simps)
  also have "\<dots> = bt.insert_all idx (bt_insert k off acc)" using Cons.prems by (intro Cons.IH) simp
  finally show ?case by (simp add: bt.insert_all_def ko)
qed

lemma bt_inv_index_from: "bt_inv (index_from n es) = bt_inv es"
  by (simp add: bt_inv_def)

lemma index_of_sorted:
  assumes "bt_inv idx"
  shows "bt.insert_all idx [] = idx"
proof -
  have inv: "bt_inv ([] :: ('a \<times> 'b) list)" by (rule bt.inv_empty)
  note res = bt.insert_all_inv_get [OF inv, of idx]
  have "distinct (map fst idx)" using bt.iter_distinct [OF assms] .
  then have "map_of (rev idx) = map_of idx"
    by (metis distinct_rev map_of_inject_set rev_map set_rev)
  then have "bt_get (bt.insert_all idx []) = bt_get idx"
    using res by (simp add: bt_get_def [abs_def] bt.get_empty [unfolded bt_get_def [abs_def]])
  with res assms show ?thesis by (intro bt.iter_determined) auto
qed

lemma parse_index_sst:
  assumes "entries_fit es" and "bt_inv es"
  shows "parse_index (index_block (index_from SST_HEADER_SIZE es)) 0 [] = index_from SST_HEADER_SIZE es"
proof -
  have "\<forall>ko \<in> set (index_from SST_HEADER_SIZE es). length (fst ko) < 2 ^ 32"
  proof
    fix ko assume "ko \<in> set (index_from SST_HEADER_SIZE es)"
    then have "fst ko \<in> set (map fst (index_from SST_HEADER_SIZE es))" by (metis imageI list.set_map)
    then have "fst ko \<in> fst ` set es" by (simp only: map_fst_index_from list.set_map)
    with assms(1) show "length (fst ko) < 2 ^ 32" by (auto simp: entries_fit_def entry_fits_def)
  qed
  from parse_index_block [OF this, of "[]" "[]"] assms(2) show ?thesis
    by (simp add: index_of_sorted bt_inv_index_from)
qed

text \<open>Opening a table the builder wrote.\<close>

lemma sst_bytes_header:
  "slice 0 4 (slice 0 SST_HEADER_SIZE (sst_bytes crc es)) = MAGIC"
  "slice 4 6 (slice 0 SST_HEADER_SIZE (sst_bytes crc es)) = to_le_bytes SST_VERSION"
  "slice 6 14 (slice 0 SST_HEADER_SIZE (sst_bytes crc es)) = to_le_bytes (of_nat (length es) :: u64)"
proof -
  have len: "length MAGIC = 4" by (simp add: MAGIC_def str_bytes_def)
  have h: "slice 0 SST_HEADER_SIZE (sst_bytes crc es) = MAGIC @ to_le_bytes SST_VERSION @ to_le_bytes (of_nat (length es) :: u64)"
    unfolding sst_header_def [symmetric] sst_bytes_def using slice_mid [of 0 "[]" SST_HEADER_SIZE "sst_header (of_nat (length es))"] by simp
  show "slice 0 4 (slice 0 SST_HEADER_SIZE (sst_bytes crc es)) = MAGIC"
    "slice 4 6 (slice 0 SST_HEADER_SIZE (sst_bytes crc es)) = to_le_bytes SST_VERSION"
    "slice 6 14 (slice 0 SST_HEADER_SIZE (sst_bytes crc es)) = to_le_bytes (of_nat (length es) :: u64)"
    unfolding h by (simp_all add: slice_def len)
qed

lemma sst_bytes_tail:
  "slice (index_start es) (sst_size es - FOOTER_SIZE) (sst_bytes crc es) = index_block (index_from SST_HEADER_SIZE es)"
  "slice 0 8 (slice (sst_size es - FOOTER_SIZE) (sst_size es) (sst_bytes crc es)) = to_le_bytes (of_nat (index_start es) :: u64)"
proof -
  let ?f = "sst_footer (of_nat (index_start es)) crc" and ?i = "index_block (index_from SST_HEADER_SIZE es)"
  let ?h = "sst_header (of_nat (length es)) @ data_block es"
  have b: "sst_bytes crc es = ?h @ ?i @ ?f" by (simp add: sst_bytes_def)
  have l: "length ?h = index_start es" by (simp add: index_start_def)
  show "slice (index_start es) (sst_size es - FOOTER_SIZE) (sst_bytes crc es) = ?i"
    unfolding b using l by (intro slice_mid) (simp_all add: sst_size_def)
  have "slice (sst_size es - FOOTER_SIZE) (sst_size es) ((?h @ ?i) @ ?f @ []) = ?f"
    using l by (intro slice_mid) (simp_all add: sst_size_def)
  then show "slice 0 8 (slice (sst_size es - FOOTER_SIZE) (sst_size es) (sst_bytes crc es)) = to_le_bytes (of_nat (index_start es) :: u64)"
    unfolding b by (simp add: sst_footer_def slice_def)
qed

lemma load_reader_answer:
  assumes tf: "table_file es w p" and h: "h = \<lparr>r_path = p, r_pos = 0\<rparr>"
  shows "wp (load_reader (of_nat (length (content w p))) (h, w))
     (\<lambda>rd (h', w'). quiet w w' \<and> reader_holds es w' rd \<and> r_path (sr_file rd) = p)
     (\<lambda>e (h', w'). quiet w w' \<and> (\<exists>x. e = Io x) \<and> faults w \<noteq> [])"
proof -
  obtain crc where cont: "content w p = sst_bytes crc es"
    and fit: "entries_fit es" and inv: "bt_inv es" using tf by (auto simp: table_file_def)
  have bound: "index_start es + FOOTER_SIZE \<le> sst_size es" "SST_HEADER_SIZE \<le> sst_size es" "sst_size es < 2 ^ 63"
    using index_start_bound fit by (auto simp: index_start_def sst_size_def entries_fit_def)
  have un: "unat (of_nat (index_start es) :: u64) = index_start es" "unat (of_nat (sst_size es) :: u64) = sst_size es"
    using bound by (auto intro!: unat_u64_of_nat)
  have eq: "(of_nat (sst_size es) - of_nat FOOTER_SIZE - of_nat (index_start es) :: u64) = of_nat (sst_size es - FOOTER_SIZE - index_start es)"
    using bound by (simp add: of_nat_diff)
  define m where "m = sst_size es - FOOTER_SIZE - index_start es"
  have idx: "unat (of_nat (sst_size es) - of_nat FOOTER_SIZE - of_nat (index_start es) :: u64) = m" "\<not> 2 ^ 63 \<le> m"
    unfolding eq m_def [symmetric] by (rule unat_u64_of_nat) (use bound in \<open>simp_all add: m_def\<close>)
  have rng: "index_start es + m = sst_size es - FOOTER_SIZE"
    "sst_size es - FOOTER_SIZE + FOOTER_SIZE = sst_size es" using bound by (simp_all add: m_def)
  have lim: "\<not> sst_size es < sst_size es - FOOTER_SIZE" "\<not> sst_size es < SST_HEADER_SIZE" "\<not> sst_size es < FOOTER_SIZE"
    "\<not> 9223372036854775808 \<le> index_start es"
    using bound by simp_all
  note facts = lim cont un idx idx(2) [simplified] sst_bytes_header sst_bytes_tail parse_index_sst [OF fit inv] Let_def rng
  show ?thesis
    unfolding load_reader_def wp_andThen h
    apply (rule wp_read_exact [OF quiet_refl [of w]])
     apply (simp add: facts)
     apply (rule wp_seek_end_back, assumption)
      apply (rule wp_read_exact, assumption)
       apply (simp add: facts)
       apply (rule wp_seek_start, assumption)
        apply (simp add: facts)
        apply (rule wp_read_exact, assumption)
         apply (simp add: facts)
         apply (rule wp_seek_start, assumption)
          apply (simp_all add: facts reader_holds_def quiet_table_file tf)
    done
qed

lemma reader_open_answer:
  assumes tf: "table_file es w p"
  shows "wp (reader_open p w) (\<lambda>rd w'. quiet w w' \<and> reader_holds es w' rd \<and> r_path (sr_file rd) = p)
     (\<lambda>e w'. quiet w w' \<and> (\<exists>x. e = Io x) \<and> faults w \<noteq> [])"
proof -
  have load: "wp (case load_reader (of_nat (length (content w p))) (\<lparr>r_path = p, r_pos = 0\<rparr>, v) of (r, h, w) \<Rightarrow> (r, w))
      (\<lambda>rd w'. quiet w w' \<and> reader_holds es w' rd \<and> r_path (sr_file rd) = p)
      (\<lambda>e w'. quiet w w' \<and> (\<exists>x. e = Io x) \<and> faults w \<noteq> [])" if q: "quiet w v" for v
  proof -
    obtain r h w' where run: "load_reader (of_nat (length (content w p))) (\<lparr>r_path = p, r_pos = 0\<rparr>, v) = (r, h, w')"
      by (metis prod_cases3)
    have "table_file es v p" using q tf by (simp add: quiet_table_file)
    from load_reader_answer [OF this refl] run
    have "wp (r, h, w') (\<lambda>rd (h', w'). quiet v w' \<and> reader_holds es w' rd \<and> r_path (sr_file rd) = p)
        (\<lambda>e (h', w'). quiet v w' \<and> (\<exists>x. e = Io x) \<and> faults v \<noteq> [])" by (simp add: quiet_same [OF q])
    then show ?thesis using quiet_trans [OF q] quiet_faults [OF q] by (auto simp: run wp_iff)
  qed
  show ?thesis
    unfolding reader_open_def wp_andThen
    apply (rule wp_file_open [OF quiet_refl [of w]])
     apply (rule wp_metadata_len, assumption)
      apply (erule load)
    using tf by (auto simp: table_file_def)
qed

lemma reader_holds_frame:
  assumes "reader_holds es w rd" and "frame P w w'" and "r_path (sr_file rd) \<notin> P"
  shows "reader_holds es w' rd"
  using assms by (auto simp: reader_holds_def table_file_def frame_content is_file_def frame_lookup)

lemma might_contain_complete:
  assumes "reader_holds es w rd" and "map_of es key \<noteq> None"
  shows "reader_might_contain rd key"
proof -
  have "bt_inv (sr_index rd)" "bt_get (sr_index rd) key \<noteq> None"
    using assms by (auto simp: reader_holds_def table_file_def bt_inv_index_from bt_get_def index_from_None)
  then show ?thesis
    by (rule bt_key_bounds) (simp add: reader_might_contain_def reader_min_key_def reader_max_key_def)
qed

subsection \<open>Iterating over a table\<close>

text \<open>\<open>iter_at pre es\<close>: the iterator is on the table \<open>es\<close> and has passed the entries \<open>pre\<close>.\<close>

definition iter_at :: "entries \<Rightarrow> entries \<Rightarrow> world \<Rightarrow> sst_iter \<Rightarrow> bool" where
  "iter_at pre es w it \<longleftrightarrow> table_file es w (r_path (it_file it)) \<and>
     r_pos (it_file it) = SST_HEADER_SIZE + length (data_block pre) \<and>
     it_offset it = of_nat (SST_HEADER_SIZE + length (data_block pre)) \<and>
     end_offset it = of_nat (index_start es)"

lemma reader_iter_at:
  assumes holds: "reader_holds es w rd"
  shows "wp (reader_iter (rd, w)) (\<lambda>it (rd', w'). quiet w w' \<and> iter_at [] es w' it)
     (\<lambda>e (rd', w'). quiet w w' \<and> (\<exists>x. e = Io x) \<and> faults w \<noteq> [])"
proof -
  obtain r h w' where run: "seek_start (of_nat SST_HEADER_SIZE) (sr_file rd, w) = (r, h, w')" by (metis prod_cases3)
  have un: "unat (of_nat SST_HEADER_SIZE :: u64) = SST_HEADER_SIZE" by (simp add: SST_HEADER_SIZE_def)
  note eff = seek_start_effect [OF run, unfolded un]
  have small: "SST_HEADER_SIZE < 2 ^ 63" by (simp add: SST_HEADER_SIZE_def)
  show ?thesis
    using eff holds small
    by (cases r) (auto simp: reader_iter_def zoom_def iterator_new_def run iter_at_def reader_holds_def quiet_table_file)
qed

lemma iterator_next_end:
  assumes "iter_at es es w it"
  shows "iterator_next (it, w) = (None, it, w)"
  using assms by (simp add: iter_at_def iterator_next_def index_start_def)

lemma iterator_next_entry:
  assumes at: "iter_at pre (pre @ (k, e) # post) w it"
  shows "\<exists>r it' w'. iterator_next (it, w) = (Some r, it', w') \<and>
    wp (r, it', w')
      (\<lambda>x (it', w'). quiet w w' \<and> x = (k, entry_value e) \<and> iter_at (pre @ [(k, e)]) (pre @ (k, e) # post) w' it')
      (\<lambda>err (it', w'). quiet w w' \<and> (\<exists>x. err = Io x) \<and> faults w \<noteq> [])"
proof -
  define es where "es = pre @ (k, e) # post"
  define n where "n = SST_HEADER_SIZE + length (data_block pre)"
  obtain crc where cont: "content w (r_path (it_file it)) = sst_bytes crc es"
    and fit: "entries_fit es" and tf: "table_file es w (r_path (it_file it))"
    using at by (auto simp: iter_at_def table_file_def es_def)
  have pos: "r_pos (it_file it) = n" "it_offset it = of_nat n" "end_offset it = of_nat (index_start es)"
    using at by (simp_all add: iter_at_def n_def es_def)
  have ef: "entry_fits (k, e)" using fit by (simp add: entries_fit_def es_def)
  note at' = sst_bytes_at(1-3) [OF es_def, where crc = crc, folded n_def] sst_bytes_at(4) [OF es_def, folded n_def]
    and len = entry_lengths [OF ef]
  have bound: "n + 8 + length k + length (val_bytes e) \<le> sst_size es" "index_start es < 2 ^ 63"
    using at'(4) index_start_bound [of es] fit by (simp_all add: entries_fit_def)
  have "\<not> (of_nat (index_start es) :: u64) \<le> of_nat n"
    using at'(4) bound by (simp add: word_le_nat_alt unat_u64_of_nat)
  then have step: "iterator_next (it, w) = (case iterator_step (it, w) of (r, s) \<Rightarrow> (Some r, s))"
    by (simp add: iterator_next_def pos)
  have n': "SST_HEADER_SIZE + length (data_block (pre @ [(k, e)])) = n + 8 + length k + length (val_bytes e)"
    by (simp add: n_def length_data_entry)
  note facts = wp_on_iter cont pos at' slice_u32_fields len Let_def iter_at_def n' quiet_table_file tf
  have "wp (iterator_step (it, w))
      (\<lambda>x (it', w'). quiet w w' \<and> x = (k, entry_value e) \<and> iter_at (pre @ [(k, e)]) es w' it')
      (\<lambda>err (it', w'). quiet w w' \<and> (\<exists>x. err = Io x) \<and> faults w \<noteq> [])"
    unfolding iterator_step_def wp_andThen wp_on_iter
    apply (rule wp_read_exact [OF quiet_refl [of w]])
     apply (simp add: facts)
     apply (rule wp_read_exact, assumption)
      apply (cases e)
       apply (simp add: facts)
       apply (rule wp_read_exact, assumption)
        apply (simp_all add: facts)
        apply (use bound(1) at'(3) in \<open>simp_all add: n_def length_data_entry ac_simps\<close>)
    done
  then show ?thesis
    unfolding step es_def by (cases "iterator_step (it, w)") (auto split: prod.splits)
qed

text \<open>A \<open>for\<close> loop over the iterator, at most \<open>fuel\<close> rounds.\<close>

fun iterator_run :: "nat \<Rightarrow> sst_iter \<times> world \<Rightarrow> (bytes \<times> bytes option) result list \<times> sst_iter \<times> world" where
  "iterator_run 0 s = ([], s)"
| "iterator_run (Suc fuel) s = (case iterator_next s of
     (None, s) \<Rightarrow> ([], s)
   | (Some r, s) \<Rightarrow> (case iterator_run fuel s of (rs, s) \<Rightarrow> (r # rs, s)))"

lemma iterator_run_all:
  assumes "iter_at pre (pre @ post) w it" and "faults w = []" and "length post < fuel"
  shows "fst (iterator_run fuel (it, w)) = map (\<lambda>(k, e). Ok (k, entry_value e)) post"
  using assms
proof (induction post arbitrary: pre it w fuel)
  case Nil
  then show ?case by (cases fuel) (auto simp: iterator_next_end)
next
  case (Cons ke post)
  obtain k e where ke: "ke = (k, e)" by (cases ke)
  obtain n where fuel: "fuel = Suc n" using Cons.prems(3) by (cases fuel) auto
  from iterator_next_entry [OF Cons.prems(1) [unfolded ke]] obtain r it' w' where
    run: "iterator_next (it, w) = (Some r, it', w')" and
    post: "wp (r, it', w')
      (\<lambda>x (it', w'). quiet w w' \<and> x = (k, entry_value e) \<and> iter_at (pre @ [(k, e)]) (pre @ (k, e) # post) w' it')
      (\<lambda>err (it', w'). quiet w w' \<and> (\<exists>x. err = Io x) \<and> faults w \<noteq> [])" by blast
  have nx: "quiet w w'" "r = Ok (k, entry_value e)" "iter_at (pre @ [(k, e)]) (pre @ (k, e) # post) w' it'"
    using post Cons.prems(2) by (cases r; simp)+
  have "fst (iterator_run n (it', w')) = map (\<lambda>(k, e). Ok (k, entry_value e)) post"
    using nx Cons.prems(2,3) fuel by (intro Cons.IH [of "pre @ [(k, e)]"]) (auto simp: quiet_same)
  with nx run show ?case by (cases "iterator_run n (it', w')") (simp add: fuel ke)
qed



subsection \<open>Properties\<close>

text \<open>A small table on a small disk, for the witnesses.\<close>

definition demo_entries :: entries where
  "demo_entries = [([1], Tombstone), ([2], Value [7])]"

definition demo_disk :: world where
  "demo_disk = \<lparr>fs = [([''d''], DirNode), ([''d'', ''t''], FileNode (sst_bytes 0 demo_entries) [])],
     faults = [], now = Some 5\<rparr>"

lemma demo_table: "table_file demo_entries demo_disk [''d'', ''t'']"
proof -
  have "entries_fit demo_entries"
    by (simp add: entries_fit_def entry_fits_def demo_entries_def sst_size_def index_start_def SST_HEADER_SIZE_def
        FOOTER_SIZE_def length_data_entry index_entry_def)
  moreover have "bt_inv demo_entries" by (simp add: demo_entries_def bt_inv_def)
  ultimately show ?thesis by (auto simp: table_file_def is_file_def lookup_def demo_disk_def content_def)
qed

lemma demo_reader: "\<exists>rd w. reader_open [''d'', ''t''] demo_disk = (Ok rd, w) \<and> reader_holds demo_entries w rd \<and> faults w = []"
proof -
  obtain r w where run: "reader_open [''d'', ''t''] demo_disk = (r, w)" by fastforce
  have "faults demo_disk = []" by (simp add: demo_disk_def)
  then show ?thesis
    using reader_open_answer [OF demo_table, unfolded run] run by (cases r) (auto simp: quiet_same)
qed

text \<open>A lookup in a table answers its entry for the key: the value, nothing for a tombstone,
  \<open>KeyNotFound\<close> for a key the table does not have. Otherwise it is an input/output error the
  operating system reported, and then the reader can still be used.\<close>

lemma reader_get_spec:
  assumes "reader_holds es w rd"
  shows "case reader_get key (rd, w) of (r, rd', w') \<Rightarrow> reader_holds es w' rd' \<and> fs w' = fs w \<and>
    (r = table_answer (map_of es key) \<or> faults w \<noteq> [] \<and> (\<exists>x. r = Err (Io x)))"
proof -
  obtain r rd' w' where run: "reader_get key (rd, w) = (r, rd', w')" by (metis prod_cases3)
  from reader_get_answer [OF assms, of key, unfolded run] show ?thesis
    by (cases r) (auto simp: run table_answer_def quiet_same split: option.splits)
qed

text \<open>C38: The iterator returns the entries of the table in order, each once, and then ends.\<close>

theorem iterator_lists_table:
  assumes "reader_holds es w rd" and "faults w = []" and "reader_iter (rd, w) = (r, rd', w')"
  shows "\<exists>it. r = Ok it \<and>
    fst (iterator_run (Suc (length es)) (it, w')) = map (\<lambda>(k, e). Ok (k, entry_value e)) es"
proof -
  from reader_iter_at [OF assms(1)] assms(2,3) obtain it where
    it: "r = Ok it" "quiet w w'" "iter_at [] es w' it" by (cases r) auto
  have "fst (iterator_run (Suc (length es)) (it, w')) = map (\<lambda>(k, e). Ok (k, entry_value e)) es"
    using iterator_run_all [of "[]" es w' it "Suc (length es)"] it assms(2) by (simp add: quiet_same)
  with it(1) show ?thesis by blast
qed

theorem iterator_lists_table_witness:
  "\<exists>it w. fst (iterator_run 3 (it, w)) = [Ok ([1], None), Ok ([2], Some [7])]"
proof -
  obtain rd w where *: "reader_holds demo_entries w rd" "faults w = []" using demo_reader by blast
  obtain r rd' w' where "reader_iter (rd, w) = (r, rd', w')" by (metis prod_cases3)
  from iterator_lists_table [OF * this] show ?thesis by (auto simp: demo_entries_def numeral_3_eq_3)
qed

text \<open>The range check never rejects a key that the table has.\<close>

lemma might_contain_no_false_negative:
  assumes "reader_holds es w rd" and "\<not> reader_might_contain rd key"
  shows "map_of es key = None"
  using might_contain_complete [OF assms(1)] assms(2) by blast

text \<open>A file that is long enough but does not start with the magic bytes, or has another version, is
  rejected with the message that names what was found.\<close>

lemma reader_open_rejects:
  assumes "faults w = []" and "is_file w p" and "SST_HEADER_SIZE \<le> length (content w p)"
  shows "(take 4 (content w p) \<noteq> MAGIC \<longrightarrow> fst (reader_open p w) =
      Err (Storage (''Invalid SSTable magic: expected ATKV, got '' @ show_bytes (take 4 (content w p))))) \<and>
    (take 4 (content w p) = MAGIC \<longrightarrow> (from_le_bytes (slice 4 6 (content w p)) :: u16) \<noteq> SST_VERSION \<longrightarrow>
      fst (reader_open p w) = Err (Storage (''Unsupported SSTable version: '' @
        show_dec (unat (from_le_bytes (slice 4 6 (content w p)) :: u16)))))"
proof -
  let ?c = "content w p"
  have rd: "read_exact SST_HEADER_SIZE (\<lparr>r_path = p, r_pos = 0\<rparr>, w) =
      (Ok (take SST_HEADER_SIZE ?c), \<lparr>r_path = p, r_pos = SST_HEADER_SIZE\<rparr>, w)"
    using assms(1,3) by (simp add: read_exact_no_faults slice_0)
  have sl: "slice 0 4 (take SST_HEADER_SIZE ?c) = take 4 ?c" "slice 4 6 (take SST_HEADER_SIZE ?c) = slice 4 6 ?c"
    by (simp_all add: slice_def SST_HEADER_SIZE_def drop_take min_def)
  show ?thesis
    using assms(1,2) by (auto simp: reader_open_def io_simps load_reader_def rd sl Let_def)
qed

end
