(* ===== verification/Layers.thy ===== *)
theory Layers
  imports SSTable_Reader
begin

section \<open>Searching a stack of tables (src/src/storage/manager.rs)\<close>

text \<open>
  Several tables, newest first: the newest one that has the key decides. \<open>merged\<close> is the map
  such a stack denotes. The locale \<open>layered_search\<close> is the interface of one table (what its
  lookup and its range check promise) together with the loop over the tables; the answer of the
  loop is proved here from the interface.
\<close>

primrec merged :: "('l \<Rightarrow> entries) \<Rightarrow> 'l list \<Rightarrow> bytes \<rightharpoonup> memtable_entry" where
  "merged f [] = Map.empty"
| "merged f (l # ls) = merged f ls ++ map_of (f l)"

definition live :: "memtable_entry option \<Rightarrow> bytes option" where
  "live found = Option.bind found entry_value"

lemma live_simps [simp]: "live None = None" "live (Some (Value v)) = Some v" "live (Some Tombstone) = None"
  by (simp_all add: live_def)

locale layered_search =
  fixes entries_of :: "'l \<Rightarrow> entries"
    and holds :: "'w \<Rightarrow> 'l \<Rightarrow> 't \<Rightarrow> bool"
    and might :: "'t \<Rightarrow> bytes \<Rightarrow> bool"
    and look :: "bytes \<Rightarrow> 't \<times> 'w \<Rightarrow> bytes option result \<times> 't \<times> 'w"
    and calm :: "'w \<Rightarrow> 'w \<Rightarrow> bool"
    and faulty :: "'w \<Rightarrow> bool"
    and find :: "bytes \<Rightarrow> 't list \<times> 'w \<Rightarrow> bytes option result \<times> 't list \<times> 'w"
  assumes calm_refl: "calm w w"
    and calm_trans: "calm u v \<Longrightarrow> calm v w \<Longrightarrow> calm u w"
    and calm_holds: "calm w w' \<Longrightarrow> holds w l t \<Longrightarrow> holds w' l t"
    and calm_faulty: "calm w w' \<Longrightarrow> faulty w' \<Longrightarrow> faulty w"
    and might_complete: "holds w l t \<Longrightarrow> map_of (entries_of l) key \<noteq> None \<Longrightarrow> might t key"
    and look_answer: "holds w l t \<Longrightarrow>
      wp (look key (t, w))
        (\<lambda>x (t', w'). calm w w' \<and> holds w' l t' \<and> table_answer (map_of (entries_of l) key) = Ok x)
        (\<lambda>e (t', w'). calm w w' \<and> holds w' l t' \<and>
           (e = KeyNotFound \<and> map_of (entries_of l) key = None \<or> (\<exists>x. e = Io x) \<and> faulty w))"
    and find_Nil: "find key ([], w) = (Ok None, [], w)"
    and find_skip: "\<not> might t key \<Longrightarrow>
      find key (t # ts, w) = (case find key (ts, w) of (r, ts, w) \<Rightarrow> (r, t # ts, w))"
    and find_try: "might t key \<Longrightarrow> look key (t, w) = (r, t', w') \<Longrightarrow>
      find key (t # ts, w) = (if r = Err KeyNotFound then (case find key (ts, w') of (r, ts, w) \<Rightarrow> (r, t' # ts, w))
        else (r, t' # ts, w'))"
begin

lemma rest_holds:
  "calm w w' \<Longrightarrow> list_all2 (holds w) ls ts \<Longrightarrow> list_all2 (holds w') ls ts"
  by (erule list_all2_mono) (rule calm_holds)

lemma find_answer:
  assumes "list_all2 (holds w) ls ts"
  shows "wp (find key (ts, w))
     (\<lambda>x (ts', w'). calm w w' \<and> list_all2 (holds w') ls ts' \<and> x = live (merged entries_of ls key))
     (\<lambda>e (ts', w'). calm w w' \<and> list_all2 (holds w') ls ts' \<and> (\<exists>x. e = Io x) \<and> faulty w)"
  using assms
proof (induction ls arbitrary: ts w)
  case Nil
  then show ?case by (simp add: find_Nil calm_refl live_def)
next
  case (Cons l ls)
  then obtain t ts' where ts: "ts = t # ts'" and hd: "holds w l t" and tl: "list_all2 (holds w) ls ts'"
    by (auto simp: list_all2_Cons1)
  let ?m = "map_of (entries_of l)"
  have onward: "wp (case find key (ts', w1) of (r, ts, w) \<Rightarrow> (r, t1 # ts, w))
     (\<lambda>x (ts', w'). calm w w' \<and> list_all2 (holds w') (l # ls) ts' \<and> x = live (merged entries_of (l # ls) key))
     (\<lambda>e (ts', w'). calm w w' \<and> list_all2 (holds w') (l # ls) ts' \<and> (\<exists>x. e = Io x) \<and> faulty w)"
    if c: "calm w w1" and h: "holds w1 l t1" and none: "?m key = None" for w1 t1
  proof -
    obtain r us v where f: "find key (ts', w1) = (r, us, v)" by (metis prod_cases3)
    from Cons.IH [OF rest_holds [OF c tl]] show ?thesis
      using c h calm_trans [OF c] calm_holds calm_faulty [OF c]
      by (auto simp: f wp_iff none map_add_def)
  qed
  show ?case
  proof (cases "might t key")
    case False
    then have "?m key = None" using might_complete [OF hd] by blast
    from onward [OF calm_refl hd this] False show ?thesis by (simp add: ts find_skip)
  next
    case True
    obtain r t1 w1 where lk: "look key (t, w) = (r, t1, w1)" by (metis prod_cases3)
    note ans = look_answer [OF hd, of key, unfolded lk]
    show ?thesis
    proof (cases "r = Err KeyNotFound")
      case nf: True
      with ans have "calm w w1" "holds w1 l t1" "?m key = None" by auto
      from onward [OF this] nf True lk show ?thesis by (simp add: ts find_try)
    next
      case False
      with ans rest_holds [OF _ tl] show ?thesis
        by (cases r) (auto simp: ts find_try [OF True lk] table_answer_def live_def map_add_def split: option.splits)
    qed
  qed
qed

end

end
