(* ===== verification/Storage_Manager.thy ===== *)
theory Storage_Manager
  imports Layers
begin

section \<open>Storage manager (src/src/storage/manager.rs)\<close>

text \<open>
  \<open>StorageManager\<close>: the SSTables of a directory, newest first. Definitions: discovery at
  startup (\<open>storage_open\<close> with the parsing of file names), lookup through the tables
  (\<open>storage_get\<close>), flushing a memtable into a new table (\<open>storage_flush\<close>). The \<open>RwLock\<close> of
  the list is not poisoned by a panic, so the list is plain state. The lemmas: a lookup answers
  from the newest table that has the key; a flush puts one layer in front; reopening a directory
  finds the same layers; a failed flush leaves every older table readable.

  The search is proved from an interface, \<open>layered_search\<close>, of what one table promises.
\<close>

record storage_manager =
  storage_data_dir :: path
  sstables :: "sst_reader list"
  next_sstable_id :: u64

subsection \<open>File names\<close>

definition sstable_path_with_dir :: "path \<Rightarrow> u64 \<Rightarrow> path" where
  "sstable_path_with_dir dir i = dir @ [''sstable_'' @ pad_left CHR ''0'' 6 (show_dec (unat i)) @ ''.sst'']"

definition sstable_path :: "storage_manager \<Rightarrow> u64 \<Rightarrow> path" where
  "sstable_path sm i = sstable_path_with_dir (storage_data_dir sm) i"

text \<open>\<open>Path::file_stem\<close>: the name up to its last dot, unless that dot starts it.\<close>

definition stem_of :: "string \<Rightarrow> string" where
  "stem_of name =
     (let ext = takeWhile (\<lambda>c. c \<noteq> CHR ''.'') (rev name);
          stem = take (length name - length ext - 1) name
      in if CHR ''.'' \<notin> set name \<or> stem = [] then name else stem)"

definition file_stem :: "path \<Rightarrow> string option" where
  "file_stem p = (if p = [] then None else Some (stem_of (last p)))"

definition strip_prefix :: "string \<Rightarrow> string \<Rightarrow> string option" where
  "strip_prefix pre s = (if take (length pre) s = pre then Some (drop (length pre) s) else None)"

definition digit_of :: "char \<Rightarrow> nat option" where
  "digit_of c = (let n = of_char c :: nat in if 48 \<le> n \<and> n \<le> 57 then Some (n - 48) else None)"

fun parse_digits :: "nat \<Rightarrow> string \<Rightarrow> nat option" where
  "parse_digits acc [] = Some acc"
| "parse_digits acc (c # cs) = (case digit_of c of
     None \<Rightarrow> None
   | Some d \<Rightarrow> if 10 * acc + d < 2 ^ 64 then parse_digits (10 * acc + d) cs else None)"

text \<open>\<open>str::parse::<u64>\<close>: an optional plus sign, then at least one digit, no overflow.\<close>

fun parse_u64 :: "string \<Rightarrow> u64 option" where
  "parse_u64 [] = None"
| "parse_u64 (c # cs) =
     (let ds = (if c = CHR ''+'' \<and> cs \<noteq> [] then cs else c # cs) in map_option of_nat (parse_digits 0 ds))"

definition parse_sstable_id :: "path \<Rightarrow> u64 option" where
  "parse_sstable_id p = Option.bind (file_stem p) (\<lambda>name.
     Option.bind (strip_prefix ''sstable_'' name) parse_u64)"

subsection \<open>Opening\<close>

text \<open>\<open>Path::is_file\<close> answers \<open>false\<close> when the operating system fails.\<close>

definition path_is_file :: "path \<Rightarrow> world \<Rightarrow> bool \<times> world" where
  "path_is_file p w = (case syscall w of
     (Ok _, w) \<Rightarrow> (is_file w p, w)
   | (_, w) \<Rightarrow> (False, w))"

fun discover :: "path list \<Rightarrow> world \<Rightarrow> u64 list result \<times> world" where
  "discover [] w = (Ok [], w)"
| "discover (p # ps) w = andThen (from_io (syscall w)) (\<lambda>_ w.
     case path_is_file p w of (isf, w) \<Rightarrow>
     andThen (discover ps w) (\<lambda>ids w.
       (Ok (if isf then (case parse_sstable_id p of Some i \<Rightarrow> i # ids | None \<Rightarrow> ids) else ids), w)))"

fun open_readers :: "path \<Rightarrow> u64 list \<Rightarrow> world \<Rightarrow> sst_reader list result \<times> world" where
  "open_readers dir [] w = (Ok [], w)"
| "open_readers dir (i # ids) w =
     andThen (reader_open (sstable_path_with_dir dir i) w) (\<lambda>rd w.
     andThen (open_readers dir ids w) (\<lambda>rds w. (Ok (rd # rds), w)))"

definition next_id_after :: "u64 list \<Rightarrow> u64" where
  "next_id_after ids = (case ids of [] \<Rightarrow> 1 | i # _ \<Rightarrow> i + 1)"

definition storage_open :: "path \<Rightarrow> world \<Rightarrow> storage_manager result \<times> world" where
  "storage_open dir w =
     andThen (from_io (create_dir_all dir w)) (\<lambda>_ w.
     andThen (from_io (read_dir dir w)) (\<lambda>listing w.
     andThen (discover listing w) (\<lambda>found w.
     let sstable_ids = rev (sort found) in
     andThen (open_readers dir sstable_ids w) (\<lambda>rds w.
       (Ok \<lparr>storage_data_dir = dir, sstables = rds, next_sstable_id = next_id_after sstable_ids\<rparr>, w)))))"

subsection \<open>Lookup\<close>

fun search :: "bytes \<Rightarrow> sst_reader list \<times> world \<Rightarrow> bytes option result \<times> sst_reader list \<times> world" where
  "search key ([], w) = (Ok None, [], w)"
| "search key (rd # rds, w) =
     (if \<not> reader_might_contain rd key then
        (case search key (rds, w) of (r, rds, w) \<Rightarrow> (r, rd # rds, w))
      else (case reader_get key (rd, w) of
        (Ok (Some v), rd, w) \<Rightarrow> (Ok (Some v), rd # rds, w)
      | (Ok None, rd, w) \<Rightarrow> (Ok None, rd # rds, w)
      | (Err KeyNotFound, rd, w) \<Rightarrow> (case search key (rds, w) of (r, rds, w) \<Rightarrow> (r, rd # rds, w))
      | (Err e, rd, w) \<Rightarrow> (Err e, rd # rds, w)
      | (Panic, rd, w) \<Rightarrow> (Panic, rd # rds, w)))"

definition storage_get :: "bytes \<Rightarrow> storage_manager \<times> world \<Rightarrow> bytes option result \<times> storage_manager \<times> world" where
  "storage_get key = zoom sstables (\<lambda>rds sm. sm\<lparr>sstables := rds\<rparr>) (search key)"

subsection \<open>Flush\<close>

definition builder_add_entry :: "'h libs \<Rightarrow> bytes \<times> memtable_entry \<Rightarrow> 'h builder \<times> world \<Rightarrow>
    unit result \<times> 'h builder \<times> world" where
  "builder_add_entry L ke s = (case snd ke of
     Value v \<Rightarrow> builder_add L (fst ke) v s
   | Tombstone \<Rightarrow> builder_add_tombstone L (fst ke) s)"

fun builder_add_all :: "'h libs \<Rightarrow> entries \<Rightarrow> 'h builder \<times> world \<Rightarrow> unit result \<times> 'h builder \<times> world" where
  "builder_add_all L [] s = (Ok (), s)"
| "builder_add_all L (ke # es) s = andThen (builder_add_entry L ke s) (\<lambda>_. builder_add_all L es)"

text \<open>The file of the new table; the builder is dropped when an entry cannot be written.\<close>

definition write_table :: "'h libs \<Rightarrow> path \<Rightarrow> entries \<Rightarrow> world \<Rightarrow> sstable result \<times> world" where
  "write_table L p es w = andThen (builder_new L p w) (\<lambda>b w.
     case builder_add_all L es (b, w) of
       (Ok _, b, w) \<Rightarrow> builder_finish L (b, w)
     | (Err e, b, w) \<Rightarrow> (Err e, drop_writer (b_writer b, w))
     | (Panic, b, w) \<Rightarrow> (Panic, drop_writer (b_writer b, w)))"

definition storage_flush :: "'h libs \<Rightarrow> memtable \<Rightarrow> storage_manager \<times> world \<Rightarrow>
    sstable result \<times> storage_manager \<times> world" where
  "storage_flush L mt = (\<lambda>(sm, w).
     if memtable_is_empty mt then (Err (Storage ''Cannot flush empty MemTable''), sm, w)
     else
       let i = next_sstable_id sm; sm = sm\<lparr>next_sstable_id := i + 1\<rparr>; p = sstable_path sm i in
       case andThen (write_table L p (memtable_iter mt) w) (\<lambda>metadata w.
         andThen (reader_open p w) (\<lambda>rd w. (Ok (metadata, rd), w)))
       of (Ok (metadata, rd), w) \<Rightarrow> (Ok metadata, sm\<lparr>sstables := rd # sstables sm\<rparr>, w)
        | (Err e, w) \<Rightarrow> (Err e, sm, w)
        | (Panic, w) \<Rightarrow> (Panic, sm, w))"

definition sstable_count :: "storage_manager \<Rightarrow> nat" where
  "sstable_count sm = length (sstables sm)"

definition manager_data_dir :: "storage_manager \<Rightarrow> path" where
  "manager_data_dir sm = storage_data_dir sm"

definition manager_next_sstable_id :: "storage_manager \<Rightarrow> u64" where
  "manager_next_sstable_id sm = next_sstable_id sm"

text \<open>\<open>compact\<close> is a \<open>todo!\<close>: it panics, and nothing calls it.\<close>

definition manager_compact :: "storage_manager \<Rightarrow> unit result" where
  "manager_compact sm = Panic"

subsection \<open>File names: the parser reads what the formatter writes\<close>

lemma stem_of_dot_ext: "x \<noteq> [] \<Longrightarrow> CHR ''.'' \<notin> set e \<Longrightarrow> stem_of (x @ CHR ''.'' # e) = x"
proof -
  assume "x \<noteq> []" "CHR ''.'' \<notin> set e"
  moreover from this(2) have "takeWhile (\<lambda>c. c \<noteq> CHR ''.'') (rev e @ CHR ''.'' # rev x) = rev e"
    by (subst takeWhile_append2) auto
  ultimately show ?thesis by (simp add: stem_of_def)
qed

lemma digit_of_digit_char: "d < 10 \<Longrightarrow> digit_of (digit_char d) = Some d"
  by (simp add: digit_of_def digit_char_def)

lemma parse_digits_append:
  "parse_digits acc (xs @ ys) = Option.bind (parse_digits acc xs) (\<lambda>a. parse_digits a ys)"
  by (induction acc xs rule: parse_digits.induct) (auto split: option.splits)

lemma parse_digits_zeros: "parse_digits 0 (replicate k CHR ''0'' @ s) = parse_digits 0 s"
  by (induction k) (auto simp: digit_of_def)

lemma parse_digits_show: "n < 2 ^ 64 \<Longrightarrow> parse_digits 0 (show_dec n) = Some n"
  unfolding show_dec_def
proof (induction "10 :: nat" n rule: show_base.induct)
  case (1 n)
  show ?case
  proof (cases "n < 10")
    case True
    then show ?thesis using 1(2) by (simp add: show_base.simps [of 10 n] digit_of_digit_char)
  next
    case False
    then have "parse_digits 0 (show_base 10 (n div 10)) = Some (n div 10)" using 1 by simp
    with False 1(2) show ?thesis
      by (simp add: show_base.simps [of 10 n] parse_digits_append digit_of_digit_char)
  qed
qed

lemma parse_u64_digits:
  "parse_digits 0 s = Some n \<Longrightarrow> s \<noteq> [] \<Longrightarrow> parse_u64 s = Some (of_nat n)"
  by (cases s) (auto simp: digit_of_def split: if_splits)

lemma show_dec_nonempty: "show_dec n \<noteq> []"
  by (simp add: show_dec_def show_base.simps [of 10 n])

lemma parse_sstable_path: "parse_sstable_id (sstable_path_with_dir dir i) = Some i"
proof -
  let ?ds = "pad_left CHR ''0'' 6 (show_dec (unat i))"
  have "parse_digits 0 ?ds = Some (unat i)"
    by (simp only: pad_left_def parse_digits_zeros parse_digits_show [OF u64_bound])
  then have "parse_u64 ?ds = Some i"
    using parse_u64_digits [of ?ds "unat i"] by (simp add: pad_left_def show_dec_nonempty)
  moreover have "stem_of (''sstable_'' @ ?ds @ ''.sst'') = ''sstable_'' @ ?ds"
    using stem_of_dot_ext [of "''sstable_'' @ ?ds" "''sst''"] by simp
  ultimately show ?thesis
    by (simp add: parse_sstable_id_def file_stem_def sstable_path_with_dir_def strip_prefix_def)
qed

lemma sstable_path_inj [simp]:
  "sstable_path_with_dir dir i = sstable_path_with_dir dir j \<longleftrightarrow> i = j"
  by (metis option.inject parse_sstable_path)

lemma butlast_sstable_path [simp]:
  "butlast (sstable_path_with_dir dir i) = dir" "sstable_path_with_dir dir i \<noteq> []"
  by (simp_all add: sstable_path_with_dir_def)

subsection \<open>Lookup in the storage manager\<close>

definition layer_holds :: "path \<Rightarrow> world \<Rightarrow> u64 \<times> entries \<Rightarrow> sst_reader \<Rightarrow> bool" where
  "layer_holds dir w l rd \<longleftrightarrow> reader_holds (snd l) w rd \<and> r_path (sr_file rd) = sstable_path_with_dir dir (fst l)"

interpretation sst: layered_search snd "layer_holds dir" reader_might_contain reader_get quiet "\<lambda>w. faults w \<noteq> []" search
  for dir
proof unfold_locales
  show "quiet u v \<Longrightarrow> quiet v w \<Longrightarrow> quiet u w" for u v w by (rule quiet_trans)
  show "quiet w w' \<Longrightarrow> layer_holds dir w l rd \<Longrightarrow> layer_holds dir w' l rd" for w w' l rd
    by (simp add: layer_holds_def quiet_reader_holds)
  show "quiet w w' \<Longrightarrow> faults w' \<noteq> [] \<Longrightarrow> faults w \<noteq> []" for w w' by (rule quiet_faults)
  show "layer_holds dir w l rd \<Longrightarrow> map_of (snd l) key \<noteq> None \<Longrightarrow> reader_might_contain rd key" for w l rd key
    by (auto simp: layer_holds_def intro: might_contain_complete)
  show "wp (reader_get key (rd, w))
      (\<lambda>x (rd', w'). quiet w w' \<and> layer_holds dir w' l rd' \<and> table_answer (map_of (snd l) key) = Ok x)
      (\<lambda>e (rd', w'). quiet w w' \<and> layer_holds dir w' l rd' \<and>
         (e = KeyNotFound \<and> map_of (snd l) key = None \<or> (\<exists>x. e = Io x) \<and> faults w \<noteq> []))"
    if "layer_holds dir w l rd" for w l rd key
    using reader_get_answer [of "snd l" w rd key] that unfolding layer_holds_def
    by (auto elim!: wp_mono)
  show "search key (rd # rds, w) =
      (if r = Err KeyNotFound then (case search key (rds, w') of (r, rds, w) \<Rightarrow> (r, rd' # rds, w)) else (r, rd' # rds, w'))"
    if "reader_might_contain rd key" and "reader_get key (rd, w) = (r, rd', w')" for rd key w r rd' w' rds
    using that by (auto split: outcome.splits option.splits atlas_error.splits)
qed (simp_all add: quiet_refl)

text \<open>The manager keeps the layers \<open>ls\<close>, newest first, in files with descending numbers.\<close>

definition storage_holds :: "(u64 \<times> entries) list \<Rightarrow> storage_manager \<Rightarrow> world \<Rightarrow> bool" where
  "storage_holds ls sm w \<longleftrightarrow>
     list_all2 (layer_holds (storage_data_dir sm) w) ls (sstables sm) \<and>
     sorted_wrt (\<lambda>a b. b < a) (map fst ls) \<and> (\<forall>l \<in> set ls. fst l < next_sstable_id sm)"

lemma storage_holds_quiet: "storage_holds ls sm w \<Longrightarrow> quiet w w' \<Longrightarrow> storage_holds ls sm w'"
  by (auto simp: storage_holds_def intro: sst.rest_holds)

lemma storage_get_answer:
  assumes "storage_holds ls sm w"
  shows "wp (storage_get key (sm, w))
     (\<lambda>x (sm', w'). quiet w w' \<and> storage_holds ls sm' w' \<and> x = live (merged snd ls key) \<and>
        sm' = sm\<lparr>sstables := sstables sm'\<rparr>)
     (\<lambda>e (sm', w'). quiet w w' \<and> storage_holds ls sm' w' \<and> (\<exists>x. e = Io x) \<and> faults w \<noteq> [] \<and>
        sm' = sm\<lparr>sstables := sstables sm'\<rparr>)"
proof -
  obtain r rds w' where s: "search key (sstables sm, w) = (r, rds, w')" by (metis prod_cases3)
  have "list_all2 (layer_holds (storage_data_dir sm) w) ls (sstables sm)" using assms by (simp add: storage_holds_def)
  from sst.find_answer [OF this, of key] assms show ?thesis
    by (cases r) (auto simp: storage_get_def zoom_def s storage_holds_def)
qed

subsection \<open>Flush\<close>

lemma builder_add_entry_eq: "builder_add_entry L ke s = write_entry L (fst ke) (entry_value (snd ke)) s"
  by (cases "snd ke") (simp_all add: builder_add_entry_def builder_add_def builder_add_tombstone_def)

lemma builder_add_all_holds:
  assumes "builder_holds L ds b w" and "builder_add_all L es (b, w) = (r, b', w')"
  shows "frame {b_path b} w w' \<and> same_names w w' \<and> b_path b' = b_path b \<and> (faults w = [] \<longrightarrow> r = Ok ()) \<and>
    r \<noteq> Panic \<and> seq_writer (b_writer b') w' \<and> bw_path (b_writer b') = b_path b \<and>
    (r = Ok () \<longrightarrow> builder_holds L (ds @ es) b' w')"
  using assms
proof (induction es arbitrary: ds b w)
  case Nil
  then show ?case by (auto simp: builder_holds_def)
next
  case (Cons ke es)
  obtain k e where ke: "ke = (k, e)" by (cases ke)
  obtain r1 b1 w1 where s1: "write_entry L k (entry_value e) (b, w) = (r1, b1, w1)" by (metis prod_cases3)
  note eff = write_entry_holds [OF Cons.prems(1) s1]
  show ?case
  proof (cases "r1 = Ok ()")
    case True
    with Cons.prems(2) have "builder_add_all L es (b1, w1) = (r, b', w')"
      by (simp add: builder_add_entry_eq ke s1)
    from Cons.IH [OF eff(8) [OF True] this] eff show ?thesis
      by (auto simp: ke intro: frame_trans_same same_names_trans dest: frame_no_faults)
  next
    case False
    then obtain x where "r1 = Err x" using eff(5) by (cases r1) auto
    with Cons.prems(2) have "r = Err x" "b' = b1" "w' = w1" by (auto simp: builder_add_entry_eq ke s1)
    with eff False show ?thesis by auto
  qed
qed

definition can_create :: "world \<Rightarrow> path \<Rightarrow> bool" where
  "can_create w p \<longleftrightarrow> is_file w p \<or> \<not> exists_path w p \<and> lookup w (butlast p) = Some DirNode"

text \<open>The names of the files after \<open>p\<close> was created or overwritten.\<close>

definition file_added :: "path \<Rightarrow> world \<Rightarrow> world \<Rightarrow> bool" where
  "file_added p w w' \<longleftrightarrow> map fst (fs w') = (if exists_path w p then map fst (fs w) else map fst (fs w) @ [p])"

lemma write_table_result:
  assumes run: "write_table L p es w = (r, w')"
  shows "frame {p} w w' \<and> r \<noteq> Panic \<and> (faults w = [] \<longrightarrow> can_create w p \<longrightarrow> (\<exists>t. r = Ok t)) \<and>
    (\<forall>t. r = Ok t \<longrightarrow> table_written L p es w' t \<and> file_added p w w')"
proof -
  obtain r1 w1 where s1: "builder_new L p w = (r1, w1)" by fastforce
  note e1 = builder_new_effect [OF s1]
  show ?thesis
  proof (cases r1)
    case (Ok b)
    from e1(3) [OF Ok] have hold: "builder_holds L [] b w1" and bp: "b_path b = p" and nm: "file_added p w w1"
      by (auto simp: file_added_def)
    obtain r2 b2 w2 where s2: "builder_add_all L es (b, w1) = (r2, b2, w2)" by (metis prod_cases3)
    from builder_add_all_holds [OF hold s2]
    have e2: "frame {p} w1 w2" "same_names w1 w2" "b_path b2 = p" "faults w1 = [] \<Longrightarrow> r2 = Ok ()" "r2 \<noteq> Panic"
      "seq_writer (b_writer b2) w2" "bw_path (b_writer b2) = p" "r2 = Ok () \<Longrightarrow> builder_holds L es b2 w2"
      by (auto simp: bp)
    have f2: "frame {p} w w2" using e1(1) e2(1) by (rule frame_trans_same)
    show ?thesis
    proof (cases "r2 = Ok ()")
      case True
      then have fin: "builder_finish L (b2, w2) = (r, w')" using run s1 s2 Ok by (simp add: write_table_def)
      note e3 = builder_finish_effect [OF e2(8) [OF True] fin, unfolded e2(3)]
      have "frame {p} w w'" using f2 e3(1) by (rule frame_trans_same)
      moreover have "map fst (fs w') = map fst (fs w1)" using e2(2) e3(2) by (simp add: same_names_def)
      moreover have "faults w = [] \<Longrightarrow> faults w2 = []" using frame_no_faults [OF f2] .
      ultimately show ?thesis using e3(3-5) nm by (auto simp: file_added_def)
    next
      case False
      then obtain x where x: "r2 = Err x" using e2(5) by (cases r2) auto
      then have "r = Err x" "w' = drop_writer (b_writer b2, w2)" using run s1 s2 Ok by (auto simp: write_table_def)
      with drop_writer_effect(1) [OF e2(6)] e2(4,7) f2 x frame_no_faults [OF e1(1)] show ?thesis
        by (auto intro: frame_trans_same)
    qed
  next
    case (Err x)
    then have "r = Err x" "w' = w1" using run s1 by (auto simp: write_table_def)
    with e1 Err show ?thesis by (auto simp: can_create_def)
  qed (use e1 in simp)
qed

lemma table_written_file: "table_written L p es w t \<Longrightarrow> bt_inv es \<Longrightarrow> entries_fit es \<Longrightarrow> table_file es w p"
  by (auto simp: table_written_def table_file_def)

lemma write_table_effect:
  assumes "write_table L p es w = (r, w')"
  shows "frame {p} w w'" and "r \<noteq> Panic" and "faults w = [] \<Longrightarrow> can_create w p \<Longrightarrow> \<exists>t. r = Ok t"
    and "\<And>t. r = Ok t \<Longrightarrow> table_written L p es w' t \<and> file_added p w w'"
  using write_table_result [OF assms] by blast+

text \<open>A change of other files leaves the layers as they are.\<close>

lemma storage_holds_frame:
  assumes holds: "storage_holds ls sm w" and fr: "frame {sstable_path sm i} w w'"
    and i: "next_sstable_id sm \<le> i"
  shows "storage_holds ls sm w'"
proof -
  let ?d = "storage_data_dir sm"
  have "list_all2 (layer_holds ?d w') ls (sstables sm)"
  proof (rule list.rel_mono_strong)
    show "list_all2 (layer_holds ?d w) ls (sstables sm)" using holds by (simp add: storage_holds_def)
  next
    fix l rd assume l: "l \<in> set ls" "layer_holds ?d w l rd"
    then have "fst l \<noteq> i" using holds i by (auto simp: storage_holds_def)
    with l(2) fr show "layer_holds ?d w' l rd"
      by (auto simp: layer_holds_def sstable_path_def intro: reader_holds_frame)
  qed
  with holds show ?thesis by (simp add: storage_holds_def)
qed

lemma storage_holds_other:
  assumes holds: "storage_holds ls sm w" and fr: "frame {p} w w'" and p: "\<forall>i. p \<noteq> sstable_path sm i"
  shows "storage_holds ls sm w'"
proof -
  have "layer_holds (storage_data_dir sm) w' l rd" if "layer_holds (storage_data_dir sm) w l rd" for l rd
    using that fr p by (auto simp: layer_holds_def sstable_path_def intro: reader_holds_frame)
  with holds show ?thesis unfolding storage_holds_def by (metis list_all2_mono)
qed

definition next_free :: "storage_manager \<Rightarrow> bool" where
  "next_free sm \<longleftrightarrow> unat (next_sstable_id sm) + 1 < 2 ^ 64"

lemma next_free_less: "next_free sm \<Longrightarrow> next_sstable_id sm < next_sstable_id sm + 1"
  by (auto simp: next_free_def word_less_nat_alt unat_word_ariths)

lemma storage_holds_bump:
  "storage_holds ls sm w \<Longrightarrow> next_free sm \<Longrightarrow> storage_holds ls (sm\<lparr>next_sstable_id := next_sstable_id sm + 1\<rparr>) w"
  using next_free_less [of sm] by (auto simp: storage_holds_def intro: order.strict_trans)

lemma storage_holds_push:
  assumes "storage_holds ls sm w" and "next_free sm" and "reader_holds es w rd"
    and "r_path (sr_file rd) = sstable_path sm (next_sstable_id sm)"
  shows "storage_holds ((next_sstable_id sm, es) # ls)
     (sm\<lparr>next_sstable_id := next_sstable_id sm + 1, sstables := rd # sstables sm\<rparr>) w"
  using assms next_free_less [of sm]
  by (auto simp: storage_holds_def layer_holds_def sstable_path_def intro: order.strict_trans)

text \<open>A new table in front of the others, and the reader that is opened on it.\<close>

lemma flush_write_and_open:
  assumes holds: "storage_holds ls sm w" and free: "next_free sm"
    and inv: "mem_inv mt" and fit: "entries_fit (memtable_iter mt)"
    and table: "write_table L p es w = (Ok meta, w1)" and rd: "reader_open p w1 = (r, w2)"
    and p: "p = sstable_path sm (next_sstable_id sm)" and es: "es = memtable_iter mt"
  shows "quiet w1 w2" and "r \<noteq> Panic" and "faults w1 = [] \<Longrightarrow> \<exists>rd. r = Ok rd" and "storage_holds ls sm w2" and "table_file es w2 p"
    and "\<And>rd. r = Ok rd \<Longrightarrow> storage_holds ((next_sstable_id sm, es) # ls)
      (sm\<lparr>next_sstable_id := next_sstable_id sm + 1, sstables := rd # sstables sm\<rparr>) w2"
proof -
  note e1 = write_table_effect [OF table]
  have tf: "table_file es w1 p"
    using e1(4) fit inv by (intro table_written_file) (auto simp: es memtable_iter_def mem_inv_def)
  note ans = reader_open_answer [OF tf, unfolded rd]
  show q: "quiet w1 w2" using ans by (cases r) auto
  show "r \<noteq> Panic" "faults w1 = [] \<Longrightarrow> \<exists>rd. r = Ok rd" using ans by (cases r; auto)+
  have "storage_holds ls sm w1" using storage_holds_frame [OF holds, of "next_sstable_id sm" w1] e1(1) by (simp add: p)
  then show h2: "storage_holds ls sm w2" by (rule storage_holds_quiet [OF _ q])
  show "table_file es w2 p" using tf q by (simp add: quiet_table_file)
  show "storage_holds ((next_sstable_id sm, es) # ls)
      (sm\<lparr>next_sstable_id := next_sstable_id sm + 1, sstables := rd # sstables sm\<rparr>) w2" if "r = Ok rd" for rd
    using storage_holds_push [OF h2 free, of es rd] ans that by (simp add: p)
qed

lemma storage_flush_result:
  assumes holds: "storage_holds ls sm w" and free: "next_free sm"
    and inv: "mem_inv mt" and fit: "entries_fit (memtable_iter mt)" and some: "\<not> memtable_is_empty mt"
    and run: "storage_flush L mt (sm, w) = (r, sm', w')"
  defines "i \<equiv> next_sstable_id sm" and "p \<equiv> sstable_path sm (next_sstable_id sm)" and "es \<equiv> memtable_iter mt"
  shows "frame {p} w w' \<and> r \<noteq> Panic \<and> storage_data_dir sm' = storage_data_dir sm \<and> next_sstable_id sm' = i + 1 \<and>
    (faults w = [] \<longrightarrow> can_create w p \<longrightarrow> (\<exists>t. r = Ok t)) \<and>
    (\<forall>e. r = Err e \<longrightarrow> storage_holds ls sm' w' \<and> sstables sm' = sstables sm) \<and>
    (\<forall>t. r = Ok t \<longrightarrow> storage_holds ((i, es) # ls) sm' w' \<and> durable w' p = content w' p \<and>
       table_file es w' p \<and> file_added p w w' \<and> sst_entry_count t = of_nat (length es))"
proof -
  let ?sm = "sm\<lparr>next_sstable_id := i + 1\<rparr>"
  have run': "(case andThen (write_table L p es w) (\<lambda>metadata w.
         andThen (reader_open p w) (\<lambda>rd w. (Ok (metadata, rd), w)))
       of (Ok (metadata, rd), w) \<Rightarrow> (Ok metadata, ?sm\<lparr>sstables := rd # sstables ?sm\<rparr>, w)
        | (Err e, w) \<Rightarrow> (Err e, ?sm, w)
        | (Panic, w) \<Rightarrow> (Panic, ?sm, w)) = (r, sm', w')"
    using run some unfolding storage_flush_def Let_def p_def i_def es_def by (simp add: sstable_path_def)
  obtain r1 w1 where s1: "write_table L p es w = (r1, w1)" by fastforce
  note e1 = write_table_effect [OF s1]
  have bump: "storage_holds ls ?sm v" if "storage_holds ls sm v" for v
    using storage_holds_bump [OF that free] by (simp add: i_def)
  show ?thesis
  proof (cases r1)
    case (Ok meta)
    obtain r2 w2 where s2: "reader_open p w1 = (r2, w2)" by fastforce
    note e2 = flush_write_and_open [OF holds free inv fit s1 [unfolded Ok] s2 meta_eq_to_obj_eq [OF p_def] meta_eq_to_obj_eq [OF es_def],
        folded i_def]
    have fr: "frame {p} w w2" using e1(1) quiet_frame [OF e2(1)] by (blast intro: frame_trans_same)
    show ?thesis
    proof (cases r2)
      case rd: (Ok rd)
      with run' s1 s2 Ok have "r = Ok meta" "w' = w2" "sm' = ?sm\<lparr>sstables := rd # sstables sm\<rparr>" by auto
      with fr e1(4) [OF Ok] e2(5) e2(6) [OF rd] show ?thesis
        by (simp add: quiet_same [OF e2(1)] table_written_def file_added_def)
    next
      case (Err e)
      with run' s1 s2 Ok have "r = Err e" "w' = w2" "sm' = ?sm" by auto
      with fr e2(3) Err bump [OF e2(4)] frame_no_faults [OF e1(1)] show ?thesis by auto
    qed (use e2(2) in simp)
  next
    case (Err e)
    with run' s1 have "r = Err e" "w' = w1" "sm' = ?sm" by auto
    moreover have "storage_holds ls sm w1" using storage_holds_frame [OF holds, of i w1] e1(1) by (simp add: p_def i_def)
    ultimately show ?thesis using e1(1,3) Err bump by auto
  qed (use e1 in simp)
qed

lemma storage_flush_effect:
  assumes "storage_holds ls sm w" and "next_free sm" and "mem_inv mt" and "entries_fit (memtable_iter mt)"
    and "\<not> memtable_is_empty mt" and "storage_flush L mt (sm, w) = (r, sm', w')"
  defines "i \<equiv> next_sstable_id sm" and "p \<equiv> sstable_path sm (next_sstable_id sm)" and "es \<equiv> memtable_iter mt"
  shows "frame {p} w w'" and "r \<noteq> Panic" and "storage_data_dir sm' = storage_data_dir sm" and "next_sstable_id sm' = i + 1"
    and "faults w = [] \<Longrightarrow> can_create w p \<Longrightarrow> \<exists>t. r = Ok t"
    and "\<And>e. r = Err e \<Longrightarrow> storage_holds ls sm' w' \<and> sstables sm' = sstables sm"
    and "\<And>t. r = Ok t \<Longrightarrow> storage_holds ((i, es) # ls) sm' w' \<and> durable w' p = content w' p \<and>
       table_file es w' p \<and> file_added p w w' \<and> sst_entry_count t = of_nat (length es)"
  unfolding i_def p_def es_def using storage_flush_result [OF assms(1-6)] by blast+

subsection \<open>Reopening a directory\<close>

text \<open>Creating directories adds the missing ones and changes nothing else.\<close>

definition dirs_made :: "path \<Rightarrow> world \<Rightarrow> world \<Rightarrow> bool" where
  "dirs_made dir w w' \<longleftrightarrow>
     (\<forall>q. lookup w' q = (if lookup w q = None \<and> q \<noteq> [] \<and> prefix q dir then Some DirNode else lookup w q)) \<and>
     (distinct (map fst (fs w)) \<longrightarrow> distinct (map fst (fs w'))) \<and> faults w' = faults w \<and> now w' = now w"

lemma distinct_set_node: "distinct (map fst (fs w)) \<Longrightarrow> distinct (map fst (fs (set_node p n w)))"
  by (simp add: set_node_def distinct_update)

lemma make_dirs_effect:
  "lookup (make_dirs base cs w) q =
     (if lookup w q = None \<and> (\<exists>c. c \<noteq> [] \<and> prefix c cs \<and> q = base @ c) then Some DirNode else lookup w q) \<and>
   (distinct (map fst (fs w)) \<longrightarrow> distinct (map fst (fs (make_dirs base cs w)))) \<and>
   faults (make_dirs base cs w) = faults w \<and> now (make_dirs base cs w) = now w"
proof (induction base cs w rule: make_dirs.induct)
  case (1 base w)
  then show ?case by simp
next
  case (2 base c cs w)
  let ?w = "case lookup w (base @ [c]) of None \<Rightarrow> set_node (base @ [c]) DirNode w | Some n \<Rightarrow> w"
  have split: "(\<exists>d. d \<noteq> [] \<and> prefix d (c # cs) \<and> q = base @ d) \<longleftrightarrow>
      q = base @ [c] \<or> (\<exists>d. d \<noteq> [] \<and> prefix d cs \<and> q = (base @ [c]) @ d)" for q
    by (auto simp: prefix_Cons)
  show ?case
    using 2 by (cases "lookup w (base @ [c])") (auto simp: split distinct_set_node)
qed

lemma create_dir_all_effect:
  assumes "faults w = []" and "\<And>q. prefix q dir \<Longrightarrow> \<not> is_file w q"
  obtains w' where "create_dir_all dir w = (Ok (), w')" and "dirs_made dir w w'"
proof
  show "create_dir_all dir w = (Ok (), make_dirs [] dir w)"
    using assms by (auto simp: create_dir_all_def io_simps)
  show "dirs_made dir w (make_dirs [] dir w)"
    unfolding dirs_made_def using make_dirs_effect [of "[]" dir w] by simp
qed

lemma dirs_made_files:
  assumes "dirs_made dir w w'"
  shows "is_file w' q = is_file w q" and "content w' q = content w q" and "durable w' q = durable w q"
    and "faults w' = faults w" and "now w' = now w"
  using assms by (auto simp: dirs_made_def is_file_def content_def durable_def)

definition disk_tables :: "path \<Rightarrow> (u64 \<times> entries) list \<Rightarrow> world \<Rightarrow> bool" where
  "disk_tables dir ls w \<longleftrightarrow> distinct (map fst (fs w)) \<and> (\<forall>q. prefix q dir \<longrightarrow> \<not> is_file w q) \<and>
     sorted_wrt (\<lambda>a b. b < a) (map fst ls) \<and>
     (\<forall>l \<in> set ls. table_file (snd l) w (sstable_path_with_dir dir (fst l))) \<and>
     (\<forall>p i. is_file w p \<longrightarrow> p \<noteq> [] \<longrightarrow> butlast p = dir \<longrightarrow> parse_sstable_id p = Some i \<longrightarrow>
        i \<in> fst ` set ls \<and> p = sstable_path_with_dir dir i)"

lemma disk_tables_dirs_made:
  assumes "disk_tables dir ls w" and "dirs_made dir' w w'"
  shows "disk_tables dir ls w'"
  using assms dirs_made_files [OF assms(2)]
  by (simp add: disk_tables_def table_file_def dirs_made_def)

definition id_of :: "world \<Rightarrow> path \<Rightarrow> u64 list" where
  "id_of w p = (if is_file w p then (case parse_sstable_id p of Some i \<Rightarrow> [i] | None \<Rightarrow> []) else [])"

lemma id_of_eq:
  "is_file w q \<Longrightarrow> parse_sstable_id q = Some i \<Longrightarrow> id_of w q = [i]"
  "\<not> is_file w q \<Longrightarrow> id_of w q = []"
  "parse_sstable_id q = None \<Longrightarrow> id_of w q = []"
  by (simp_all add: id_of_def)

lemma id_of_mem: "i \<in> set (id_of w q) \<longleftrightarrow> is_file w q \<and> parse_sstable_id q = Some i"
  by (cases "is_file w q"; cases "parse_sstable_id q") (auto simp: id_of_eq)

lemma discover_no_faults:
  "faults w = [] \<Longrightarrow> discover ps w = (Ok (concat (map (id_of w) ps)), w)"
  by (induction ps) (auto simp: io_simps path_is_file_def id_of_def split: option.splits)

lemma discover_finds:
  assumes disk: "disk_tables dir ls w" and names: "set ps = {p \<in> set (map fst (fs w)). p \<noteq> [] \<and> butlast p = dir}"
    and dist: "distinct ps"
  shows "rev (sort (concat (map (id_of w) ps))) = map fst ls"
proof -
  let ?found = "concat (map (id_of w) ps)"
  have origin: "i \<in> fst ` set ls \<and> q = sstable_path_with_dir dir i" if "q \<in> set ps" "i \<in> set (id_of w q)" for q i
    using disk that names unfolding disk_tables_def id_of_mem by blast
  have mem: "set ?found = fst ` set ls"
  proof
    show "set ?found \<subseteq> fst ` set ls"
      using origin by auto
    show "fst ` set ls \<subseteq> set ?found"
    proof
      fix i assume "i \<in> fst ` set ls"
      then have f: "is_file w (sstable_path_with_dir dir i)"
        using disk by (auto simp: disk_tables_def table_file_def)
      then have "sstable_path_with_dir dir i \<in> set (map fst (fs w))"
        by (auto simp: is_file_lookup lookup_def dest: map_of_SomeD intro: rev_image_eqI)
      then have "sstable_path_with_dir dir i \<in> set ps" unfolding names by simp
      then show "i \<in> set ?found" using f by (auto simp: id_of_mem parse_sstable_path intro!: bexI)
    qed
  qed
  have "distinct ?found"
  proof -
    have "distinct (concat (map (id_of w) qs))" if "set qs \<subseteq> set ps" "distinct qs" for qs
      using that
    proof (induction qs)
      case (Cons q qs)
      have "i \<notin> set (concat (map (id_of w) qs))" if i: "i \<in> set (id_of w q)" for i
      proof
        assume "i \<in> set (concat (map (id_of w) qs))"
        then obtain q' where q': "q' \<in> set qs" "i \<in> set (id_of w q')" by auto
        have "q = sstable_path_with_dir dir i" "q' = sstable_path_with_dir dir i"
          using origin i q' Cons.prems(1) by auto
        with q'(1) Cons.prems(2) show False by simp
      qed
      moreover have "distinct (id_of w q)" by (simp add: id_of_def split: option.split)
      ultimately show ?case using Cons by auto
    qed simp
    from this [of ps] dist show ?thesis by simp
  qed
  moreover have "sorted_wrt (<) (rev (map fst ls))" using disk by (simp only: disk_tables_def sorted_wrt_rev)
  then have "sorted (rev (map fst ls))" "distinct (rev (map fst ls))" by (simp_all only: strict_sorted_iff)
  ultimately have "sort ?found = rev (map fst ls)"
    using mem by (intro sorted_distinct_set_unique) auto
  then show ?thesis by simp
qed

lemma open_readers_holds:
  assumes "faults w = []" and "\<forall>l \<in> set ls. table_file (snd l) w (sstable_path_with_dir dir (fst l))"
  shows "\<exists>rds w'. open_readers dir (map fst ls) w = (Ok rds, w') \<and> quiet w w' \<and> list_all2 (layer_holds dir w') ls rds"
  using assms
proof (induction ls arbitrary: w)
  case Nil
  then show ?case by auto
next
  case (Cons l ls)
  let ?p = "sstable_path_with_dir dir (fst l)"
  have tf: "table_file (snd l) w ?p" using Cons.prems by simp
  obtain r w1 where o: "reader_open ?p w = (r, w1)" by fastforce
  from reader_open_answer [OF tf, unfolded o] Cons.prems(1) obtain rd where
    rd: "r = Ok rd" "quiet w w1" "reader_holds (snd l) w1 rd" "r_path (sr_file rd) = ?p" by (cases r) auto
  obtain rds w2 where rest: "open_readers dir (map fst ls) w1 = (Ok rds, w2)" "quiet w1 w2"
      "list_all2 (layer_holds dir w2) ls rds"
    using Cons.IH [of w1] Cons.prems rd(2) by (auto simp: quiet_same quiet_table_file)
  have "layer_holds dir w2 l rd" using rd rest(2) by (simp add: layer_holds_def quiet_reader_holds)
  with rest rd o show ?case by (auto intro: quiet_trans)
qed

definition ids_free :: "(u64 \<times> entries) list \<Rightarrow> bool" where
  "ids_free ls \<longleftrightarrow> (ls \<noteq> [] \<longrightarrow> unat (fst (hd ls)) + 1 < 2 ^ 64)"

lemma next_id_after_bound:
  assumes "sorted_wrt (\<lambda>a b. b < a) (map fst ls)" and "ids_free ls" and "l \<in> set ls"
  shows "fst l < next_id_after (map fst ls)"
proof (cases ls)
  case (Cons k ks)
  have "fst k < fst k + 1"
    using assms(2) Cons by (auto simp: ids_free_def word_less_nat_alt unat_word_ariths)
  moreover have "fst l \<le> fst k" using assms(1,3) Cons by auto
  ultimately show ?thesis by (simp add: next_id_after_def Cons)
qed (use assms in simp)

lemma storage_open_holds:
  assumes disk: "disk_tables dir ls w" and nf: "faults w = []" and free: "ids_free ls"
  obtains sm w' where "storage_open dir w = (Ok sm, w')" and "storage_holds ls sm w'"
    and "storage_data_dir sm = dir" and "next_sstable_id sm = next_id_after (map fst ls)"
    and "dirs_made dir w w'" and "disk_tables dir ls w'"
proof -
  from disk have pf: "\<And>q. prefix q dir \<Longrightarrow> \<not> is_file w q" by (simp add: disk_tables_def)
  from create_dir_all_effect [OF nf pf] obtain w1 where
    c: "create_dir_all dir w = (Ok (), w1)" and made: "dirs_made dir w w1" by blast
  have nf1: "faults w1 = []" using made nf by (simp add: dirs_made_def)
  have disk1: "disk_tables dir ls w1" using disk made by (rule disk_tables_dirs_made)
  have "\<not> is_file w1 dir" using disk1 by (simp add: disk_tables_def)
  moreover have "dir = [] \<or> exists_path w1 dir"
    using made by (auto simp: dirs_made_def exists_path_def)
  moreover define ps where "ps = filter (\<lambda>p. p \<noteq> [] \<and> butlast p = dir) (map fst (fs w1))"
  ultimately have rd: "read_dir dir w1 = (Ok ps, w1)"
    using nf1 by (auto simp: read_dir_def io_simps)
  have "distinct (map fst (fs w1))" using disk1 by (simp add: disk_tables_def)
  then have ids: "rev (sort (concat (map (id_of w1) ps))) = map fst ls"
    by (intro discover_finds [OF disk1]) (auto simp: ps_def)
  have "\<forall>l \<in> set ls. table_file (snd l) w1 (sstable_path_with_dir dir (fst l))"
    using disk1 by (simp add: disk_tables_def)
  from open_readers_holds [OF nf1 this] obtain rds w2 where
    op: "open_readers dir (map fst ls) w1 = (Ok rds, w2)" "quiet w1 w2" "list_all2 (layer_holds dir w2) ls rds" by blast
  let ?sm = "\<lparr>storage_data_dir = dir, sstables = rds, next_sstable_id = next_id_after (map fst ls)\<rparr>"
  have sorted: "sorted_wrt (\<lambda>a b. b < a) (map fst ls)" using disk by (simp add: disk_tables_def)
  show ?thesis
  proof (rule that)
    show "storage_open dir w = (Ok ?sm, w2)"
      by (simp add: storage_open_def c rd discover_no_faults [OF nf1] ids op(1) Let_def)
    show "storage_holds ls ?sm w2"
      using op(3) sorted next_id_after_bound [OF sorted free] by (simp add: storage_holds_def)
    have "fs w2 = fs w1" "now w2 = now w1" "faults w2 = faults w1" using op(2) nf1 by (simp_all add: quiet_def)
    with made show "dirs_made dir w w2" by (simp add: dirs_made_def lookup_def)
    then show "disk_tables dir ls w2" using disk by (blast intro: disk_tables_dirs_made)
  qed simp_all
qed

text \<open>A successful flush adds its file to the directory.\<close>

lemma disk_tables_push:
  assumes disk: "disk_tables dir ls w" and fr: "frame {sstable_path_with_dir dir i} w w'"
    and names: "map fst (fs w') = (if exists_path w p then map fst (fs w) else map fst (fs w) @ [p])"
    and p: "p = sstable_path_with_dir dir i" and tf: "table_file es w' p"
    and above: "\<forall>l \<in> set ls. fst l < i"
  shows "disk_tables dir ((i, es) # ls) w'"
proof -
  have other: "lookup w' q = lookup w q" if "q \<noteq> p" for q using fr that p by (simp add: frame_def)
  have isf: "is_file w' q \<longleftrightarrow> q = p \<or> is_file w q" for q
    using other [of q] tf by (cases "q = p") (auto simp: table_file_def is_file_def)
  have keep: "table_file es' w' q = table_file es' w q" if "q \<noteq> p" for q es'
    using other [OF that] by (simp add: table_file_def is_file_def content_def)
  have "distinct (map fst (fs w'))"
    using disk names by (auto simp: disk_tables_def exists_path_def lookup_def map_of_eq_None_iff)
  moreover have "\<not> is_file w' q" if "prefix q dir" for q
    using disk that p by (auto simp: isf disk_tables_def sstable_path_with_dir_def)
  moreover have "table_file (snd l) w' (sstable_path_with_dir dir (fst l))" if "l \<in> set ls" for l
    using disk that above p keep by (auto simp: disk_tables_def)
  moreover have "j \<in> fst ` set ((i, es) # ls) \<and> q = sstable_path_with_dir dir j"
    if "is_file w' q" "q \<noteq> []" "butlast q = dir" "parse_sstable_id q = Some j" for q j
    using disk that unfolding isf disk_tables_def p
    by (cases "q = p") (auto simp: parse_sstable_path p)
  ultimately show ?thesis
    using disk above tf p unfolding disk_tables_def by simp
qed


subsection \<open>Properties\<close>

text \<open>An empty directory and a memtable with one entry, for the witnesses.\<close>

definition empty_disk :: world where
  "empty_disk = \<lparr>fs = [([''d''], DirNode)], faults = [], now = Some 5\<rparr>"

definition one_entry :: memtable where
  "one_entry = snd (memtable_put [2] [7] memtable_new)"

lemma empty_disk_tables: "disk_tables [''d''] [] empty_disk"
  by (auto simp: disk_tables_def empty_disk_def is_file_def lookup_def prefix_def)

lemma empty_disk_open:
  "\<exists>sm w. storage_open [''d''] empty_disk = (Ok sm, w) \<and> storage_holds [] sm w \<and> next_free sm \<and> faults w = [] \<and>
     can_create w (sstable_path sm (next_sstable_id sm)) \<and> next_sstable_id sm = 1"
proof -
  have f: "faults empty_disk = []" "ids_free []" by (simp_all add: empty_disk_def ids_free_def)
  from storage_open_holds [OF empty_disk_tables f] obtain sm w where op: "storage_open [''d''] empty_disk = (Ok sm, w)" "storage_holds [] sm w"
      "storage_data_dir sm = [''d'']" "next_sstable_id sm = next_id_after []" "dirs_made [''d''] empty_disk w"
    unfolding list.map(1) by blast
  have "lookup w q = lookup empty_disk q" for q
    using op(5) by (auto simp: dirs_made_def empty_disk_def lookup_def prefix_Cons)
  moreover have "faults w = []" using op(5) by (simp add: dirs_made_def empty_disk_def)
  ultimately show ?thesis using op(1-4)
    by (auto simp: next_free_def next_id_after_def can_create_def exists_path_def sstable_path_def
        sstable_path_with_dir_def empty_disk_def lookup_def)
qed

lemma one_entry_facts:
  "mem_inv one_entry" "entries_fit (memtable_iter one_entry)" "\<not> memtable_is_empty one_entry"
  "memtable_iter one_entry = [([2], Value [7])]"
proof -
  show "mem_inv one_entry" unfolding one_entry_def by (rule mt.inv_put [OF mt.inv_empty])
  show it: "memtable_iter one_entry = [([2], Value [7])]"
    by (simp add: one_entry_def memtable_put_def memtable_new_def memtable_iter_def Let_def)
  then show "entries_fit (memtable_iter one_entry)"
    by (simp add: entries_fit_def entry_fits_def sst_size_def index_start_def SST_HEADER_SIZE_def FOOTER_SIZE_def
        length_data_entry index_entry_def)
  show "\<not> memtable_is_empty one_entry"
    by (simp add: one_entry_def memtable_put_def memtable_new_def memtable_is_empty_def bt_len_def Let_def)
qed

text \<open>C15: What a table file holds after it was written and what a reader answers from it agree: writing
  sorted entries and opening the file gives a reader whose lookups are those of the entries.\<close>

theorem sstable_roundtrip:
  assumes "faults w = []" and "can_create w p" and "entries_fit es" and "bt_inv es"
  shows "\<exists>t w1 rd w2. write_table L p es w = (Ok t, w1) \<and> reader_open p w1 = (Ok rd, w2) \<and>
    content w1 p = sst_bytes (data_crc L es) es \<and> durable w1 p = content w1 p \<and>
    sst_entry_count t = of_nat (length es) \<and>
    (\<forall>key. fst (reader_get key (rd, w2)) = table_answer (map_of es key))"
proof -
  obtain r w1 where s1: "write_table L p es w = (r, w1)" by fastforce
  note e1 = write_table_effect [OF s1]
  obtain t where t: "r = Ok t" using e1(3) assms(1,2) by blast
  have nf1: "faults w1 = []" using e1(1) assms(1) by (rule frame_no_faults)
  have tf: "table_file es w1 p" using e1(4) [OF t] table_written_file assms(3,4) by blast
  obtain r2 w2 where s2: "reader_open p w1 = (r2, w2)" by fastforce
  from reader_open_answer [OF tf, unfolded s2] nf1 obtain rd where
    rd: "r2 = Ok rd" "quiet w1 w2" "reader_holds es w2 rd" by (cases r2) auto
  have "fst (reader_get key (rd, w2)) = table_answer (map_of es key)" for key
    using reader_get_answer [OF rd(3), of key] quiet_same(7) [OF rd(2) nf1]
    by (cases "reader_get key (rd, w2)"; cases "fst (reader_get key (rd, w2))")
      (auto simp: table_answer_def split: option.splits)
  with s1 t s2 rd(1) e1(4) [OF t] show ?thesis by (auto simp: table_written_def)
qed

theorem sstable_roundtrip_witness:
  "\<exists>rd w. fst (reader_get [1] (rd, w)) = Ok None \<and> fst (reader_get [2] (rd, w)) = Ok (Some [7])"
proof -
  have "can_create empty_disk [''d'', ''t'']" by (simp add: can_create_def exists_path_def empty_disk_def lookup_def)
  then have "\<exists>t w1 rd w2. write_table ref_libs [''d'', ''t''] demo_entries empty_disk = (Ok t, w1) \<and>
    reader_open [''d'', ''t''] w1 = (Ok rd, w2) \<and> content w1 [''d'', ''t''] = sst_bytes (data_crc ref_libs demo_entries) demo_entries \<and>
    durable w1 [''d'', ''t''] = content w1 [''d'', ''t''] \<and> sst_entry_count t = of_nat (length demo_entries) \<and>
    (\<forall>key. fst (reader_get key (rd, w2)) = table_answer (map_of demo_entries key))"
    using demo_table by (intro sstable_roundtrip) (simp_all add: table_file_def empty_disk_def)
  then obtain rd w where "\<forall>key. fst (reader_get key (rd, w)) = table_answer (map_of demo_entries key)" by blast
  then have "fst (reader_get [1] (rd, w)) = Ok None \<and> fst (reader_get [2] (rd, w)) = Ok (Some [7])"
    by (simp add: demo_entries_def table_answer_def)
  then show ?thesis by blast
qed

text \<open>C14: A lookup in the storage manager answers from the newest table that has the key: its value, or
  nothing when that entry is a tombstone or no table has the key. It never reports \<open>KeyNotFound\<close>.\<close>

theorem storage_get_newest:
  assumes "storage_holds ls sm w"
  shows "case storage_get key (sm, w) of (r, sm', w') \<Rightarrow> storage_holds ls sm' w' \<and> fs w' = fs w \<and>
    (r = Ok (live (merged snd ls key)) \<or> faults w \<noteq> [] \<and> (\<exists>x. r = Err (Io x)))"
proof -
  obtain r sm' w' where run: "storage_get key (sm, w) = (r, sm', w')" by (metis prod_cases3)
  from storage_get_answer [OF assms, of key, unfolded run] show ?thesis
    by (cases r) (auto simp: run quiet_same)
qed

theorem storage_get_newest_witness:
  "\<exists>sm w. fst (storage_get [2] (sm, w)) = Ok None"
proof -
  obtain sm w where "storage_holds [] sm w" "faults w = []" using empty_disk_open by blast
  with storage_get_newest [of "[]" sm w "[2]"] have "fst (storage_get [2] (sm, w)) = Ok None"
    by (auto simp: live_def)
  then show ?thesis by blast
qed

text \<open>C13: A flush that succeeds puts the memtable's entries in front as the newest layer, in a new
  durable file; a flush that fails leaves every existing table readable and only the new file
  touched. Without input/output errors it succeeds.\<close>

theorem storage_flush_layers:
  assumes "storage_holds ls sm w" and "next_free sm" and "mem_inv mt" and "entries_fit (memtable_iter mt)"
    and "\<not> memtable_is_empty mt" and "storage_flush L mt (sm, w) = (r, sm', w')"
  shows "(case r of
      Ok t \<Rightarrow> storage_holds ((next_sstable_id sm, memtable_iter mt) # ls) sm' w' \<and>
        durable w' (sstable_path sm (next_sstable_id sm)) = content w' (sstable_path sm (next_sstable_id sm))
    | Err x \<Rightarrow> storage_holds ls sm' w' \<and> (faults w = [] \<longrightarrow> \<not> can_create w (sstable_path sm (next_sstable_id sm)))
    | Panic \<Rightarrow> False) \<and>
    frame {sstable_path sm (next_sstable_id sm)} w w' \<and> next_sstable_id sm' = next_sstable_id sm + 1"
  using storage_flush_effect [OF assms] by (cases r) auto

theorem storage_flush_layers_witness:
  "\<exists>sm w. storage_holds [(1, [([2], Value [7])])] sm w \<and> next_sstable_id sm = 2"
proof -
  obtain sm w where *: "storage_holds [] sm w" "next_free sm" and nf: "faults w = []"
    and cc: "can_create w (sstable_path sm (next_sstable_id sm))" and one: "next_sstable_id sm = 1"
    using empty_disk_open by blast
  obtain r sm' w' where run: "storage_flush ref_libs one_entry (sm, w) = (r, sm', w')" by (metis prod_cases3)
  from storage_flush_layers [OF * one_entry_facts(1-3) run]
  have "storage_holds [(1, [([2], Value [7])])] sm' w' \<and> next_sstable_id sm' = 2"
    using nf cc one by (cases r) (auto simp: one_entry_facts(4))
  then show ?thesis by blast
qed

text \<open>C33: Opening a directory that holds the tables \<open>ls\<close> finds exactly these, newest first, whatever other
  files are there and in whatever order the directory lists them; the next id is above all of them.\<close>

theorem storage_open_finds_tables:
  assumes "disk_tables dir ls w" and "faults w = []" and "ids_free ls"
  shows "\<exists>sm w'. storage_open dir w = (Ok sm, w') \<and> storage_holds ls sm w' \<and>
    (\<forall>l \<in> set ls. fst l < next_sstable_id sm) \<and>
    (\<forall>key. fst (storage_get key (sm, w')) = Ok (live (merged snd ls key)))"
proof -
  from storage_open_holds [OF assms] obtain sm w' where
    op: "storage_open dir w = (Ok sm, w')" "storage_holds ls sm w'" "dirs_made dir w w'" by blast
  have "faults w' = []" using op(3) assms(2) by (simp add: dirs_made_def)
  then have "fst (storage_get key (sm, w')) = Ok (live (merged snd ls key))" for key
    using storage_get_answer [OF op(2), of key]
    by (cases "storage_get key (sm, w')"; cases "fst (storage_get key (sm, w'))") auto
  with op show ?thesis by (auto simp: storage_holds_def)
qed

theorem storage_open_finds_tables_witness:
  "\<exists>sm w. storage_open [''d''] empty_disk = (Ok sm, w) \<and> fst (storage_get [2] (sm, w)) = Ok None"
  using storage_open_finds_tables [OF empty_disk_tables] by (auto simp: empty_disk_def ids_free_def live_def)

text \<open>The name of a table file is parsed back to its id, for every 64-bit id.\<close>

lemma sstable_name_roundtrip:
  "parse_sstable_id (sstable_path_with_dir dir i) = Some i"
  by (rule parse_sstable_path)

end
