(* ===== verification/Config_Model.thy ===== *)
theory Config_Model
  imports Errors
begin

section \<open>Configuration (src/src/config.rs)\<close>

text \<open>
  The configuration record, its defaults and the builder. A path is its list of components.
\<close>

datatype wal_sync_strategy = EveryWrite | EveryNEntries usize

record config =
  data_dir :: path
  sync_strategy_of :: wal_sync_strategy
  memtable_size_limit :: usize
  listen_addr :: string
  max_connections :: usize
  read_timeout_ms :: u64
  write_timeout_ms :: u64

definition config_default :: config where
  "config_default = \<lparr>
     data_dir = [''.'', ''atlaskv_data''],
     sync_strategy_of = EveryNEntries 100,
     memtable_size_limit = 64 * 1024 * 1024,
     listen_addr = ''127.0.0.1:6379'',
     max_connections = 1024,
     read_timeout_ms = 30000,
     write_timeout_ms = 30000\<rparr>"

definition config_builder :: config where
  "config_builder = config_default"

definition with_data_dir :: "path \<Rightarrow> config \<Rightarrow> config" where
  "with_data_dir p c = c\<lparr>data_dir := p\<rparr>"

definition with_wal_sync_strategy :: "wal_sync_strategy \<Rightarrow> config \<Rightarrow> config" where
  "with_wal_sync_strategy s c = c\<lparr>sync_strategy_of := s\<rparr>"

definition with_memtable_size_limit :: "usize \<Rightarrow> config \<Rightarrow> config" where
  "with_memtable_size_limit n c = c\<lparr>memtable_size_limit := n\<rparr>"

definition with_listen_addr :: "string \<Rightarrow> config \<Rightarrow> config" where
  "with_listen_addr a c = c\<lparr>listen_addr := a\<rparr>"

definition with_max_connections :: "usize \<Rightarrow> config \<Rightarrow> config" where
  "with_max_connections n c = c\<lparr>max_connections := n\<rparr>"

definition with_read_timeout_ms :: "u64 \<Rightarrow> config \<Rightarrow> config" where
  "with_read_timeout_ms ms c = c\<lparr>read_timeout_ms := ms\<rparr>"

definition with_write_timeout_ms :: "u64 \<Rightarrow> config \<Rightarrow> config" where
  "with_write_timeout_ms ms c = c\<lparr>write_timeout_ms := ms\<rparr>"

definition config_build :: "config \<Rightarrow> config" where
  "config_build c = c"

end
