(* ===== verification/Wal_Writer.thy ===== *)
theory Wal_Writer
  imports Wal_Entry Config_Model
begin

section \<open>The log writer (src/src/wal/writer.rs)\<close>

text \<open>
  \<open>WalWriter\<close> as a record over the buffered file, and its operations. An operation is a
  function from the writer and the world to a result and the writer and world it leaves, also
  when it returns early with an error. The second half relates the writer to the sequence of
  entries it has accepted: \<open>wal_holds\<close> says which entries are in the stream and how many of
  them are covered by the last \<open>fsync\<close>.
\<close>

record wal_writer =
  wal_file :: bufwriter
  current_lsn :: u64
  sync_strategy :: wal_sync_strategy
  uncommitted_count :: usize

definition on_file :: "(bufwriter \<times> world, 'a) io \<Rightarrow> (wal_writer \<times> world, 'a) io" where
  "on_file = zoom wal_file (\<lambda>f wr. wr\<lparr>wal_file := f\<rparr>)"

definition wal_open :: "path \<Rightarrow> wal_sync_strategy \<Rightarrow> world \<Rightarrow> wal_writer result \<times> world" where
  "wal_open p strategy w = andThen (from_io (open_truncate p w)) (\<lambda>h w.
     (Ok \<lparr>wal_file = bufwriter_new h, current_lsn = 1, sync_strategy = strategy, uncommitted_count = 0\<rparr>, w))"

definition wal_open_append :: "path \<Rightarrow> wal_sync_strategy \<Rightarrow> u64 \<Rightarrow> world \<Rightarrow> wal_writer result \<times> world" where
  "wal_open_append p strategy next_lsn w = andThen (from_io (open_append_mode p w)) (\<lambda>h w.
     (Ok \<lparr>wal_file = bufwriter_new h, current_lsn = next_lsn, sync_strategy = strategy, uncommitted_count = 0\<rparr>, w))"

definition wal_sync :: "wal_writer \<times> world \<Rightarrow> unit result \<times> wal_writer \<times> world" where
  "wal_sync s = andThen (from_io (on_file flush_buf s)) (\<lambda>_ s.
     andThen (from_io (on_file (on_inner sync_all) s)) (\<lambda>_ (wr, w).
       (Ok (), wr\<lparr>uncommitted_count := 0\<rparr>, w)))"

definition sync_due :: "wal_writer \<Rightarrow> bool" where
  "sync_due wr = (case sync_strategy wr of
     EveryWrite \<Rightarrow> True
   | EveryNEntries count \<Rightarrow> count \<le> uncommitted_count wr)"

definition wal_append :: "'h libs \<Rightarrow> operation \<Rightarrow> wal_writer \<times> world \<Rightarrow> u64 result \<times> wal_writer \<times> world" where
  "wal_append L op = (\<lambda>(wr, w).
     let n = current_lsn wr;
         wr = wr\<lparr>current_lsn := n + 1\<rparr>
     in andThen (wal_entry_new n op w, wr, w) (\<lambda>entry s.
        andThen (serialize L entry, s) (\<lambda>bs s.
        andThen (from_io (on_file (write_all bs) s)) (\<lambda>_ (wr, w).
          let wr = wr\<lparr>uncommitted_count := uncommitted_count wr + 1\<rparr>
          in andThen (if sync_due wr then wal_sync (wr, w) else (Ok (), wr, w)) (\<lambda>_ s.
             (Ok n, s))))))"

definition wal_current_lsn :: "wal_writer \<Rightarrow> u64" where
  "wal_current_lsn wr = current_lsn wr"

definition wal_uncommitted_count :: "wal_writer \<Rightarrow> usize" where
  "wal_uncommitted_count wr = uncommitted_count wr"

definition wal_truncate :: "wal_writer \<times> world \<Rightarrow> unit result \<times> wal_writer \<times> world" where
  "wal_truncate s = andThen (from_io (on_file flush_buf s)) (\<lambda>_ s.
     andThen (from_io (on_file (on_inner set_len_0) s)) (\<lambda>_ s.
     andThen (from_io (on_file (on_inner (wseek_start 0)) s)) (\<lambda>_ (wr, w).
       (Ok (), wr\<lparr>current_lsn := 1, uncommitted_count := 0\<rparr>, w))))"

text \<open>Dropping the writer flushes its buffer and ignores the result.\<close>

definition wal_drop :: "wal_writer \<times> world \<Rightarrow> world" where
  "wal_drop s = (case on_file flush_buf s of (r, wr, w) \<Rightarrow> w)"

subsection \<open>The entries in the stream\<close>

definition log_bytes :: "'h libs \<Rightarrow> wal_entry list \<Rightarrow> bytes" where
  "log_bytes L es = concat (map (entry_bytes L) es)"

lemma log_bytes_simps [simp]:
  "log_bytes L [] = []"
  "log_bytes L (e # es) = entry_bytes L e @ log_bytes L es"
  "log_bytes L (es @ ds) = log_bytes L es @ log_bytes L ds"
  by (simp_all add: log_bytes_def)

definition wal_path :: "wal_writer \<Rightarrow> path" where
  "wal_path wr = bw_path (wal_file wr)"

definition wal_stream :: "wal_writer \<Rightarrow> world \<Rightarrow> bytes" where
  "wal_stream wr w = stream (wal_file wr) w"

text \<open>
  The writer holds the entries \<open>es\<close>: they are its stream, numbered consecutively up to
  \<open>current_lsn\<close>, and all but the last \<open>uncommitted_count\<close> of them are durable and in the file.
\<close>

definition wal_holds :: "'h libs \<Rightarrow> wal_entry list \<Rightarrow> wal_writer \<Rightarrow> world \<Rightarrow> bool" where
  "wal_holds L es wr w \<longleftrightarrow>
     seq_writer (wal_file wr) w \<and> wal_stream wr w = log_bytes L es \<and>
     unat (uncommitted_count wr) \<le> length es \<and>
     prefix (log_bytes L (take (length es - unat (uncommitted_count wr)) es)) (durable w (wal_path wr)) \<and>
     prefix (log_bytes L (take (length es - unat (uncommitted_count wr)) es)) (content w (wal_path wr))"

lemma wal_holds_seq: "wal_holds L es wr w \<Longrightarrow> seq_writer (wal_file wr) w"
  by (simp add: wal_holds_def)

lemma wal_holds_stream: "wal_holds L es wr w \<Longrightarrow> wal_stream wr w = log_bytes L es"
  by (simp add: wal_holds_def)

lemma wal_holds_world_cong:
  assumes "lookup w' (wal_path wr) = lookup w (wal_path wr)"
  shows "wal_holds L es wr w' = wal_holds L es wr w"
  using assms
  by (simp add: wal_holds_def seq_writer_def seq_handle_def is_file_def wal_stream_def stream_def
      content_def durable_def wal_path_def bw_path_def)

lemma wal_holds_fields:
  "wal_holds L es (wr\<lparr>current_lsn := n\<rparr>) w = wal_holds L es wr w"
  by (simp add: wal_holds_def wal_stream_def wal_path_def)

subsection \<open>Opening\<close>

lemma wal_open_holds:
  assumes "wal_open p strategy w = (Ok wr, w')"
  shows "wal_holds L [] wr w'" and "wal_path wr = p" and "sync_strategy wr = strategy"
    and "current_lsn wr = 1" and "buf (wal_file wr) = []" and "frame {p} w w'"
    and "lookup w' p = Some (FileNode [] (durable w p))"
    and "map fst (fs w') = (if exists_path w p then map fst (fs w) else map fst (fs w) @ [p])"
proof -
  obtain h where op: "open_truncate p w = (Ok h, w')"
    and wr: "wr = \<lparr>wal_file = bufwriter_new h, current_lsn = 1, sync_strategy = strategy, uncommitted_count = 0\<rparr>"
    using assms by (auto simp: wal_open_def andThen_Ok_iff)
  note opened = open_truncate_Ok [OF op] and sq = open_truncate_seq [OF op]
  show "wal_holds L [] wr w'"
    using sq by (simp add: wal_holds_def wr wal_stream_def)
  show "wal_path wr = p" "sync_strategy wr = strategy" "current_lsn wr = 1" "buf (wal_file wr) = []"
    using sq by (simp_all add: wr wal_path_def bufwriter_new_def)
  show "frame {p} w w'" "lookup w' p = Some (FileNode [] (durable w p))"
    "map fst (fs w') = (if exists_path w p then map fst (fs w) else map fst (fs w) @ [p])"
    by (rule opened)+
qed

lemma wal_open_no_faults:
  assumes "faults w = []" and "is_file w p \<or> \<not> exists_path w p \<and> lookup w (butlast p) = Some DirNode"
  obtains wr w' where "wal_open p strategy w = (Ok wr, w')"
  using open_truncate_no_faults [OF assms] by (fastforce simp: wal_open_def)

subsection \<open>Flushing and syncing\<close>

lemma on_file_flush_cases:
  assumes run: "on_file flush_buf (wr, w) = (r, wr', w')" and seq: "seq_writer (wal_file wr) w"
  shows "\<exists>f. wr' = wr\<lparr>wal_file := f\<rparr> \<and> advances (wal_file wr, w) [] (f, w') \<and>
    (r = Ok () \<longrightarrow> buf f = []) \<and> (faults w = [] \<longrightarrow> r = Ok ()) \<and> r \<noteq> Panic"
proof -
  obtain f where fl: "flush_buf (wal_file wr, w) = (r, f, w')" and wr': "wr' = wr\<lparr>wal_file := f\<rparr>"
    using run by (auto simp: on_file_def zoom_def split: prod.splits)
  from flush_buf_advances [OF seq fl] wr' show ?thesis by auto
qed

lemma advances_wal_holds:
  assumes "wal_holds L es wr w" and "advances (wal_file wr, w) [] (f, w')"
  shows "wal_holds L es (wr\<lparr>wal_file := f\<rparr>) w'"
  using assms by (auto simp: wal_holds_def advances_def wal_stream_def wal_path_def intro: prefix_order.trans)

text \<open>What every operation of the writer leaves alone.\<close>

definition wal_frame :: "wal_writer \<times> world \<Rightarrow> wal_writer \<times> world \<Rightarrow> bool" where
  "wal_frame s t \<longleftrightarrow> (case (s, t) of ((wr, w), (wr', w')) \<Rightarrow>
     wal_path wr' = wal_path wr \<and> sync_strategy wr' = sync_strategy wr \<and>
     frame {wal_path wr} w w' \<and> same_names w w')"

lemma wal_frame_trans:
  "wal_frame (a, u) (b, v) \<Longrightarrow> wal_frame (b, v) (c, w) \<Longrightarrow> wal_frame (a, u) (c, w)"
  by (auto simp: wal_frame_def intro: frame_trans_same same_names_trans)

lemma wal_frame_no_faults: "wal_frame (wr, w) (wr', w') \<Longrightarrow> faults w = [] \<Longrightarrow> faults w' = []"
  by (auto simp: wal_frame_def frame_def)

lemma advances_wal_frame:
  "advances (wal_file wr, w) d (f, w') \<Longrightarrow> wal_frame (wr, w) (wr\<lparr>wal_file := f\<rparr>, w')"
  by (auto simp: advances_def wal_frame_def wal_path_def)

lemma on_inner_eq: "on_inner m (b, w) = (case m (inner b, w) of (r, h, w') \<Rightarrow> (r, b\<lparr>inner := h\<rparr>, w'))"
  by (simp add: on_inner_def zoom_def)

lemma on_file_eq: "on_file m (wr, w) = (case m (wal_file wr, w) of (r, f, w') \<Rightarrow> (r, wr\<lparr>wal_file := f\<rparr>, w'))"
  by (simp add: on_file_def zoom_def)

lemma wal_sync_flushed:
  assumes holds: "wal_holds L es wr w" and empty: "buf (wal_file wr) = []"
    and run: "on_file (on_inner sync_all) (wr, w) = (r, wr', w')"
  shows "wal_frame (wr, w) (wr', w')" and "wr' = wr" and "wal_holds L es wr w'"
    and "r = Ok () \<Longrightarrow> durable w' (wal_path wr) = log_bytes L es \<and> content w' (wal_path wr) = log_bytes L es"
    and "faults w = [] \<Longrightarrow> r = Ok ()" and "r \<noteq> Panic"
proof -
  let ?h = "inner (wal_file wr)"
  let ?p = "wal_path wr"
  have p: "w_path ?h = ?p" by (simp add: wal_path_def bw_path_def)
  obtain h where sy: "sync_all (?h, w) = (r, h, w')" and wr': "wr' = wr\<lparr>wal_file := (wal_file wr)\<lparr>inner := h\<rparr>\<rparr>"
    using run by (auto simp: on_file_eq on_inner_eq split: prod.splits)
  have seq: "seq_handle ?h w" using holds by (simp add: wal_holds_def seq_writer_def)
  then have isf: "is_file w (w_path ?h)" by (simp add: seq_handle_def)
  note eff = sync_all_effect [OF sy isf, unfolded p]
  show wr'_eq: "wr' = wr" using eff(1) by (simp add: wr')
  show "wal_frame (wr, w) (wr', w')" using eff by (simp add: wr'_eq wal_frame_def)
  have cont: "content w ?p = log_bytes L es"
    using holds empty by (simp add: wal_holds_def wal_stream_def stream_def wal_path_def)
  show "r = Ok () \<Longrightarrow> durable w' ?p = log_bytes L es \<and> content w' ?p = log_bytes L es"
    using eff(4,6) cont by simp
  show "wal_holds L es wr w'"
  proof (cases "r = Ok ()")
    case True
    have "prefix (log_bytes L (take k es)) (log_bytes L es)" for k
      by (metis append_take_drop_id log_bytes_simps(3) prefixI)
    with True eff seq holds cont empty show ?thesis
      by (auto simp: wal_holds_def seq_writer_def seq_handle_def wal_stream_def stream_def
          wal_path_def bw_path_def)
  next
    case False
    with eff seq holds show ?thesis
      by (auto simp: wal_holds_def seq_writer_def seq_handle_def wal_stream_def stream_def
          wal_path_def bw_path_def)
  qed
  show "faults w = [] \<Longrightarrow> r = Ok ()" and "r \<noteq> Panic" using eff by auto
qed

lemma wal_sync_result:
  assumes holds: "wal_holds L es wr w" and run: "wal_sync (wr, w) = (r, wr', w')"
  shows "wal_frame (wr, w) (wr', w') \<and> wal_holds L es wr' w' \<and> current_lsn wr' = current_lsn wr \<and>
      (r = Ok () \<longrightarrow> uncommitted_count wr' = 0 \<and> buf (wal_file wr') = [] \<and>
        durable w' (wal_path wr) = log_bytes L es \<and> content w' (wal_path wr) = log_bytes L es) \<and>
      (faults w = [] \<longrightarrow> r = Ok ()) \<and> r \<noteq> Panic"
proof -
  obtain r1 wr1 w1 where fl: "on_file flush_buf (wr, w) = (r1, wr1, w1)" by (metis prod_cases3)
  from on_file_flush_cases [OF fl wal_holds_seq [OF holds]] obtain f where
    f: "wr1 = wr\<lparr>wal_file := f\<rparr>" "advances (wal_file wr, w) [] (f, w1)" "r1 = Ok () \<Longrightarrow> buf f = []"
    "faults w = [] \<Longrightarrow> r1 = Ok ()" "r1 \<noteq> Panic" by blast
  have holds1: "wal_holds L es wr1 w1" unfolding f(1) by (rule advances_wal_holds [OF holds f(2)])
  have frame1: "wal_frame (wr, w) (wr1, w1)" unfolding f(1) by (rule advances_wal_frame [OF f(2)])
  have path1: "wal_path wr1 = wal_path wr" using frame1 by (simp add: wal_frame_def)
  obtain r2 wr2 w2 where sy: "on_file (on_inner sync_all) (wr1, w1) = (r2, wr2, w2)" by (metis prod_cases3)
  show ?thesis
  proof (cases r1)
    case (Ok u)
    have empty: "buf (wal_file wr1) = []" using f(3) Ok by (simp add: f(1))
    note sys = wal_sync_flushed [OF holds1 empty sy, unfolded path1]
    have frame2: "wal_frame (wr, w) (wr1, w2)" using wal_frame_trans [OF frame1] sys(1,2) by simp
    have nf: "faults w = [] \<Longrightarrow> r2 = Ok ()" using sys(5) wal_frame_no_faults [OF frame1] by simp
    show ?thesis
    proof (cases r2)
      case ok2: (Ok u2)
      then have res: "r = Ok ()" "wr' = wr1\<lparr>uncommitted_count := 0\<rparr>" "w' = w2"
        using run Ok fl sy sys(2) by (auto simp: wal_sync_def)
      have "wal_holds L es wr' w'"
        using sys(3,4) ok2 by (simp add: res wal_holds_def wal_stream_def wal_path_def path1 [unfolded wal_path_def])
      with res frame2 sys(4) ok2 f(1) empty show ?thesis by (simp add: wal_frame_def wal_path_def)
    next
      case (Err e)
      then have "r = Err (Io e)" "wr' = wr1" "w' = w2"
        using run Ok fl sy sys(2) by (auto simp: wal_sync_def)
      with Err nf frame2 sys f(1) show ?thesis by auto
    next
      case Panic
      with sys(6) show ?thesis by simp
    qed
  next
    case (Err e)
    then have "r = Err (Io e)" "wr' = wr1" "w' = w1"
      using run fl by (auto simp: wal_sync_def)
    with Err f holds1 frame1 show ?thesis by auto
  next
    case Panic
    with f(5) show ?thesis by simp
  qed
qed

lemma wal_sync_holds:
  assumes "wal_holds L es wr w" and "wal_sync (wr, w) = (r, wr', w')"
  shows "wal_frame (wr, w) (wr', w')" and "wal_holds L es wr' w'" and "current_lsn wr' = current_lsn wr"
    and "r = Ok () \<Longrightarrow> uncommitted_count wr' = 0 \<and> buf (wal_file wr') = [] \<and>
      durable w' (wal_path wr) = log_bytes L es \<and> content w' (wal_path wr) = log_bytes L es"
    and "faults w = [] \<Longrightarrow> r = Ok ()" and "r \<noteq> Panic"
  using wal_sync_result [OF assms] by blast+

subsection \<open>Appending\<close>

lemma unat_u64_succ: "unat (x :: u64) < 2 ^ 64 - 1 \<Longrightarrow> unat (x + 1) = unat x + 1"
  by (simp add: unat_word_ariths)

text \<open>The buffered write of one entry, before any sync.\<close>

lemma wal_write_entry:
  assumes holds: "wal_holds L es wr w" and short: "length es < 2 ^ 64 - 1"
    and run: "on_file (write_all (entry_bytes L e)) (wr, w) = (r, wr1, w1)"
  shows "wal_frame (wr, w) (wr1, w1)" and "current_lsn wr1 = current_lsn wr"
    and "r = Ok () \<Longrightarrow> wal_holds L (es @ [e]) (wr1\<lparr>uncommitted_count := uncommitted_count wr1 + 1\<rparr>) w1"
    and "\<exists>k. wal_stream wr1 w1 = log_bytes L es @ take k (entry_bytes L e)"
    and "seq_writer (wal_file wr1) w1"
    and "faults w = [] \<Longrightarrow> r = Ok ()" and "r \<noteq> Panic" and "durable w1 (wal_path wr) = durable w (wal_path wr)"
proof -
  obtain f where wa: "write_all (entry_bytes L e) (wal_file wr, w) = (r, f, w1)"
    and wr1: "wr1 = wr\<lparr>wal_file := f\<rparr>"
    using run by (auto simp: on_file_eq split: prod.splits)
  note acc = write_all_accepts [OF wal_holds_seq [OF holds] wa]
  then obtain k where adv: "advances (wal_file wr, w) (take k (entry_bytes L e)) (f, w1)"
    by (auto simp: accepts_def)
  have str: "stream (wal_file wr) w = log_bytes L es"
    using wal_holds_stream [OF holds] by (simp add: wal_stream_def)
  show "wal_frame (wr, w) (wr1, w1)" unfolding wr1 by (rule advances_wal_frame [OF adv])
  show "current_lsn wr1 = current_lsn wr" by (simp add: wr1)
  show "\<exists>k. wal_stream wr1 w1 = log_bytes L es @ take k (entry_bytes L e)"
    using advances_stream [OF adv] str by (auto simp: wal_stream_def wr1)
  show "seq_writer (wal_file wr1) w1" using advances_seq [OF adv] by (simp add: wr1)
  show "faults w = [] \<Longrightarrow> r = Ok ()" and "r \<noteq> Panic" using acc by (auto simp: accepts_def)
  show "durable w1 (wal_path wr) = durable w (wal_path wr)" using adv by (simp add: advances_def wal_path_def)
  assume "r = Ok ()"
  with acc have adv: "advances (wal_file wr, w) (entry_bytes L e) (f, w1)" by (auto intro: accepts_Ok)
  let ?u = "uncommitted_count wr"
  have u: "unat (?u + 1) = unat ?u + 1"
    using holds short by (intro unat_u64_succ) (simp add: wal_holds_def)
  have "prefix (log_bytes L (take (length es - unat ?u) es)) (durable w1 (bw_path (wal_file wr)))"
    using holds adv by (auto simp: wal_holds_def advances_def wal_path_def)
  moreover have "prefix (log_bytes L (take (length es - unat ?u) es)) (content w1 (bw_path (wal_file wr)))"
    using holds adv by (auto simp: wal_holds_def advances_def wal_path_def intro: prefix_order.trans)
  ultimately show "wal_holds L (es @ [e]) (wr1\<lparr>uncommitted_count := uncommitted_count wr1 + 1\<rparr>) w1"
    using holds adv str u by (simp add: wal_holds_def wr1 advances_def wal_stream_def wal_path_def)
qed

text \<open>The end of an append: a sync, when one is due.\<close>

lemma wal_sync_if_due:
  assumes holds: "wal_holds L es wr w"
    and run: "(if sync_due wr then wal_sync (wr, w) else (Ok (), wr, w)) = (Ok (), wr', w')"
  shows "wal_frame (wr, w) (wr', w')" and "wal_holds L es wr' w'" and "current_lsn wr' = current_lsn wr"
    and "sync_due wr \<Longrightarrow> uncommitted_count wr' = 0 \<and> buf (wal_file wr') = [] \<and>
      durable w' (wal_path wr) = log_bytes L es \<and> content w' (wal_path wr) = log_bytes L es"
    and "\<not> sync_due wr \<Longrightarrow> wr' = wr \<and> w' = w"
proof -
  have due: "wal_sync (wr, w) = (Ok (), wr', w')" if "sync_due wr" using run that by simp
  have idle: "wr' = wr \<and> w' = w" if "\<not> sync_due wr" using run that by simp
  have "wal_frame (wr, w) (wr', w') \<and> wal_holds L es wr' w' \<and> current_lsn wr' = current_lsn wr"
  proof (cases "sync_due wr")
    case True
    from wal_sync_holds [OF holds due [OF True]] show ?thesis by blast
  next
    case False
    with idle holds show ?thesis by (simp add: wal_frame_def)
  qed
  then show "wal_frame (wr, w) (wr', w')" "wal_holds L es wr' w'" "current_lsn wr' = current_lsn wr" by blast+
  show "sync_due wr \<Longrightarrow> uncommitted_count wr' = 0 \<and> buf (wal_file wr') = [] \<and>
      durable w' (wal_path wr) = log_bytes L es \<and> content w' (wal_path wr) = log_bytes L es"
    using wal_sync_holds(4) [OF holds due] by blast
  show "\<not> sync_due wr \<Longrightarrow> wr' = wr \<and> w' = w" by (rule idle)
qed

lemma wal_append_Ok:
  assumes holds: "wal_holds L es wr w" and short: "length es < 2 ^ 64 - 1"
    and run: "wal_append L op (wr, w) = (Ok n, wr', w')"
  obtains e where "wal_entry_new n op w = Ok e" and "serialize L e = Ok (entry_bytes L e)"
    and "n = current_lsn wr" and "current_lsn wr' = n + 1"
    and "wal_frame (wr, w) (wr', w')" and "wal_holds L (es @ [e]) wr' w'"
    and "sync_strategy wr = EveryWrite \<Longrightarrow> uncommitted_count wr' = 0 \<and> buf (wal_file wr') = [] \<and>
      content w' (wal_path wr) = log_bytes L (es @ [e]) \<and> durable w' (wal_path wr) = log_bytes L (es @ [e])"
    and "\<And>c. sync_strategy wr = EveryNEntries c \<Longrightarrow> 0 < c \<Longrightarrow> uncommitted_count wr' < c"
    and "\<And>c. sync_strategy wr = EveryNEntries c \<Longrightarrow>
      (if c \<le> uncommitted_count wr + 1
       then uncommitted_count wr' = 0 \<and> durable w' (wal_path wr) = log_bytes L (es @ [e])
       else uncommitted_count wr' = uncommitted_count wr + 1 \<and> durable w' (wal_path wr) = durable w (wal_path wr))"
proof -
  let ?wr = "wr\<lparr>current_lsn := current_lsn wr + 1\<rparr>"
  have holds0: "wal_holds L es ?wr w" using holds by (simp add: wal_holds_fields)
  from run obtain e bs wr1 w1 where ne: "wal_entry_new (current_lsn wr) op w = Ok e"
    and se: "serialize L e = Ok bs" and wr: "on_file (write_all bs) (?wr, w) = (Ok (), wr1, w1)"
    and n: "n = current_lsn wr"
    and sy: "(if sync_due (wr1\<lparr>uncommitted_count := uncommitted_count wr1 + 1\<rparr>)
        then wal_sync (wr1\<lparr>uncommitted_count := uncommitted_count wr1 + 1\<rparr>, w1)
        else (Ok (), wr1\<lparr>uncommitted_count := uncommitted_count wr1 + 1\<rparr>, w1)) = (Ok (), wr', w')"
    by (auto simp: wal_append_def Let_def andThen_Ok_iff)
  have bs: "bs = entry_bytes L e" using se by (simp add: entry_bytes_def)
  note wrs = wal_write_entry [OF holds0 short wr [unfolded bs]]
  let ?wr1 = "wr1\<lparr>uncommitted_count := uncommitted_count wr1 + 1\<rparr>"
  have holds1: "wal_holds L (es @ [e]) ?wr1 w1" using wrs(3) by simp
  have fr1: "wal_frame (wr, w) (?wr1, w1)" using wrs(1) by (simp add: wal_frame_def wal_path_def)
  then have p: "wal_path ?wr1 = wal_path wr" and st: "sync_strategy ?wr1 = sync_strategy wr"
    by (simp_all add: wal_frame_def)
  note res = wal_sync_if_due [OF holds1 sy, unfolded p]
  have fr: "wal_frame (wr, w) (wr', w')" using fr1 res(1) by (rule wal_frame_trans)
  have every: "sync_due ?wr1" if "sync_strategy wr = EveryWrite"
    using that st by (simp add: sync_due_def)
  have upto: "uncommitted_count wr' < c" if "sync_strategy wr = EveryNEntries c" "0 < c" for c
    using that st res(4,5) by (cases "sync_due ?wr1") (auto simp: sync_due_def not_le)
  have unc: "uncommitted_count ?wr1 = uncommitted_count wr + 1" using wr by (auto simp: on_file_eq split: prod.splits)
  have batch: "if c \<le> uncommitted_count wr + 1
       then uncommitted_count wr' = 0 \<and> durable w' (wal_path wr) = log_bytes L (es @ [e])
       else uncommitted_count wr' = uncommitted_count wr + 1 \<and> durable w' (wal_path wr) = durable w (wal_path wr)"
    if "sync_strategy wr = EveryNEntries c" for c
  proof -
    have "sync_due ?wr1 = (c \<le> uncommitted_count wr + 1)" using that st unc by (simp add: sync_due_def)
    moreover have "w' = w1" if "\<not> sync_due ?wr1" using that sy by simp
    ultimately show ?thesis using res wrs(8) unc by (auto simp: wal_path_def)
  qed
  have "current_lsn wr' = n + 1" using res wrs(2) n by simp
  with that [of e] ne se bs n fr res every upto batch show thesis by (auto split: if_splits)
qed

text \<open>Without faults, with a clock and an entry \<open>bincode\<close> accepts, an append succeeds.\<close>

lemma wal_append_no_faults:
  assumes holds: "wal_holds L es wr w" and short: "length es < 2 ^ 64 - 1" and nf: "faults w = []"
    and ne: "wal_entry_new (current_lsn wr) op w = Ok e" and ser: "serialize L e = Ok (entry_bytes L e)"
  obtains wr' w' where "wal_append L op (wr, w) = (Ok (current_lsn wr), wr', w')"
proof -
  let ?wr = "wr\<lparr>current_lsn := current_lsn wr + 1\<rparr>"
  have holds0: "wal_holds L es ?wr w" using holds by (simp add: wal_holds_fields)
  obtain r1 wr1 w1 where wa: "on_file (write_all (entry_bytes L e)) (?wr, w) = (r1, wr1, w1)" by (metis prod_cases3)
  note wrs = wal_write_entry [OF holds0 short wa]
  have r1: "r1 = Ok ()" by (rule wrs(6) [OF nf])
  have nf1: "faults w1 = []" by (rule wal_frame_no_faults [OF wrs(1) nf])
  let ?wr1 = "wr1\<lparr>uncommitted_count := uncommitted_count wr1 + 1\<rparr>"
  obtain r2 wr2 w2 where sy: "wal_sync (?wr1, w1) = (r2, wr2, w2)" by (metis prod_cases3)
  have "r2 = Ok ()" by (rule wal_sync_holds(5) [OF wrs(3) [OF r1] sy nf1])
  with that wa r1 sy ne ser show thesis
    by (cases "sync_due ?wr1") (auto simp: wal_append_def Let_def)
qed

subsection \<open>Truncating\<close>

lemma on_inner_path: "wal_path (wr\<lparr>wal_file := (wal_file wr)\<lparr>inner := h\<rparr>\<rparr>) = w_path h"
  by (simp add: wal_path_def bw_path_def)

text \<open>
  Truncation after a flush to an SSTable empties the file and puts the cursor back, so that
  the next entry starts at offset 0. It does not sync: what is durable is unchanged.
\<close>

lemma wal_truncate_holds:
  assumes holds: "wal_holds L es wr w" and run: "wal_truncate (wr, w) = (Ok (), wr', w')"
  shows "wal_frame (wr, w) (wr', w')" and "wal_holds L [] wr' w'" and "current_lsn wr' = 1"
    and "content w' (wal_path wr) = []" and "buf (wal_file wr') = []"
    and "durable w' (wal_path wr) = durable w (wal_path wr)"
proof -
  from run obtain wr1 w1 wr2 w2 wr3 where
    fl: "on_file flush_buf (wr, w) = (Ok (), wr1, w1)" and
    sl: "on_file (on_inner set_len_0) (wr1, w1) = (Ok (), wr2, w2)" and
    sk: "on_file (on_inner (wseek_start 0)) (wr2, w2) = (Ok (), wr3, w')" and
    wr': "wr' = wr3\<lparr>current_lsn := 1, uncommitted_count := 0\<rparr>"
    by (auto simp: wal_truncate_def andThen_Ok_iff)
  from on_file_flush_cases [OF fl wal_holds_seq [OF holds]] obtain f where
    f: "wr1 = wr\<lparr>wal_file := f\<rparr>" "advances (wal_file wr, w) [] (f, w1)" "buf f = []" by auto
  let ?p = "wal_path wr"
  have p1: "w_path (inner f) = ?p" using f(2) by (simp add: advances_def wal_path_def bw_path_def)
  obtain h2 where sl': "set_len_0 (inner f, w1) = (Ok (), h2, w2)"
    and wr2: "wr2 = wr\<lparr>wal_file := f\<lparr>inner := h2\<rparr>\<rparr>"
    using sl by (auto simp: on_file_eq on_inner_eq f(1) split: prod.splits)
  have "is_file w1 (w_path (inner f))"
    using advances_seq [OF f(2)] by (simp add: seq_writer_def seq_handle_def)
  note sle = set_len_0_effect [OF sl' this, unfolded p1]
  obtain h3 where sk': "wseek_start 0 (h2, w2) = (Ok (), h3, w')"
    and wr3: "wr3 = wr\<lparr>wal_file := f\<lparr>inner := h3\<rparr>\<rparr>"
    using sk by (auto simp: on_file_eq on_inner_eq wr2 split: prod.splits)
  note ske = wseek_start_effect [OF sk']
  have h3: "h3 = (inner f)\<lparr>w_pos := 0\<rparr>" using ske(4) sle(1) by simp
  have fr: "frame {?p} w w'"
    using advances_frame [OF f(2)] sle(2) frame_mono [OF ske(1), of "{?p}"]
    by (auto simp: wal_path_def intro: frame_trans_same)
  have sn: "same_names w w'"
    using f(2) sle(3) ske(2) by (auto simp: advances_def intro: same_names_trans)
  have path': "wal_path wr' = ?p" by (simp add: wr' wr3 wal_path_def bw_path_def h3 p1 [unfolded wal_path_def bw_path_def])
  show "wal_frame (wr, w) (wr', w')" using fr sn path' by (simp add: wal_frame_def wr' wr3)
  show cont: "content w' ?p = []" using sle(6) ske(3) by (simp add: content_def)
  show buf': "buf (wal_file wr') = []" by (simp add: wr' wr3 f(3))
  show "current_lsn wr' = 1" by (simp add: wr')
  show "durable w' ?p = durable w ?p"
    using sle(5) ske(3) f(2) by (simp add: durable_def advances_def wal_path_def)
  have "is_file w' ?p" using sle(4) ske(3) by (simp add: is_file_def)
  then show "wal_holds L [] wr' w'"
    using cont buf' by (simp add: wal_holds_def wal_stream_def stream_def seq_writer_def seq_handle_def
        wr' wr3 h3 p1 bw_path_def)
qed

lemma wal_truncate_no_faults:
  assumes holds: "wal_holds L es wr w" and nf: "faults w = []"
  obtains wr' w' where "wal_truncate (wr, w) = (Ok (), wr', w')"
proof -
  obtain r1 wr1 w1 where fl: "on_file flush_buf (wr, w) = (r1, wr1, w1)" by (metis prod_cases3)
  from on_file_flush_cases [OF fl wal_holds_seq [OF holds]] nf obtain f where
    f: "wr1 = wr\<lparr>wal_file := f\<rparr>" "advances (wal_file wr, w) [] (f, w1)" "r1 = Ok ()" by auto
  have nf1: "faults w1 = []" using frame_no_faults [OF advances_frame [OF f(2)] nf] .
  obtain r2 h2 w2 where sl: "set_len_0 (inner f, w1) = (r2, h2, w2)" by (metis prod_cases3)
  have "is_file w1 (w_path (inner f))"
    using advances_seq [OF f(2)] by (simp add: seq_writer_def seq_handle_def)
  note sle = set_len_0_effect [OF sl this]
  have nf2: "faults w2 = []" using frame_no_faults [OF sle(2) nf1] .
  obtain r3 h3 w3 where sk: "wseek_start 0 (h2, w2) = (r3, h3, w3)" by (metis prod_cases3)
  have "r3 = Ok ()" using wseek_start_effect(5) [OF sk nf2] .
  with that fl f(1,3) sl sle(7) [OF nf1] sk show thesis
    by (auto simp: wal_truncate_def on_file_eq on_inner_eq)
qed


subsection \<open>The writer under faults\<close>

definition wal_keeps :: "wal_writer \<times> world \<Rightarrow> wal_writer \<times> world \<Rightarrow> bool" where
  "wal_keeps s t \<longleftrightarrow> wal_path (fst t) = wal_path (fst s) \<and> sync_strategy (fst t) = sync_strategy (fst s) \<and>
     keeps (wal_path (fst s)) (snd s) (snd t)"

interpretation wk: effect_order wal_keeps
proof unfold_locales
  show "wal_keeps s s" for s by (simp add: wal_keeps_def)
  show "wal_keeps a b \<Longrightarrow> wal_keeps b c \<Longrightarrow> wal_keeps a c" for a b c
    unfolding wal_keeps_def by (auto elim: keeps_trans)
qed

lemma on_file_keeps:
  assumes "\<And>s. bw_keeps s (snd (m s))"
  shows "wal_keeps s (snd (from_io (on_file m s)))"
  using assms [of "(wal_file (fst s), snd s)"]
  by (cases s) (auto simp: on_file_def zoom_def wal_keeps_def bw_keeps_def wal_path_def split: prod.split)

lemma wal_sync_keeps: "wal_keeps s (snd (wal_sync s))"
  unfolding wal_sync_def
  by (intro wk.keeps_intros on_file_keeps flush_buf_keeps on_inner_keeps sync_all_keeps)
    (auto simp: wal_keeps_def wal_path_def)

lemma wal_truncate_keeps: "wal_keeps s (snd (wal_truncate s))"
  unfolding wal_truncate_def
  by (intro wk.keeps_intros on_file_keeps flush_buf_keeps on_inner_keeps set_len_0_keeps wseek_start_keeps)
    (auto simp: wal_keeps_def wal_path_def)

lemma wal_append_keeps: "wal_keeps s (snd (wal_append L op s))"
proof -
  have count: "wal_keeps t (snd (case t of (wr, w) \<Rightarrow>
          let wr = wr\<lparr>uncommitted_count := uncommitted_count wr + 1\<rparr>
          in andThen (if sync_due wr then wal_sync (wr, w) else (Ok (), wr, w)) (\<lambda>_ s. (Ok n, s))))" for t n
  proof -
    obtain wr w where t: "t = (wr, w)" by (cases t)
    let ?wr = "wr\<lparr>uncommitted_count := uncommitted_count wr + 1\<rparr>"
    have "wal_keeps t (?wr, w)" by (simp add: t wal_keeps_def wal_path_def)
    moreover have "wal_keeps (?wr, w) (snd (andThen (if sync_due ?wr then wal_sync (?wr, w) else (Ok (), ?wr, w)) (\<lambda>_ s. (Ok n, s))))"
      by (intro wk.keeps_intros wal_sync_keeps)
    ultimately show ?thesis unfolding t prod.case Let_def by (blast intro: wk.eff_trans)
  qed
  obtain wr w where s: "s = (wr, w)" by (cases s)
  have "wal_keeps s (wr\<lparr>current_lsn := current_lsn wr + 1\<rparr>, w)" by (simp add: s wal_keeps_def wal_path_def)
  then show ?thesis unfolding s wal_append_def prod.case Let_def [of "current_lsn wr"] Let_def [of "wr\<lparr>current_lsn := _\<rparr>"]
    by (intro wk.andThen_keeps wk.pure_keeps on_file_keeps write_all_keeps count) simp_all
qed

subsection \<open>Appends that fail\<close>

lemma advances_Nil_trans: "advances s [] t \<Longrightarrow> advances t [] u \<Longrightarrow> advances s [] u"
  using advances_trans by (metis append_Nil surj_pair)

lemma sync_all_fails:
  assumes seq: "seq_writer b w" and run: "on_inner sync_all (b, w) = (r, b', w')" and err: "r \<noteq> Ok ()"
  shows "advances (b, w) [] (b', w')"
proof -
  obtain h where sy: "sync_all (inner b, w) = (r, h, w')" and b': "b' = b\<lparr>inner := h\<rparr>"
    using run by (auto simp: on_inner_eq split: prod.splits)
  have isf: "is_file w (w_path (inner b))" using seq by (simp add: seq_writer_def seq_handle_def)
  note s = sync_all_effect [OF sy isf]
  show ?thesis using s(1-5) s(7) [OF err] seq
    by (simp add: b' advances_def seq_writer_def seq_handle_def bw_path_def stream_def)
qed

lemma wal_sync_fails:
  assumes seq: "seq_writer (wal_file wr) w" and run: "wal_sync (wr, w) = (r, wr', w')" and err: "r \<noteq> Ok ()"
  shows "advances (wal_file wr, w) [] (wal_file wr', w')"
proof -
  obtain r1 wr1 w1 where fl: "on_file flush_buf (wr, w) = (r1, wr1, w1)" by (metis prod_cases3)
  from on_file_flush_cases [OF fl seq] obtain f where
    f: "wr1 = wr\<lparr>wal_file := f\<rparr>" "advances (wal_file wr, w) [] (f, w1)" "r1 \<noteq> Panic" by blast
  show ?thesis
  proof (cases r1)
    case (Ok u)
    obtain r2 wr2 w2 where sy: "on_file (on_inner sync_all) (wr1, w1) = (r2, wr2, w2)" by (metis prod_cases3)
    then obtain g where g: "on_inner sync_all (f, w1) = (r2, g, w2)" "wr2 = wr1\<lparr>wal_file := g\<rparr>"
      by (auto simp: on_file_eq f(1) split: prod.splits)
    have "r2 \<noteq> Ok ()" "wr' = wr2" "w' = w2" using run fl sy Ok err by (cases r2; auto simp: wal_sync_def)+
    moreover have "seq_writer f w1" using f(2) by (simp add: advances_def)
    ultimately have "advances (f, w1) [] (g, w2)" using sync_all_fails [OF _ g(1)] by simp
    from advances_Nil_trans [OF f(2) this] \<open>wr' = wr2\<close> \<open>w' = w2\<close> g(2) show ?thesis by simp
  next
    case (Err x)
    with run fl f show ?thesis by (auto simp: wal_sync_def)
  qed (use f in simp)
qed

text \<open>A failed append has put a piece of its entry behind the log, and synced nothing.\<close>

lemma wal_append_fails:
  assumes seq: "seq_writer (wal_file wr) w" and run: "wal_append L op (wr, w) = (r, wr', w')" and err: "\<And>n. r \<noteq> Ok n"
  obtains torn where "advances (wal_file wr, w) torn (wal_file wr', w')"
    and "torn = [] \<or> (\<exists>en. wal_entry_new (current_lsn wr) op w = Ok en \<and> prefix torn (entry_bytes L en))"
proof -
  note found = that
  let ?wr = "wr\<lparr>current_lsn := current_lsn wr + 1\<rparr>"
  have none: "wr' = ?wr \<Longrightarrow> w' = w \<Longrightarrow> thesis" using found [of "[]"] advances_refl [OF seq] by simp
  show thesis
  proof (cases "wal_entry_new (current_lsn wr) op w")
    case (Ok en)
    show thesis
    proof (cases "serialize L en")
      case ser: (Ok bs)
      then have bs: "bs = entry_bytes L en" by (simp add: entry_bytes_def)
      obtain r1 wr1 w1 where wa: "on_file (write_all bs) (?wr, w) = (r1, wr1, w1)" by (metis prod_cases3)
      then obtain f where f: "write_all bs (wal_file wr, w) = (r1, f, w1)" "wr1 = ?wr\<lparr>wal_file := f\<rparr>"
        by (auto simp: on_file_eq split: prod.splits)
      from write_all_accepts [OF seq f(1)] obtain k where
        adv: "advances (wal_file wr, w) (take k bs) (f, w1)" and np: "r1 \<noteq> Panic" by (auto simp: accepts_def)
      have piece: "prefix (take k bs) (entry_bytes L en)" unfolding bs by (rule take_is_prefix)
      show thesis
      proof (cases r1)
        case (Err x)
        with run Ok ser wa have "wr' = wr1" "w' = w1" by (auto simp: wal_append_def Let_def)
        with adv piece f(2) Ok show thesis by (intro found [of "take k bs"]) auto
      next
        case ok1: (Ok u)
        let ?wr1 = "wr1\<lparr>uncommitted_count := uncommitted_count wr1 + 1\<rparr>"
        obtain r2 wr2 w2 where sy: "wal_sync (?wr1, w1) = (r2, wr2, w2)" by (metis prod_cases3)
        have "wr' = wr2" "w' = w2" "r2 \<noteq> Ok ()"
          using run Ok ser wa ok1 sy err by (cases r2; auto simp: wal_append_def Let_def split: if_splits)+
        moreover have "seq_writer (wal_file ?wr1) w1" using adv f(2) by (simp add: advances_def)
        ultimately have "advances (f, w1) [] (wal_file wr', w')" using wal_sync_fails [OF _ sy] f(2) by simp
        from advances_trans [OF adv this] piece Ok show thesis by (intro found [of "take k bs"]) auto
      qed (use np in simp)
    qed (use run Ok none in \<open>auto simp: wal_append_def Let_def\<close>)
  qed (use run none in \<open>auto simp: wal_append_def Let_def\<close>)
qed

text \<open>
  When an append fails, the stream has grown by nothing, by the whole entry (the sync failed)
  or, when the entry did not fit the buffer and went straight to the file, by a torn part of it.
\<close>

lemma wal_append_error:
  assumes holds: "wal_holds L es wr w" and run: "wal_append L op (wr, w) = (r, wr', w')" and err: "\<And>n. r \<noteq> Ok n"
  obtains torn where "wal_stream wr' w' = log_bytes L es @ torn" and "seq_writer (wal_file wr') w'"
    and "wal_frame (wr, w) (wr', w')" and "durable w' (wal_path wr) = durable w (wal_path wr)"
    and "torn = [] \<or> (\<exists>e. operation e = op \<and> prefix torn (entry_bytes L e))"
proof -
  from wal_append_fails [OF wal_holds_seq [OF holds] run err] obtain torn where
    adv: "advances (wal_file wr, w) torn (wal_file wr', w')"
    and t: "torn = [] \<or> (\<exists>en. wal_entry_new (current_lsn wr) op w = Ok en \<and> prefix torn (entry_bytes L en))" by blast
  have "wal_frame (wr, w) (wr', w')"
    using wal_append_keeps [of "(wr, w)" L op] run by (simp add: wal_keeps_def keeps_def wal_frame_def)
  moreover have "wal_stream wr' w' = log_bytes L es @ torn" "seq_writer (wal_file wr') w'"
    "durable w' (wal_path wr) = durable w (wal_path wr)"
    using adv wal_holds_stream [OF holds] by (simp_all add: advances_def wal_stream_def wal_path_def)
  moreover have "torn = [] \<or> (\<exists>e. operation e = op \<and> prefix torn (entry_bytes L e))"
    using t by (auto simp: wal_entry_new_def split: option.splits)
  ultimately show ?thesis using that by blast
qed

text \<open>An entry smaller than the buffer is in the stream as a whole or not at all, so that the log stays one.\<close>

lemma wal_append_small_fails:
  assumes holds: "wal_holds L es wr w" and short: "length es < 2 ^ 64 - 1"
    and run: "wal_append L op (wr, w) = (r, wr', w')" and err: "\<And>n. r \<noteq> Ok n"
    and small: "\<And>en. wal_entry_new (current_lsn wr) op w = Ok en \<Longrightarrow> length (entry_bytes L en) < BUF_CAPACITY"
  obtains es' where "wal_holds L es' wr' w'" and "current_lsn wr' = current_lsn wr + 1"
    and "es' = es \<or> (\<exists>en. wal_entry_new (current_lsn wr) op w = Ok en \<and> es' = es @ [en])"
proof -
  note found = that
  let ?wr = "wr\<lparr>current_lsn := current_lsn wr + 1\<rparr>"
  have holds0: "wal_holds L es ?wr w" using holds by (simp add: wal_holds_fields)
  show thesis
  proof (cases "wal_entry_new (current_lsn wr) op w")
    case (Ok en)
    show thesis
    proof (cases "serialize L en")
      case ser: (Ok bs)
      then have bs: "bs = entry_bytes L en" by (simp add: entry_bytes_def)
      obtain r1 wr1 w1 where wa: "on_file (write_all bs) (?wr, w) = (r1, wr1, w1)" by (metis prod_cases3)
      note wrs = wal_write_entry [OF holds0 short wa [unfolded bs]]
      show thesis
      proof (cases r1)
        case (Err x)
        with run Ok ser wa have res: "wr' = wr1" "w' = w1" by (auto simp: wal_append_def Let_def)
        obtain f where f: "write_all bs (wal_file ?wr, w) = (r1, f, w1)" "wr1 = ?wr\<lparr>wal_file := f\<rparr>"
          using wa by (auto simp: on_file_eq split: prod.splits)
        have "advances (wal_file ?wr, w) [] (f, w1)"
          by (rule write_all_small [OF wal_holds_seq [OF holds0] f(1)]) (use small [OF Ok] bs Err in simp_all)
        from advances_wal_holds [OF holds0 this] show thesis by (intro found [of es]) (simp_all add: res f(2))
      next
        case ok1: (Ok u)
        let ?wr1 = "wr1\<lparr>uncommitted_count := uncommitted_count wr1 + 1\<rparr>"
        obtain r2 wr2 w2 where sy: "wal_sync (?wr1, w1) = (r2, wr2, w2)" by (metis prod_cases3)
        have "wr' = wr2" "w' = w2"
          using run Ok ser wa ok1 sy err by (cases r2; auto simp: wal_append_def Let_def split: if_splits)+
        with wal_sync_holds(2,3) [OF _ sy] wrs(2,3) ok1 Ok show thesis by (intro found [of "es @ [en]"]) simp_all
      qed (use wrs(7) in simp)
    qed (use run Ok holds0 in \<open>auto simp: wal_append_def Let_def intro!: found [of es]\<close>)
  qed (use run holds0 in \<open>auto simp: wal_append_def Let_def intro!: found [of es]\<close>)
qed

text \<open>An entry that is larger than the buffer goes straight to the file, and an error leaves a piece of it there.\<close>

lemma wal_append_torn:
  assumes holds: "wal_holds L es wr w" and empty: "buf (wal_file wr) = []"
    and new: "wal_entry_new (current_lsn wr) op w = Ok en" and en: "loggable L en"
    and big: "BUF_CAPACITY \<le> length (entry_bytes L en)" and n: "n < length (entry_bytes L en)" and f: "faults w = [Some (Fault n x)]"
  obtains wr' w' where "wal_append L op (wr, w) = (Err (Io x), wr', w')" and "faults w' = []" and "now w' = now w"
    and "wal_stream wr' w' = log_bytes L es @ take n (entry_bytes L en)" and "seq_writer (wal_file wr') w'"
    and "current_lsn wr' = current_lsn wr + 1"
proof -
  let ?bs = "entry_bytes L en" and ?b = "wal_file wr"
  have ser: "serialize L en = Ok ?bs" by (rule serialize_loggable [OF en])
  obtain h w1 where pb: "put_bytes (take n ?bs) (inner ?b, w\<lparr>faults := []\<rparr>) = (h, w1)" by fastforce
  have ne: "?bs \<noteq> []" using n by auto
  have fw: "file_write_all ?bs (inner ?b, w) = (Err x, n, h, w1)"
    using f n pb ne by (simp add: file_write_all_def next_fault.simps Let_def min_def)
  have flush: "flush_buf (?b, w) = (Ok (), ?b, w)" using empty by (simp add: flush_buf_def file_write_all_def)
  have wa: "write_all ?bs (?b, w) = (Err x, ?b\<lparr>inner := h\<rparr>, w1)"
    using big empty fw by (simp add: write_all_def write_all_cold_def flush write_through_def)
  let ?wr = "wr\<lparr>current_lsn := current_lsn wr + 1, wal_file := ?b\<lparr>inner := h\<rparr>\<rparr>"
  have run: "wal_append L op (wr, w) = (Err (Io x), ?wr, w1)" by (simp add: wal_append_def new ser on_file_eq wa Let_def)
  have "faults w1 = [] \<and> now w1 = now w" using pb by (auto simp: put_bytes_def Let_def split: option.splits node.splits)
  moreover have "seq_handle (inner ?b) w" using wal_holds_seq [OF holds] by (simp add: seq_writer_def)
  note t = file_write_all_transfers(1) [OF this fw]
  have "wal_stream ?wr w1 = log_bytes L es @ take n ?bs" "seq_writer (wal_file ?wr) w1"
    using t wal_holds_stream [OF holds] empty
    by (auto simp: transfers_def wal_stream_def stream_def bw_path_def seq_writer_def)
  ultimately show ?thesis using that [OF run] by simp
qed

text \<open>An append without faults, whatever the file holds.\<close>

lemma wal_append_calm:
  assumes seq: "seq_writer (wal_file wr) w" and nf: "faults w = []" and ew: "sync_strategy wr = EveryWrite"
    and new: "wal_entry_new (current_lsn wr) op w = Ok en" and ser: "serialize L en = Ok (entry_bytes L en)"
  obtains wr' w' where "wal_append L op (wr, w) = (Ok (current_lsn wr), wr', w')"
    and "content w' (wal_path wr) = wal_stream wr w @ entry_bytes L en"
    and "durable w' (wal_path wr) = wal_stream wr w @ entry_bytes L en"
proof -
  let ?bs = "entry_bytes L en" and ?p = "wal_path wr"
  obtain r1 f w1 where wa: "write_all ?bs (wal_file wr, w) = (r1, f, w1)" by (metis prod_cases3)
  note acc = write_all_accepts [OF seq wa]
  then have r1: "r1 = Ok ()" using nf by (simp add: accepts_def)
  note adv1 = accepts_Ok [OF acc [unfolded r1]]
  obtain r2 g w2 where fl: "flush_buf (f, w1) = (r2, g, w2)" by (metis prod_cases3)
  have seq1: "seq_writer f w1" and nf1: "faults w1 = []"
    using adv1 frame_no_faults [OF advances_frame [OF adv1] nf] by (simp_all add: advances_def)
  note fls = flush_buf_advances [OF seq1 fl]
  note adv = advances_trans [OF adv1 fls(1)]
  have r2: "r2 = Ok ()" and nf2: "faults w2 = []" and g: "buf g = []"
    using fls nf1 frame_no_faults [OF advances_frame [OF fls(1)] nf1] by simp_all
  obtain r3 h w3 where sy: "sync_all (inner g, w2) = (r3, h, w3)" by (metis prod_cases3)
  have path: "w_path (inner g) = ?p" and c2: "content w2 ?p = wal_stream wr w @ ?bs"
    using adv g by (auto simp: advances_def wal_stream_def stream_def wal_path_def bw_path_def)
  have "is_file w2 (w_path (inner g))" using adv by (simp add: advances_def seq_writer_def seq_handle_def)
  note s = sync_all_effect [OF sy this, unfolded path]
  show ?thesis
  proof (rule that)
    show "wal_append L op (wr, w) = (Ok (current_lsn wr), wr\<lparr>current_lsn := current_lsn wr + 1, wal_file := g\<lparr>inner := h\<rparr>, uncommitted_count := 0\<rparr>, w3)"
      using wa r1 fl r2 sy s(8) [OF nf2] new ser ew
      by (simp add: wal_append_def wal_sync_def sync_due_def on_file_eq on_inner_eq Let_def)
  qed (use s(4,6) s(8) [OF nf2] c2 in simp_all)
qed

lemma wal_op_no_panic: "fst (wal_truncate s) \<noteq> Panic" "fst (wal_sync s) \<noteq> Panic"
  unfolding wal_truncate_def wal_sync_def
  by (intro andThen_no_panic; simp add: on_file_def on_inner_def fst_zoom flush_buf_no_panic whandle_no_panic split: prod.split)+

subsection \<open>Properties\<close>

text \<open>A small state for the witnesses: an empty log, no faults pending.\<close>

definition demo_writer :: "wal_sync_strategy \<Rightarrow> wal_writer" where
  "demo_writer s = \<lparr>wal_file = \<lparr>inner = \<lparr>w_path = [''l''], w_pos = 0, w_append = False\<rparr>, buf = []\<rparr>,
     current_lsn = 1, sync_strategy = s, uncommitted_count = 0\<rparr>"

definition demo_world :: world where
  "demo_world = \<lparr>fs = [([''l''], FileNode [] [])], faults = [], now = Some 5\<rparr>"

lemma demo_holds: "wal_holds L [] (demo_writer s) demo_world"
  by (simp add: wal_holds_def demo_writer_def demo_world_def seq_writer_def seq_handle_def is_file_def lookup_def
      content_def wal_stream_def stream_def bw_path_def)

lemma demo_appends: "\<exists>wr w. wal_append ref_libs (OpPut [1] [2]) (demo_writer s, demo_world) = (Ok 1, wr, w)"
proof -
  let ?e = "\<lparr>lsn = 1, operation = OpPut [1] [2], timestamp = 5\<rparr>"
  have new: "wal_entry_new (current_lsn (demo_writer s)) (OpPut [1] [2]) demo_world = Ok ?e"
    by (simp add: wal_entry_new_def demo_writer_def demo_world_def)
  have ser: "serialize ref_libs ?e = Ok (entry_bytes ref_libs ?e)"
    by (rule serialize_loggable) (simp add: loggable_def ref_libs_def ref_serialize_def ref_short_def ref_bytes_def)
  have "faults demo_world = []" "current_lsn (demo_writer s) = 1" by (simp_all add: demo_world_def demo_writer_def)
  then show ?thesis using wal_append_no_faults [OF demo_holds _ _ new ser] by fastforce
qed

text \<open>C11: A successful \<open>append\<close> with the \<open>EveryWrite\<close> strategy has put the entry, with the LSN it
  returns, behind the earlier ones, and the whole log is in the file and durable.\<close>

theorem append_durable:
  assumes "wal_holds L es wr w" and "length es < 2 ^ 64 - 1" and "sync_strategy wr = EveryWrite"
    and "wal_append L op (wr, w) = (Ok n, wr', w')"
  shows "\<exists>e. lsn e = n \<and> operation e = op \<and> current_lsn wr' = n + 1 \<and> wal_holds L (es @ [e]) wr' w' \<and>
    content w' (wal_path wr) = log_bytes L (es @ [e]) \<and> durable w' (wal_path wr) = log_bytes L (es @ [e])"
proof -
  obtain e where "wal_entry_new n op w = Ok e" "current_lsn wr' = n + 1" "wal_holds L (es @ [e]) wr' w'"
    "content w' (wal_path wr) = log_bytes L (es @ [e])" "durable w' (wal_path wr) = log_bytes L (es @ [e])"
    by (rule wal_append_Ok [OF assms(1,2,4)]) (use assms(3) in blast)
  moreover from this(1) have "lsn e = n" "operation e = op"
    by (auto simp: wal_entry_new_def split: option.splits)
  ultimately show ?thesis by blast
qed

theorem append_durable_witness:
  "\<exists>wr w e. wal_append ref_libs (OpPut [1] [2]) (demo_writer EveryWrite, demo_world) = (Ok 1, wr, w) \<and>
     lsn e = 1 \<and> durable w [''l''] = log_bytes ref_libs [e]"
proof -
  obtain wr w where run: "wal_append ref_libs (OpPut [1] [2]) (demo_writer EveryWrite, demo_world) = (Ok 1, wr, w)"
    using demo_appends by blast
  have "sync_strategy (demo_writer EveryWrite) = EveryWrite" "wal_path (demo_writer EveryWrite) = [''l'']"
    by (simp_all add: demo_writer_def wal_path_def bw_path_def)
  with append_durable [OF demo_holds _ _ run] run show ?thesis by auto
qed

text \<open>With \<open>EveryNEntries c\<close> fewer than \<open>c\<close> entries are ever waiting for a sync after a
  successful \<open>append\<close>, and all the others are durable.\<close>

lemma append_bounded_loss:
  assumes "wal_holds L es wr w" and "length es < 2 ^ 64 - 1" and "sync_strategy wr = EveryNEntries c" and "0 < c"
    and "wal_append L op (wr, w) = (Ok n, wr', w')"
  shows "\<exists>e. operation e = op \<and> unat (uncommitted_count wr') < unat c \<and>
    prefix (log_bytes L (take (length es + 1 - unat (uncommitted_count wr')) (es @ [e]))) (durable w' (wal_path wr))"
proof -
  obtain e where e: "wal_entry_new n op w = Ok e" "wal_holds L (es @ [e]) wr' w'" "wal_frame (wr, w) (wr', w')"
    "uncommitted_count wr' < c"
    by (rule wal_append_Ok [OF assms(1,2,5)]) (use assms(3,4) in blast)
  from e(1) have "operation e = op" by (auto simp: wal_entry_new_def split: option.splits)
  moreover have "wal_path wr' = wal_path wr" using e(3) by (simp add: wal_frame_def)
  ultimately show ?thesis using e(2,4) by (auto simp: wal_holds_def word_less_nat_alt)
qed

text \<open>A failed \<open>append\<close> changes no other file and leaves the log followed by a piece (possibly
  all) of the encoding of the rejected operation; nothing more of the log becomes durable.\<close>

lemma append_failure:
  assumes "wal_holds L es wr w" and "wal_append L op (wr, w) = (Err x, wr', w')"
  shows "\<exists>torn. wal_stream wr' w' = log_bytes L es @ torn \<and>
    (torn = [] \<or> (\<exists>e. operation e = op \<and> prefix torn (entry_bytes L e))) \<and>
    durable w' (wal_path wr) = durable w (wal_path wr) \<and> frame {wal_path wr} w w'"
  by (rule wal_append_error [OF assms]) (auto simp: wal_frame_def)

text \<open>A successful \<open>truncate\<close> leaves an empty log that the next entry starts at offset 0 and LSN 1;
  it does not sync, so the durable content of the file is what it was.\<close>

lemma truncate_restarts:
  assumes "wal_holds L es wr w" and "wal_truncate (wr, w) = (Ok (), wr', w')"
  shows "wal_holds L [] wr' w' \<and> current_lsn wr' = 1 \<and> content w' (wal_path wr) = [] \<and>
    durable w' (wal_path wr) = durable w (wal_path wr)"
  using wal_truncate_holds [OF assms] by blast

end
