(* ===== verification/Wal_Reader.thy ===== *)
theory Wal_Reader
  imports Wal_Writer
begin

section \<open>Reading the log and recovering from it (src/src/wal/reader.rs, recovery.rs)\<close>

text \<open>
  \<open>WalReader\<close> keeps its own \<open>position\<close> beside the cursor of the file: the cursor moves with
  every read, the position only when an entry was returned. Positions are natural numbers (a
  file is shorter than \<open>2 ^ 63\<close> bytes). The recovery loops are total functions: an entry that is
  returned takes at least its header from the rest of the file. \<open>scan\<close> is the abstract
  specification of recovery, a function of the content of the file alone, and the loops are
  shown to compute it.
\<close>

record wal_reader =
  rd_file :: rhandle
  position :: nat
  file_size :: nat

definition on_rd :: "(rhandle \<times> world, 'a) io \<Rightarrow> (wal_reader \<times> world, 'a) io" where
  "on_rd = zoom rd_file (\<lambda>h rd. rd\<lparr>rd_file := h\<rparr>)"

definition wal_reader_open :: "path \<Rightarrow> world \<Rightarrow> wal_reader result \<times> world" where
  "wal_reader_open p w = andThen (from_io (file_open p w)) (\<lambda>h w.
     andThen (from_io (metadata_len p w)) (\<lambda>size w.
       (Ok \<lparr>rd_file = h, position = 0, file_size = size\<rparr>, w)))"

definition next_entry :: "'h libs \<Rightarrow> wal_reader \<times> world \<Rightarrow> wal_entry option result \<times> wal_reader \<times> world" where
  "next_entry L = (\<lambda>(rd, w).
     if file_size rd \<le> position rd then (Ok None, rd, w)
     else if file_size rd < position rd + WAL_HEADER_SIZE then (Ok None, rd, w)
     else andThen (from_io (on_rd (read_exact WAL_HEADER_SIZE) (rd, w))) (\<lambda>header (rd, w).
       let data_len = unat (from_le_bytes (slice 12 16 header) :: u32) in
       if file_size rd < position rd + WAL_HEADER_SIZE + data_len then (Ok None, rd, w)
       else andThen (from_io (on_rd (read_exact data_len) (rd, w))) (\<lambda>data s.
         andThen (deserialize L (header @ data), s) (\<lambda>entry (rd, w).
           (Ok (Some entry), rd\<lparr>position := position rd + (WAL_HEADER_SIZE + data_len)\<rparr>, w)))))"

definition is_at_eof :: "wal_reader \<Rightarrow> bool" where
  "is_at_eof rd = (file_size rd \<le> position rd)"

text \<open>\<open>WalIterator::next\<close>: \<open>None\<close> ends the iteration.\<close>

definition wal_iterator_next :: "'h libs \<Rightarrow> wal_reader \<times> world \<Rightarrow> wal_entry result option \<times> wal_reader \<times> world" where
  "wal_iterator_next L s = (case next_entry L s of
     (Ok (Some entry), s') \<Rightarrow> (Some (Ok entry), s')
   | (Ok None, s') \<Rightarrow> (None, s')
   | (Err e, s') \<Rightarrow> (Some (Err e), s')
   | (Panic, s') \<Rightarrow> (Some Panic, s'))"

record recovery_result =
  entries_recovered :: u64
  entries_corrupted :: u64
  last_lsn :: u64
  was_truncated :: bool

definition recovery_start :: recovery_result where
  "recovery_start = \<lparr>entries_recovered = 0, entries_corrupted = 0, last_lsn = 0, was_truncated = False\<rparr>"

lemma next_entry_progress:
  assumes "next_entry L (rd, w) = (Ok (Some e), rd', w')"
  shows "file_size rd' = file_size rd" and "position rd < position rd'" and "position rd' \<le> file_size rd"
  using assms
  by (auto simp: next_entry_def andThen_Ok_iff on_rd_def zoom_def Let_def WAL_HEADER_SIZE_def
      split: if_splits prod.splits)

lemma next_entry_measure:
  "next_entry L (rd, w) = (Ok (Some e), rd', w') \<Longrightarrow>
   file_size rd' - position rd' < file_size rd - position rd"
  using next_entry_progress by fastforce

function recover_loop :: "'h libs \<Rightarrow> wal_reader \<times> world \<Rightarrow> wal_entry list \<Rightarrow> recovery_result \<Rightarrow>
    (wal_entry list \<times> recovery_result) result \<times> wal_reader \<times> world" where
  "recover_loop L s entries res = (case next_entry L s of
     (Ok (Some entry), s') \<Rightarrow>
       recover_loop L s' (entries @ [entry])
         (res\<lparr>last_lsn := lsn entry, entries_recovered := entries_recovered res + 1\<rparr>)
   | (Ok None, s') \<Rightarrow>
       (Ok (entries, if \<not> is_at_eof (fst s') then res\<lparr>was_truncated := True\<rparr> else res), s')
   | (Err (WalCorruption m), s') \<Rightarrow>
       (Ok (entries, res\<lparr>entries_corrupted := entries_corrupted res + 1, was_truncated := True\<rparr>), s')
   | (Err e, s') \<Rightarrow> (Err e, s')
   | (Panic, s') \<Rightarrow> (Panic, s'))"
  by pat_completeness auto
termination
  by (relation "measure (\<lambda>(L, (rd, w), es, res). file_size rd - position rd)")
    (auto dest!: sym [of _ "next_entry _ _"] intro: next_entry_measure)

declare recover_loop.simps [simp del]

definition recover :: "'h libs \<Rightarrow> path \<Rightarrow> world \<Rightarrow> (wal_entry list \<times> recovery_result) result \<times> world" where
  "recover L p w = andThen (wal_reader_open p w) (\<lambda>rd w.
     case recover_loop L (rd, w) [] recovery_start of (r, rd, w) \<Rightarrow> (r, w))"

function verify_loop :: "'h libs \<Rightarrow> wal_reader \<times> world \<Rightarrow> recovery_result \<Rightarrow>
    recovery_result result \<times> wal_reader \<times> world" where
  "verify_loop L s res = (case next_entry L s of
     (Ok (Some entry), s') \<Rightarrow>
       verify_loop L s' (res\<lparr>last_lsn := lsn entry, entries_recovered := entries_recovered res + 1\<rparr>)
   | (Ok None, s') \<Rightarrow>
       (Ok (if \<not> is_at_eof (fst s') then res\<lparr>was_truncated := True\<rparr> else res), s')
   | (Err (WalCorruption m), s') \<Rightarrow>
       (Ok (res\<lparr>entries_corrupted := entries_corrupted res + 1, was_truncated := True\<rparr>), s')
   | (Err e, s') \<Rightarrow> (Err e, s')
   | (Panic, s') \<Rightarrow> (Panic, s'))"
  by pat_completeness auto
termination
  by (relation "measure (\<lambda>(L, (rd, w), res). file_size rd - position rd)")
    (auto dest!: sym [of _ "next_entry _ _"] intro: next_entry_measure)

declare verify_loop.simps [simp del]

definition verify :: "'h libs \<Rightarrow> path \<Rightarrow> world \<Rightarrow> recovery_result result \<times> world" where
  "verify L p w = andThen (wal_reader_open p w) (\<lambda>rd w.
     case verify_loop L (rd, w) recovery_start of (r, rd, w) \<Rightarrow> (r, w))"

subsection \<open>Specification: scanning the content\<close>

datatype tail_state = Clean | Partial | Corrupt

function scan :: "'h libs \<Rightarrow> bytes \<Rightarrow> wal_entry list \<times> tail_state" where
  "scan L c =
     (if c = [] then ([], Clean)
      else if length c < WAL_HEADER_SIZE then ([], Partial)
      else let n = WAL_HEADER_SIZE + unat (from_le_bytes (slice 12 16 c) :: u32) in
        if length c < n then ([], Partial)
        else (case deserialize L (take n c) of
          Ok e \<Rightarrow> (case scan L (drop n c) of (es, t) \<Rightarrow> (e # es, t))
        | _ \<Rightarrow> ([], Corrupt)))"
  by pat_completeness auto
termination
  by (relation "measure (\<lambda>(L, c). length c)") (auto simp: WAL_HEADER_SIZE_def)

declare scan.simps [simp del]

definition summary :: "wal_entry list \<times> tail_state \<Rightarrow> recovery_result \<Rightarrow> recovery_result" where
  "summary sc res = \<lparr>
     entries_recovered = entries_recovered res + of_nat (length (fst sc)),
     entries_corrupted = entries_corrupted res + (if snd sc = Corrupt then 1 else 0),
     last_lsn = (if fst sc = [] then last_lsn res else lsn (last (fst sc))),
     was_truncated = (was_truncated res \<or> snd sc \<noteq> Clean)\<rparr>"

text \<open>The reader is aligned: cursor and position agree and the size is that of the file.\<close>

definition aligned :: "wal_reader \<Rightarrow> world \<Rightarrow> bool" where
  "aligned rd w \<longleftrightarrow> faults w = [] \<and> r_pos (rd_file rd) = position rd \<and> position rd \<le> file_size rd \<and>
     file_size rd = length (content w (r_path (rd_file rd)))"

definition rest_of :: "wal_reader \<Rightarrow> world \<Rightarrow> bytes" where
  "rest_of rd w = drop (position rd) (content w (r_path (rd_file rd)))"

lemma read_exact_aligned:
  assumes "aligned rd w" and "n \<le> length (rest_of rd w)"
  shows "on_rd (read_exact n) (rd, w) =
    (Ok (take n (rest_of rd w)), rd\<lparr>rd_file := (rd_file rd)\<lparr>r_pos := position rd + n\<rparr>\<rparr>, w)"
proof -
  have "r_pos (rd_file rd) + n \<le> length (content w (r_path (rd_file rd)))"
    using assms by (auto simp: aligned_def rest_of_def)
  with assms show ?thesis
    by (simp add: aligned_def rest_of_def on_rd_def zoom_def read_exact_no_faults slice_def)
qed

text \<open>One step of the reader is one step of the scan.\<close>

lemma next_entry_scan:
  assumes al: "aligned rd w" and c: "c = rest_of rd w"
  shows "(if length c < WAL_HEADER_SIZE then next_entry L (rd, w) = (Ok None, rd, w)
     else let n = WAL_HEADER_SIZE + unat (from_le_bytes (slice 12 16 c) :: u32) in
       if length c < n then \<exists>rd'. next_entry L (rd, w) = (Ok None, rd', w) \<and>
         position rd' = position rd \<and> file_size rd' = file_size rd
       else \<exists>rd'. (case deserialize L (take n c) of
           Ok e \<Rightarrow> next_entry L (rd, w) = (Ok (Some e), rd', w) \<and> aligned rd' w \<and> rest_of rd' w = drop n c
         | Err x \<Rightarrow> next_entry L (rd, w) = (Err x, rd', w) | Panic \<Rightarrow> False))"
proof (cases "length c < WAL_HEADER_SIZE")
  case True
  with al c show ?thesis by (auto simp: next_entry_def aligned_def rest_of_def)
next
  case False
  let ?h = "take WAL_HEADER_SIZE c"
  let ?d = "unat (from_le_bytes (slice 12 16 c) :: u32)"
  let ?rd1 = "rd\<lparr>rd_file := (rd_file rd)\<lparr>r_pos := position rd + WAL_HEADER_SIZE\<rparr>\<rparr>"
  have size: "file_size rd = position rd + length c" using al by (simp add: aligned_def rest_of_def c)
  have hslice: "slice 12 16 ?h = slice 12 16 c"
    using False by (simp add: slice_def drop_take WAL_HEADER_SIZE_def)
  have pos: "\<not> file_size rd \<le> position rd"
    using False size by (auto simp: WAL_HEADER_SIZE_def)
  have rd1: "on_rd (read_exact WAL_HEADER_SIZE) (rd, w) = (Ok ?h, ?rd1, w)"
    using read_exact_aligned [OF al, of WAL_HEADER_SIZE] False by (simp add: c)
  have start: "next_entry L (rd, w) =
      (if length c < WAL_HEADER_SIZE + ?d then (Ok None, ?rd1, w)
       else andThen (from_io (on_rd (read_exact ?d) (?rd1, w))) (\<lambda>data s.
         andThen (deserialize L (?h @ data), s) (\<lambda>entry (rd, w).
           (Ok (Some entry), rd\<lparr>position := position rd + (WAL_HEADER_SIZE + ?d)\<rparr>, w))))"
    using False size pos by (simp add: next_entry_def Let_def rd1 hslice)
  show ?thesis
  proof (cases "length c < WAL_HEADER_SIZE + ?d")
    case True
    with start False show ?thesis by (auto simp: Let_def)
  next
    case full: False
    let ?rd2 = "rd\<lparr>rd_file := (rd_file rd)\<lparr>r_pos := position rd + (WAL_HEADER_SIZE + ?d)\<rparr>\<rparr>"
    have rd2: "on_rd (read_exact ?d) (?rd1, w) = (Ok (take ?d (drop WAL_HEADER_SIZE c)), ?rd2, w)"
      using al full c size
      by (simp add: on_rd_def zoom_def aligned_def read_exact_no_faults slice_def rest_of_def add.commute
          drop_drop)
    have whole: "?h @ take ?d (drop WAL_HEADER_SIZE c) = take (WAL_HEADER_SIZE + ?d) c"
      by (simp add: take_add)
    have run: "next_entry L (rd, w) = andThen (deserialize L (take (WAL_HEADER_SIZE + ?d) c), ?rd2, w)
        (\<lambda>entry (rd, w). (Ok (Some entry), rd\<lparr>position := position rd + (WAL_HEADER_SIZE + ?d)\<rparr>, w))"
      using start full by (simp add: rd2 whole)
    have al2: "aligned (?rd2\<lparr>position := position rd + (WAL_HEADER_SIZE + ?d)\<rparr>) w"
      "rest_of (?rd2\<lparr>position := position rd + (WAL_HEADER_SIZE + ?d)\<rparr>) w = drop (WAL_HEADER_SIZE + ?d) c"
      using al full size c by (auto simp: aligned_def rest_of_def drop_drop add.commute)
    show ?thesis
      by (cases L "take (WAL_HEADER_SIZE + ?d) c" rule: deserialize_cases)
        (use False full run al2 in \<open>auto simp: Let_def\<close>)
  qed
qed

lemma recover_loop_scan:
  "aligned rd w \<Longrightarrow> \<exists>rd'. recover_loop L (rd, w) es res =
     (Ok (es @ fst (scan L (rest_of rd w)), summary (scan L (rest_of rd w)) res), rd', w)"
proof (induction L "(rd, w)" es res arbitrary: rd rule: recover_loop.induct)
  case (1 L es res)
  let ?c = "rest_of rd w"
  let ?n = "WAL_HEADER_SIZE + unat (from_le_bytes (slice 12 16 ?c) :: u32)"
  have size: "file_size rd = position rd + length ?c"
    using 1(2) by (simp add: aligned_def rest_of_def)
  note step = next_entry_scan [OF 1(2) refl, of L]
  consider "?c = []" | "?c \<noteq> []" "length ?c < WAL_HEADER_SIZE"
    | "WAL_HEADER_SIZE \<le> length ?c" "length ?c < ?n"
    | "WAL_HEADER_SIZE \<le> length ?c" "?n \<le> length ?c" by linarith
  then show ?case
  proof cases
    case 1
    then have "scan L ?c = ([], Clean)" by (subst scan.simps) simp
    with 1 step size show ?thesis
      by (simp add: recover_loop.simps [of L "(rd, w)"] summary_def is_at_eof_def WAL_HEADER_SIZE_def)
  next
    case 2
    then have "scan L ?c = ([], Partial)" by (subst scan.simps) simp
    with 2 step size show ?thesis
      by (simp add: recover_loop.simps [of L "(rd, w)"] summary_def is_at_eof_def)
  next
    case 3
    then have nonempty: "?c \<noteq> []" by (auto simp: WAL_HEADER_SIZE_def)
    with 3 have "scan L ?c = ([], Partial)" by (subst scan.simps) (simp add: Let_def)
    with 3 nonempty step size show ?thesis
      by (auto simp: recover_loop.simps [of L "(rd, w)"] summary_def is_at_eof_def Let_def)
  next
    case 4
    have nonempty: "?c \<noteq> []" using 4 by (auto simp: WAL_HEADER_SIZE_def)
    show ?thesis
    proof (cases L "take ?n ?c" rule: deserialize_cases)
      case (1 e)
      with step 4 obtain rd' where ne: "next_entry L (rd, w) = (Ok (Some e), rd', w)"
        and al: "aligned rd' w" and rest: "rest_of rd' w = drop ?n ?c" by (auto simp: Let_def)
      obtain es' t where sc: "scan L (drop ?n ?c) = (es', t)" by (cases "scan L (drop ?n ?c)")
      have "scan L ?c = (e # es', t)"
        using 4 nonempty 1 sc by (subst scan.simps) (simp add: Let_def)
      with "1.hyps" [OF ne [symmetric] refl refl al] ne rest sc show ?thesis
        by (auto simp: recover_loop.simps [of L "(rd, w)"] summary_def)
    next
      case (2 m)
      with step 4 obtain rd' where "next_entry L (rd, w) = (Err (WalCorruption m), rd', w)"
        by (auto simp: Let_def)
      moreover have "scan L ?c = ([], Corrupt)"
        using 4 nonempty 2 by (subst scan.simps) (simp add: Let_def)
      ultimately show ?thesis
        by (simp add: recover_loop.simps [of L "(rd, w)"] summary_def)
    qed
  qed
qed

lemma wal_reader_open_no_faults:
  assumes "faults w = []" and "is_file w p"
  obtains rd where "wal_reader_open p w = (Ok rd, w)" and "aligned rd w" and "rest_of rd w = content w p"
proof -
  let ?rd = "\<lparr>rd_file = \<lparr>r_path = p, r_pos = 0\<rparr>, position = 0, file_size = length (content w p)\<rparr>"
  have "wal_reader_open p w = (Ok ?rd, w)"
    using assms by (simp add: wal_reader_open_def io_simps)
  moreover have "aligned ?rd w" "rest_of ?rd w = content w p"
    using assms by (simp_all add: aligned_def rest_of_def)
  ultimately show thesis by (rule that)
qed

lemma recover_scan:
  assumes "faults w = []" and "is_file w p"
  shows "recover L p w =
    (Ok (fst (scan L (content w p)), summary (scan L (content w p)) recovery_start), w)"
proof -
  obtain rd where rd: "wal_reader_open p w = (Ok rd, w)" "aligned rd w" "rest_of rd w = content w p"
    using wal_reader_open_no_faults [OF assms] by blast
  obtain rd' where "recover_loop L (rd, w) [] recovery_start =
      (Ok (fst (scan L (content w p)), summary (scan L (content w p)) recovery_start), rd', w)"
    using recover_loop_scan [OF rd(2), of L "[]" recovery_start] rd(3) by auto
  then show ?thesis by (simp add: recover_def rd(1))
qed

text \<open>\<open>verify\<close> is \<open>recover\<close> without the entries, in every world.\<close>

fun drop_entries :: "('a \<times> 'b) result \<Rightarrow> 'b result" where
  "drop_entries (Ok (es, res)) = Ok res"
| "drop_entries (Err e) = Err e"
| "drop_entries Panic = Panic"

lemma verify_loop_recover_loop:
  "verify_loop L s res = (case recover_loop L s es res of (r, s') \<Rightarrow> (drop_entries r, s'))"
proof (induction L s es res rule: recover_loop.induct)
  case (1 L s es res)
  obtain r s' where ne: "next_entry L s = (r, s')" by (cases "next_entry L s")
  show ?case
  proof (cases r)
    case (Ok x)
    show ?thesis
    proof (cases x)
      case None
      with ne Ok show ?thesis by (simp add: verify_loop.simps [of L s] recover_loop.simps [of L s])
    next
      case (Some e)
      with ne Ok "1.IH" show ?thesis by (simp add: verify_loop.simps [of L s] recover_loop.simps [of L s])
    qed
  next
    case (Err e)
    with ne show ?thesis
      by (cases e) (simp_all add: verify_loop.simps [of L s] recover_loop.simps [of L s])
  next
    case Panic
    with ne show ?thesis by (simp add: verify_loop.simps [of L s] recover_loop.simps [of L s])
  qed
qed

lemma verify_recover: "verify L p w = (case recover L p w of (r, w') \<Rightarrow> (drop_entries r, w'))"
proof (cases "wal_reader_open p w")
  case (Pair r w1)
  show ?thesis
  proof (cases r)
    case (Ok rd)
    with Pair verify_loop_recover_loop [of L "(rd, w1)" recovery_start "[]"] show ?thesis
      by (simp add: verify_def recover_def split: prod.splits)
  qed (use Pair in \<open>simp_all add: verify_def recover_def\<close>)
qed

subsection \<open>What a scan finds\<close>

lemma scan_entry:
  assumes rt: "bincode_roundtrip L" and ok: "loggable L e"
  shows "scan L (entry_bytes L e @ rest) = (e # fst (scan L rest), snd (scan L rest))"
proof -
  let ?b = "entry_bytes L e"
  have len: "WAL_HEADER_SIZE \<le> length ?b" by (rule entry_bytes_len_field(1) [OF ok])
  have n: "WAL_HEADER_SIZE + unat (from_le_bytes (slice 12 16 (?b @ rest)) :: u32) = length ?b"
    using entry_bytes_len_field(2) [OF ok] len by simp
  have nonempty: "?b \<noteq> []" using len by (auto simp: WAL_HEADER_SIZE_def)
  have "deserialize L ?b = Ok e" using deserialize_entry_bytes [OF rt ok, of "[]"] by simp
  with len nonempty show ?thesis
    by (subst scan.simps) (simp add: Let_def n split: prod.split)
qed

lemma scan_log:
  assumes rt: "bincode_roundtrip L" and ok: "list_all (loggable L) es"
  shows "scan L (log_bytes L es @ rest) = (es @ fst (scan L rest), snd (scan L rest))"
  using ok by (induction es) (simp_all add: scan_entry [OF rt])

text \<open>A header that promises more bytes than there are ends the scan.\<close>

lemma scan_unfinished:
  assumes ok: "loggable L e" and hd: "WAL_HEADER_SIZE \<le> length t" "slice 12 16 t = slice 12 16 (entry_bytes L e)"
    and short: "length t < length (entry_bytes L e)"
  shows "scan L t = ([], Partial)"
proof -
  have "WAL_HEADER_SIZE + unat (from_le_bytes (slice 12 16 t) :: u32) = length (entry_bytes L e)"
    using entry_bytes_len_field(1) [OF ok] entry_bytes_len_field(2) [OF ok, of "[]"] hd(2) by simp
  with short have "length t < WAL_HEADER_SIZE + unat (from_le_bytes (slice 12 16 t) :: u32)" by simp
  with hd(1) show ?thesis by (subst scan.simps) (auto simp: Let_def WAL_HEADER_SIZE_def)
qed

lemma scan_torn:
  assumes ok: "loggable L e" and torn: "strict_prefix t (entry_bytes L e)"
  shows "scan L t = ([], if t = [] then Clean else Partial)"
proof (cases "length t < WAL_HEADER_SIZE")
  case True
  then show ?thesis by (subst scan.simps) simp
next
  case False
  obtain u where u: "entry_bytes L e = t @ u" "u \<noteq> []"
    using torn by (auto simp: strict_prefix_def prefix_def)
  have "slice 12 16 t = slice 12 16 (entry_bytes L e)"
    using False by (simp add: u(1) slice_append_here WAL_HEADER_SIZE_def)
  with scan_unfinished [OF ok _ this] False u show ?thesis by (auto simp: WAL_HEADER_SIZE_def)
qed

lemma scan_behind_torn:
  assumes ok: "loggable L e" and n: "WAL_HEADER_SIZE \<le> n" "n + length bs < length (entry_bytes L e)"
  shows "scan L (take n (entry_bytes L e) @ bs) = ([], Partial)"
proof (rule scan_unfinished [OF ok])
  have "slice 12 16 (take n (entry_bytes L e) @ drop n (entry_bytes L e)) = slice 12 16 (take n (entry_bytes L e))"
    using n by (intro slice_append_here) (simp add: WAL_HEADER_SIZE_def)
  then show "slice 12 16 (take n (entry_bytes L e) @ bs) = slice 12 16 (entry_bytes L e)"
    using n by (simp add: slice_append_here WAL_HEADER_SIZE_def)
qed (use n in simp_all)

lemma scan_empty [simp]: "scan L [] = ([], Clean)"
  by (subst scan.simps) simp

text \<open>A cut anywhere in a log leaves a prefix of its entries, and possibly a torn one.\<close>

lemma prefix_log_cases:
  assumes "prefix c (log_bytes L es)"
  obtains k t where "c = log_bytes L (take k es) @ t" and "k \<le> length es"
    and "t = [] \<or> k < length es \<and> strict_prefix t (entry_bytes L (es ! k))"
proof -
  have "\<exists>k t. c = log_bytes L (take k es) @ t \<and> k \<le> length es \<and>
      (t = [] \<or> k < length es \<and> strict_prefix t (entry_bytes L (es ! k)))"
    using assms
  proof (induction es arbitrary: c)
    case Nil
    then show ?case by simp
  next
    case (Cons e es)
    show ?case
    proof (cases "strict_prefix c (entry_bytes L e)")
      case True
      then show ?thesis by (intro exI [of _ 0] exI [of _ c]) simp
    next
      case False
      with Cons.prems obtain d where d: "c = entry_bytes L e @ d" "prefix d (log_bytes L es)"
        by (auto simp: prefix_append strict_prefix_def)
      from Cons.IH [OF d(2)] obtain k t where "d = log_bytes L (take k es) @ t" "k \<le> length es"
        "t = [] \<or> k < length es \<and> strict_prefix t (entry_bytes L (es ! k))" by blast
      with d(1) show ?thesis by (intro exI [of _ "Suc k"] exI [of _ t]) auto
    qed
  qed
  with that show thesis by blast
qed

lemma scan_prefix:
  assumes rt: "bincode_roundtrip L" and ok: "list_all (loggable L) es" and pre: "prefix c (log_bytes L es)"
  obtains k where "k \<le> length es" and "fst (scan L c) = take k es" and "snd (scan L c) \<noteq> Corrupt"
    and "prefix (log_bytes L (take k es)) c"
proof -
  from prefix_log_cases [OF pre] obtain k t where c: "c = log_bytes L (take k es) @ t" "k \<le> length es"
    and t: "t = [] \<or> k < length es \<and> strict_prefix t (entry_bytes L (es ! k))" by blast
  have "list_all (loggable L) (take k es)" using ok by (auto simp: list_all_iff dest: in_set_takeD)
  note sc = scan_log [OF rt this, of t]
  have "scan L t = ([], if t = [] then Clean else Partial)"
    using t ok scan_torn [of L "es ! k" t] by (auto simp: list_all_length)
  with sc c that [of k] show thesis by auto
qed

subsection \<open>The iterator after an error\<close>

text \<open>
  After an entry whose checksum does not match, the position of the reader stays behind its
  cursor. When the cursor has reached the end of the file and the position has not, \<open>next\<close>
  fails with an end-of-file error, and the state it leaves fails again.
\<close>

lemma wal_iterator_stuck:
  assumes nf: "faults w = []" and pos: "position rd + WAL_HEADER_SIZE \<le> file_size rd"
    and eof: "length (content w (r_path (rd_file rd))) \<le> r_pos (rd_file rd)"
  shows "wal_iterator_next L (rd, w) = (Some (Err (Io eof_error)), rd, w)"
proof -
  have "on_rd (read_exact WAL_HEADER_SIZE) (rd, w) = (Err eof_error, rd, w)"
    using nf eof by (simp add: on_rd_def zoom_def read_exact_eof WAL_HEADER_SIZE_def max_def)
  with pos show ?thesis by (simp add: wal_iterator_next_def next_entry_def WAL_HEADER_SIZE_def)
qed

fun wal_iterate :: "'h libs \<Rightarrow> nat \<Rightarrow> wal_reader \<times> world \<Rightarrow> wal_entry result option list" where
  "wal_iterate L 0 s = []"
| "wal_iterate L (Suc n) s = (case wal_iterator_next L s of (r, s') \<Rightarrow> r # wal_iterate L n s')"

lemma wal_iterate_stuck:
  assumes "faults w = []" and "position rd + WAL_HEADER_SIZE \<le> file_size rd"
    and "length (content w (r_path (rd_file rd))) \<le> r_pos (rd_file rd)"
  shows "wal_iterate L n (rd, w) = replicate n (Some (Err (Io eof_error)))"
  by (induction n) (simp_all add: wal_iterator_stuck [OF assms])

lemma next_entry_corrupt_state:
  assumes al: "aligned rd w" and c: "rest_of rd w = b"
    and len: "length b = WAL_HEADER_SIZE + unat (from_le_bytes (slice 12 16 b) :: u32)"
    and bad: "deserialize L b = Err e"
  obtains rd' where "wal_iterator_next L (rd, w) = (Some (Err e), rd', w)"
    and "position rd' = position rd" and "file_size rd' = file_size rd"
    and "r_path (rd_file rd') = r_path (rd_file rd)"
    and "r_pos (rd_file rd') = length (content w (r_path (rd_file rd)))"
proof -
  let ?d = "unat (from_le_bytes (slice 12 16 b) :: u32)"
  let ?rd1 = "rd\<lparr>rd_file := (rd_file rd)\<lparr>r_pos := position rd + WAL_HEADER_SIZE\<rparr>\<rparr>"
  let ?rd2 = "rd\<lparr>rd_file := (rd_file rd)\<lparr>r_pos := position rd + (WAL_HEADER_SIZE + ?d)\<rparr>\<rparr>"
  have size: "file_size rd = position rd + length b" using al c by (auto simp: aligned_def rest_of_def)
  have rd1: "on_rd (read_exact WAL_HEADER_SIZE) (rd, w) = (Ok (take WAL_HEADER_SIZE b), ?rd1, w)"
    using read_exact_aligned [OF al, of WAL_HEADER_SIZE] len by (simp add: c)
  have hslice: "slice 12 16 (take WAL_HEADER_SIZE b) = slice 12 16 b"
    by (simp add: slice_def drop_take WAL_HEADER_SIZE_def)
  have "drop (position rd + WAL_HEADER_SIZE) (content w (r_path (rd_file rd))) = drop WAL_HEADER_SIZE b"
    unfolding c [symmetric] rest_of_def by (simp add: add.commute)
  moreover have "length (drop WAL_HEADER_SIZE b) = ?d" using len by simp
  ultimately have tail: "slice (position rd + WAL_HEADER_SIZE) (position rd + WAL_HEADER_SIZE + ?d)
      (content w (r_path (rd_file rd))) = drop WAL_HEADER_SIZE b" by (simp add: slice_def)
  have room: "position rd + WAL_HEADER_SIZE + ?d \<le> length (content w (r_path (rd_file rd)))"
    using al size len by (simp add: aligned_def)
  have rd2: "on_rd (read_exact ?d) (?rd1, w) = (Ok (drop WAL_HEADER_SIZE b), ?rd2, w)"
    using al room tail by (simp add: on_rd_def zoom_def aligned_def read_exact_no_faults add.assoc)
  have pos: "position rd < file_size rd" using size len by (simp add: WAL_HEADER_SIZE_def)
  have "next_entry L (rd, w) = (Err e, ?rd2, w)"
    using size len bad pos by (simp add: next_entry_def Let_def rd1 hslice rd2)
  then have "wal_iterator_next L (rd, w) = (Some (Err e), ?rd2, w)" by (simp add: wal_iterator_next_def)
  then show thesis using al size len by (intro that [of ?rd2]) (simp_all add: aligned_def)
qed


subsection \<open>Properties\<close>

text \<open>Without input/output errors \<open>recover\<close> terminates and computes the specification \<open>scan\<close> of the
  file's content: the entries up to the first incomplete or damaged one, with the counters of the
  result telling how many there were, the last LSN, and whether the log ended there.\<close>

lemma recover_refines_scan:
  assumes "faults w = []" and "is_file w p"
  shows "recover L p w =
    (Ok (fst (scan L (content w p)), summary (scan L (content w p)) recovery_start), w)"
  by (rule recover_scan [OF assms])



text \<open>A whole log followed by anything is recovered completely up to that point.\<close>

lemma recover_whole_log:
  assumes "bincode_roundtrip L" and "list_all (loggable L) es" and "faults w = []" and "is_file w p"
    and "content w p = log_bytes L es @ rest"
  shows "\<exists>more res. recover L p w = (Ok (es @ more, res), w) \<and> (rest = [] \<longrightarrow> more = [] \<and> \<not> was_truncated res)"
  using recover_scan [OF assms(3,4), of L] scan_log [OF assms(1,2), of rest] assms(5)
  by (auto simp: summary_def recovery_start_def)

text \<open>\<open>verify\<close> answers in every world, errors included, what \<open>recover\<close> answers without the entries.\<close>

lemma verify_equals_recover:
  "verify L p w = (case recover L p w of (r, w') \<Rightarrow> (drop_entries r, w'))"
  by (rule verify_recover)



end
