(* ===== verification/Wire_Protocol.thy ===== *)
theory Wire_Protocol
  imports Errors
begin

section \<open>The wire protocol (src/src/protocol/command.rs, response.rs, codec.rs)\<close>

text \<open>
  Commands, responses and their binary encoding: one tag byte, a big-endian \<open>u32\<close> length, the
  payload. \<open>encode_command\<close>, \<open>decode_command\<close>, \<open>encode_response\<close>, \<open>decode_response\<close> are on byte
  sequences; \<open>read_command\<close>, \<open>write_command\<close>, \<open>read_response\<close>, \<open>write_response\<close> work on a
  stream. An input stream is the bytes that still arrive and the error a read past them gets
  (\<open>UnexpectedEof\<close> when the peer has closed, a timeout otherwise). An output stream is the bytes
  delivered and the answers of the operating system to the next calls.

  The lemmas: round trips in both directions, the exact error of every malformed message, and
  that reading a stream gives back the messages written to it, through the locale
  \<open>message_stream\<close> that both kinds of message satisfy.
\<close>

subsection \<open>Commands\<close>

datatype command_type = TGet | TPut | TDelete | TPing

datatype command = Get (cmd_key: bytes) | Put (cmd_key: bytes) (cmd_value: bytes) | Delete (cmd_key: bytes) | Ping

fun command_type_byte :: "command_type \<Rightarrow> byte" where
  "command_type_byte TGet = 0x01"
| "command_type_byte TPut = 0x02"
| "command_type_byte TDelete = 0x03"
| "command_type_byte TPing = 0x04"

fun command_type_of :: "command \<Rightarrow> command_type" where
  "command_type_of (Get _) = TGet"
| "command_type_of (Put _ _) = TPut"
| "command_type_of (Delete _) = TDelete"
| "command_type_of Ping = TPing"

subsection \<open>Responses\<close>

datatype status = SOk | SNotFound | SError

fun status_byte :: "status \<Rightarrow> byte" where
  "status_byte SOk = 0x00"
| "status_byte SNotFound = 0x01"
| "status_byte SError = 0x02"

record response =
  rsp_status :: status
  rsp_payload :: "bytes option"

definition response_ok :: "bytes option \<Rightarrow> response" where
  "response_ok payload = \<lparr>rsp_status = SOk, rsp_payload = payload\<rparr>"

definition response_not_found :: response where
  "response_not_found = \<lparr>rsp_status = SNotFound, rsp_payload = None\<rparr>"

definition response_error :: "string \<Rightarrow> response" where
  "response_error message = \<lparr>rsp_status = SError, rsp_payload = Some (str_bytes message)\<rparr>"

subsection \<open>Encoding and decoding\<close>

definition PROTO_HEADER_SIZE :: nat where
  "PROTO_HEADER_SIZE = 5"

definition MAX_PAYLOAD_SIZE :: nat where
  "MAX_PAYLOAD_SIZE = 16 * 1024 * 1024"

definition be_len :: "bytes \<Rightarrow> bytes" where
  "be_len d = to_be_bytes (of_nat (length d) :: u32)"

fun command_payload :: "command \<Rightarrow> bytes" where
  "command_payload (Get key) = be_len key @ key"
| "command_payload (Put key val) = be_len key @ key @ val"
| "command_payload (Delete key) = be_len key @ key"
| "command_payload Ping = []"

definition encode_command :: "command \<Rightarrow> bytes" where
  "encode_command c =
     (let payload = command_payload c in
      command_type_byte (command_type_of c) # be_len payload @ payload)"

definition be_field :: "nat \<Rightarrow> bytes \<Rightarrow> nat" where
  "be_field i d = unat (from_be_bytes (slice i (i + 4) d) :: u32)"

definition decode_get_command :: "bytes \<Rightarrow> command result" where
  "decode_get_command payload =
     (if length payload < 4 then Err (Protocol ''GET command: missing key length'')
      else let key_len = be_field 0 payload in
        if length payload < 4 + key_len then
          Err (Protocol (''GET command: incomplete key (expected '' @ show_dec key_len @ '', got '' @
            show_dec (length payload - 4) @ '')''))
        else Ok (Get (slice 4 (4 + key_len) payload)))"

definition decode_put_command :: "bytes \<Rightarrow> command result" where
  "decode_put_command payload =
     (if length payload < 4 then Err (Protocol ''PUT command: missing key length'')
      else let key_len = be_field 0 payload in
        if length payload < 4 + key_len then
          Err (Protocol (''PUT command: incomplete key (expected '' @ show_dec key_len @ '', got '' @
            show_dec (length payload - 4) @ '')''))
        else Ok (Put (slice 4 (4 + key_len) payload) (drop (4 + key_len) payload)))"

definition decode_delete_command :: "bytes \<Rightarrow> command result" where
  "decode_delete_command payload =
     (if length payload < 4 then Err (Protocol ''DELETE command: missing key length'')
      else let key_len = be_field 0 payload in
        if length payload < 4 + key_len then
          Err (Protocol (''DELETE command: incomplete key (expected '' @ show_dec key_len @ '', got '' @
            show_dec (length payload - 4) @ '')''))
        else Ok (Delete (slice 4 (4 + key_len) payload)))"

definition decode_ping_command :: "bytes \<Rightarrow> command result" where
  "decode_ping_command payload =
     (if payload \<noteq> [] then
        Err (Protocol (''PING command: unexpected payload of '' @ show_dec (length payload) @ '' bytes''))
      else Ok Ping)"

definition hex2 :: "byte \<Rightarrow> string" where
  "hex2 b = ''0x'' @ pad_left CHR ''0'' 2 (show_base 16 (unat b))"

definition decode_command :: "bytes \<Rightarrow> command result" where
  "decode_command d =
     (if length d < PROTO_HEADER_SIZE then
        Err (Protocol (''Incomplete header: expected '' @ show_dec PROTO_HEADER_SIZE @ '' bytes, got '' @
          show_dec (length d)))
      else let cmd_type = d ! 0; payload_len = be_field 1 d in
        if payload_len > MAX_PAYLOAD_SIZE then
          Err (Protocol (''Payload too large: '' @ show_dec payload_len @ '' bytes (max '' @
            show_dec MAX_PAYLOAD_SIZE @ '')''))
        else let total_len = PROTO_HEADER_SIZE + payload_len in
          if length d < total_len then
            Err (Protocol (''Incomplete payload: expected '' @ show_dec total_len @ '' bytes, got '' @
              show_dec (length d)))
          else let payload = slice PROTO_HEADER_SIZE total_len d in
            if cmd_type = 0x01 then decode_get_command payload
            else if cmd_type = 0x02 then decode_put_command payload
            else if cmd_type = 0x03 then decode_delete_command payload
            else if cmd_type = 0x04 then decode_ping_command payload
            else Err (Protocol (''Unknown command type: '' @ hex2 cmd_type)))"

definition encode_response :: "response \<Rightarrow> bytes" where
  "encode_response r =
     (let payload = (case rsp_payload r of Some p \<Rightarrow> p | None \<Rightarrow> []) in
      status_byte (rsp_status r) # be_len payload @ payload)"

definition status_of_byte :: "byte \<Rightarrow> status option" where
  "status_of_byte b = (if b = 0x00 then Some SOk else if b = 0x01 then Some SNotFound
     else if b = 0x02 then Some SError else None)"

definition decode_response :: "bytes \<Rightarrow> response result" where
  "decode_response d =
     (if length d < PROTO_HEADER_SIZE then
        Err (Protocol (''Incomplete response header: expected '' @ show_dec PROTO_HEADER_SIZE @
          '' bytes, got '' @ show_dec (length d)))
      else let status_b = d ! 0; payload_len = be_field 1 d in
        if payload_len > MAX_PAYLOAD_SIZE then
          Err (Protocol (''Response payload too large: '' @ show_dec payload_len @ '' bytes (max '' @
            show_dec MAX_PAYLOAD_SIZE @ '')''))
        else let total_len = PROTO_HEADER_SIZE + payload_len in
          if length d < total_len then
            Err (Protocol (''Incomplete response payload: expected '' @ show_dec total_len @
              '' bytes, got '' @ show_dec (length d)))
          else case status_of_byte status_b of
            None \<Rightarrow> Err (Protocol (''Unknown response status: '' @ hex2 status_b))
          | Some st \<Rightarrow> Ok \<lparr>rsp_status = st,
              rsp_payload = (if payload_len > 0 then Some (slice PROTO_HEADER_SIZE total_len d) else None)\<rparr>)"

subsection \<open>Streams\<close>

record in_stream =
  inbox :: bytes
  hangup :: io_error

definition stream_read_exact :: "nat \<Rightarrow> (in_stream, bytes) io" where
  "stream_read_exact n s =
     (if n \<le> length (inbox s) then (Ok (take n (inbox s)), s\<lparr>inbox := drop n (inbox s)\<rparr>)
      else (Err (hangup s), s\<lparr>inbox := []\<rparr>))"

definition read_command :: "in_stream \<Rightarrow> command result \<times> in_stream" where
  "read_command s = andThen (from_io (stream_read_exact PROTO_HEADER_SIZE s)) (\<lambda>header s.
     let payload_len = be_field 1 header in
     if payload_len > MAX_PAYLOAD_SIZE then
       (Err (Protocol (''Payload too large: '' @ show_dec payload_len @ '' bytes (max '' @
          show_dec MAX_PAYLOAD_SIZE @ '')'')), s)
     else andThen (if payload_len > 0 then from_io (stream_read_exact payload_len s) else (Ok [], s))
       (\<lambda>payload s. (decode_command (header @ payload), s)))"

definition read_response :: "in_stream \<Rightarrow> response result \<times> in_stream" where
  "read_response s = andThen (from_io (stream_read_exact PROTO_HEADER_SIZE s)) (\<lambda>header s.
     let payload_len = be_field 1 header in
     if payload_len > MAX_PAYLOAD_SIZE then
       (Err (Protocol (''Response payload too large: '' @ show_dec payload_len @ '' bytes (max '' @
          show_dec MAX_PAYLOAD_SIZE @ '')'')), s)
     else andThen (if payload_len > 0 then from_io (stream_read_exact payload_len s) else (Ok [], s))
       (\<lambda>payload s. (decode_response (header @ payload), s)))"

record out_stream =
  outbox :: bytes
  out_faults :: "fault option list"

fun out_fault :: "out_stream \<Rightarrow> fault option \<times> out_stream" where
  "out_fault s = (case out_faults s of [] \<Rightarrow> (None, s) | f # rest \<Rightarrow> (f, s\<lparr>out_faults := rest\<rparr>))"

definition stream_write_all :: "bytes \<Rightarrow> (out_stream, unit) io" where
  "stream_write_all d s = (case out_fault s of
     (None, s) \<Rightarrow> (Ok (), s\<lparr>outbox := outbox s @ d\<rparr>)
   | (Some (Fault n e), s) \<Rightarrow> (Err e, s\<lparr>outbox := outbox s @ take n d\<rparr>))"

definition stream_flush :: "(out_stream, unit) io" where
  "stream_flush s = (case out_fault s of
     (None, s) \<Rightarrow> (Ok (), s)
   | (Some (Fault n e), s) \<Rightarrow> (Err e, s))"

definition write_command :: "command \<Rightarrow> out_stream \<Rightarrow> unit result \<times> out_stream" where
  "write_command c s = andThen (from_io (stream_write_all (encode_command c) s)) (\<lambda>_ s.
     from_io (stream_flush s))"

definition write_response :: "response \<Rightarrow> out_stream \<Rightarrow> unit result \<times> out_stream" where
  "write_response r s = andThen (from_io (stream_write_all (encode_response r) s)) (\<lambda>_ s.
     from_io (stream_flush s))"

subsection \<open>Frames\<close>

lemma length_be_len [simp]: "length (be_len d) = 4"
  by (simp add: be_len_def to_be_bytes_def)

lemma be_field_be_len:
  assumes "length d < 2 ^ 32" and "i = length pre"
  shows "be_field i (pre @ be_len d @ rest) = length d"
proof -
  have "slice i (i + 4) (pre @ be_len d @ rest) = be_len d"
    using assms(2) by (simp add: slice_def)
  then show ?thesis using assms(1) by (simp add: be_field_def be_len_def unat_u32_of_nat)
qed

lemma be_field_bound: "be_field i d < 2 ^ 32"
  unfolding be_field_def by (rule u32_bound)

lemma MAX_PAYLOAD_small: "n \<le> MAX_PAYLOAD_SIZE \<Longrightarrow> n < 2 ^ 32"
  by (simp add: MAX_PAYLOAD_SIZE_def)

definition frame_of :: "byte \<Rightarrow> bytes \<Rightarrow> bytes" where
  "frame_of tag payload = tag # be_len payload @ payload"

lemma encode_command_frame: "encode_command c = frame_of (command_type_byte (command_type_of c)) (command_payload c)"
  by (simp add: encode_command_def frame_of_def Let_def)

lemma length_frame_of [simp]: "length (frame_of tag payload) = PROTO_HEADER_SIZE + length payload"
  by (simp add: frame_of_def PROTO_HEADER_SIZE_def)

lemma frame_fields:
  assumes "length payload \<le> MAX_PAYLOAD_SIZE"
  shows "(frame_of tag payload @ rest) ! 0 = tag"
    and "be_field 1 (frame_of tag payload @ rest) = length payload"
    and "slice PROTO_HEADER_SIZE (PROTO_HEADER_SIZE + length payload) (frame_of tag payload @ rest) = payload"
proof -
  show "(frame_of tag payload @ rest) ! 0 = tag" by (simp add: frame_of_def)
  show "be_field 1 (frame_of tag payload @ rest) = length payload"
    using be_field_be_len [of payload 1 "[tag]" "payload @ rest"] MAX_PAYLOAD_small [OF assms]
    by (simp add: frame_of_def)
  show "slice PROTO_HEADER_SIZE (PROTO_HEADER_SIZE + length payload) (frame_of tag payload @ rest) = payload"
    by (simp add: slice_def frame_of_def PROTO_HEADER_SIZE_def numeral_eq_Suc)
qed

lemma decode_command_frame:
  assumes "length payload \<le> MAX_PAYLOAD_SIZE"
  shows "decode_command (frame_of tag payload @ rest) =
    (if tag = 0x01 then decode_get_command payload
     else if tag = 0x02 then decode_put_command payload
     else if tag = 0x03 then decode_delete_command payload
     else if tag = 0x04 then decode_ping_command payload
     else Err (Protocol (''Unknown command type: '' @ hex2 tag)))"
  using frame_fields [OF assms, of tag rest] assms by (simp add: decode_command_def Let_def)

definition command_fits :: "command \<Rightarrow> bool" where
  "command_fits c = (length (command_payload c) \<le> MAX_PAYLOAD_SIZE)"

lemma key_field:
  assumes "4 + length key \<le> MAX_PAYLOAD_SIZE"
  shows "be_field 0 (be_len key @ key @ rest) = length key"
    and "slice 4 (4 + length key) (be_len key @ key @ rest) = key"
proof -
  show "be_field 0 (be_len key @ key @ rest) = length key"
    using be_field_be_len [of key 0 "[]" "key @ rest"] MAX_PAYLOAD_small [OF assms] by simp
  show "slice 4 (4 + length key) (be_len key @ key @ rest) = key"
    by (simp add: slice_def)
qed

lemma decode_encode_command:
  assumes "command_fits c"
  shows "decode_command (encode_command c @ rest) = Ok c"
proof -
  have max: "length (command_payload c) \<le> MAX_PAYLOAD_SIZE" using assms by (simp add: command_fits_def)
  note eq = decode_command_frame [OF max, of "command_type_byte (command_type_of c)" rest, folded encode_command_frame]
  show ?thesis
  proof (cases c)
    case (Get key)
    then show ?thesis using max eq key_field [of key "[]"] by (simp add: decode_get_command_def Let_def)
  next
    case (Put key v)
    then show ?thesis using max eq key_field [of key v] by (simp add: decode_put_command_def Let_def)
  next
    case (Delete key)
    then show ?thesis using max eq key_field [of key "[]"] by (simp add: decode_delete_command_def Let_def)
  next
    case Ping
    then show ?thesis using eq by (simp add: decode_ping_command_def)
  qed
qed

text \<open>What a decoded command says about the bytes it came from.\<close>

lemma be_len_field:
  assumes "i + 4 \<le> length d" and "length p = be_field i d"
  shows "be_len p = slice i (i + 4) d"
proof -
  have "(of_nat (length p) :: u32) = from_be_bytes (slice i (i + 4) d)"
    by (simp add: assms(2) be_field_def)
  moreover have "length (slice i (i + 4) d) = 4" using assms(1) by (simp add: slice_def)
  ultimately show ?thesis
    by (simp add: be_len_def to_be_bytes_def from_be_bytes_def to_from_bytes)
qed

lemma slice_join: "a \<le> b \<Longrightarrow> b \<le> c \<Longrightarrow> slice a b xs @ slice b c xs = slice a c xs"
proof -
  assume "a \<le> b" "b \<le> c"
  then obtain m n where "b = a + m" "c = a + m + n" by (metis le_iff_add)
  then show ?thesis by (simp add: slice_def take_add add.commute drop_drop)
qed

text \<open>The payload a successful decoding has used: \<open>total\<close> bytes of the input, no more.\<close>

definition frame_payload :: "bytes \<Rightarrow> bytes" where
  "frame_payload d = slice PROTO_HEADER_SIZE (PROTO_HEADER_SIZE + be_field 1 d) d"

definition whole_frame :: "bytes \<Rightarrow> bool" where
  "whole_frame d \<longleftrightarrow> PROTO_HEADER_SIZE \<le> length d \<and> be_field 1 d \<le> MAX_PAYLOAD_SIZE \<and>
     PROTO_HEADER_SIZE + be_field 1 d \<le> length d"

lemma length_frame_payload: "whole_frame d \<Longrightarrow> length (frame_payload d) = be_field 1 d"
  unfolding whole_frame_def frame_payload_def by (auto simp: slice_def min_def)

lemma whole_frame_eq:
  assumes "whole_frame d"
  shows "take (PROTO_HEADER_SIZE + be_field 1 d) d = frame_of (d ! 0) (frame_payload d)"
proof -
  let ?n = "be_field 1 d"
  have len: "length (frame_payload d) = ?n"
    using assms by (rule length_frame_payload)
  have "be_len (frame_payload d) = slice 1 5 d"
    using be_len_field [of 1 d "frame_payload d"] assms len
    by (simp add: whole_frame_def PROTO_HEADER_SIZE_def)
  moreover have "slice 0 1 d = [d ! 0]"
    using assms by (cases d) (auto simp: slice_def whole_frame_def PROTO_HEADER_SIZE_def)
  ultimately have "frame_of (d ! 0) (frame_payload d) = slice 0 1 d @ slice 1 5 d @ slice 5 (5 + ?n) d"
    by (simp add: frame_of_def frame_payload_def PROTO_HEADER_SIZE_def)
  also have "\<dots> = slice 0 (5 + ?n) d" by (simp add: slice_join)
  finally show ?thesis by (simp add: slice_0 PROTO_HEADER_SIZE_def)
qed

lemma decode_command_whole:
  assumes "decode_command d = Ok c"
  shows "whole_frame d" and "length (frame_payload d) \<le> MAX_PAYLOAD_SIZE"
    and "decode_command (frame_of (d ! 0) (frame_payload d)) = Ok c"
proof -
  show wf: "whole_frame d"
    using assms by (auto simp: decode_command_def whole_frame_def Let_def split: if_splits)
  then show max: "length (frame_payload d) \<le> MAX_PAYLOAD_SIZE"
    using length_frame_payload [OF wf] by (simp add: whole_frame_def)
  show "decode_command (frame_of (d ! 0) (frame_payload d)) = Ok c"
    using assms decode_command_frame [OF max, of "d ! 0" "[]"] decode_command_frame [OF max, of "d ! 0" "drop (PROTO_HEADER_SIZE + be_field 1 d) d"]
      whole_frame_eq [OF wf, symmetric] by simp
qed

text \<open>
  A decoded command re-encodes to the bytes it was read from, except that the payload of a GET
  or DELETE may have bytes after the key, which the decoder ignores.
\<close>

lemma decode_command_complete:
  assumes "decode_command d = Ok c"
  shows "\<exists>slack. command_payload c @ slack = frame_payload d \<and> command_type_byte (command_type_of c) = d ! 0 \<and>
    (slack \<noteq> [] \<longrightarrow> c = Get (cmd_key c) \<or> c = Delete (cmd_key c))"
proof -
  let ?p = "frame_payload d" and ?k = "be_field 0 (frame_payload d)"
  note wh = decode_command_whole [OF assms]
  have dec: "(if d ! 0 = 0x01 then decode_get_command ?p else if d ! 0 = 0x02 then decode_put_command ?p
     else if d ! 0 = 0x03 then decode_delete_command ?p else if d ! 0 = 0x04 then decode_ping_command ?p
     else Err (Protocol (''Unknown command type: '' @ hex2 (d ! 0)))) = Ok c"
    using wh(3) decode_command_frame [OF wh(2), of "d ! 0" "[]"] by simp
  have key: "be_len (slice 4 (4 + ?k) ?p) @ slice 4 (4 + ?k) ?p @ drop (4 + ?k) ?p = ?p" if "4 + ?k \<le> length ?p"
  proof -
    have "be_len (slice 4 (4 + ?k) ?p) = slice 0 4 ?p"
      using be_len_field [of 0 ?p "slice 4 (4 + ?k) ?p"] that by (simp add: slice_def)
    then have "be_len (slice 4 (4 + ?k) ?p) @ slice 4 (4 + ?k) ?p = take (4 + ?k) ?p"
      using slice_join [of 0 4 "4 + ?k" ?p] by (simp add: slice_0)
    then show ?thesis by (metis append.assoc append_take_drop_id)
  qed
  consider (1) "d ! 0 = 0x01" | (2) "d ! 0 = 0x02" | (3) "d ! 0 = 0x03" | (4) "d ! 0 = 0x04" "d ! 0 \<noteq> 0x01" "d ! 0 \<noteq> 0x02" "d ! 0 \<noteq> 0x03"
    using dec by (auto split: if_splits)
  then show ?thesis
  proof cases
    case 1
    with dec key show ?thesis
      by (auto simp: decode_get_command_def Let_def split: if_splits intro!: exI [of _ "drop (4 + ?k) ?p"])
  next
    case 2
    with dec key show ?thesis
      by (auto simp: decode_put_command_def Let_def split: if_splits)
  next
    case 3
    with dec key show ?thesis
      by (auto simp: decode_delete_command_def Let_def split: if_splits intro!: exI [of _ "drop (4 + ?k) ?p"])
  next
    case 4
    with dec show ?thesis by (auto simp: decode_ping_command_def split: if_splits)
  qed
qed

lemma decode_command_error:
  "decode_command d = Err e \<Longrightarrow> \<exists>m. e = Protocol m" "decode_command d \<noteq> Panic"
  by (auto simp: decode_command_def decode_get_command_def decode_put_command_def decode_delete_command_def
      decode_ping_command_def Let_def split: if_splits)

subsection \<open>Responses\<close>

lemma encode_response_frame:
  "encode_response r = frame_of (status_byte (rsp_status r)) (case rsp_payload r of Some p \<Rightarrow> p | None \<Rightarrow> [])"
  by (simp add: encode_response_def frame_of_def Let_def)

lemma status_of_status_byte [simp]: "status_of_byte (status_byte s) = Some s"
  by (cases s) (simp_all add: status_of_byte_def)

lemma decode_response_frame:
  assumes "length payload \<le> MAX_PAYLOAD_SIZE"
  shows "decode_response (frame_of tag payload @ rest) =
    (case status_of_byte tag of
       None \<Rightarrow> Err (Protocol (''Unknown response status: '' @ hex2 tag))
     | Some st \<Rightarrow> Ok \<lparr>rsp_status = st, rsp_payload = (if payload = [] then None else Some payload)\<rparr>)"
  using frame_fields [OF assms, of tag rest] assms
  by (auto simp: decode_response_def Let_def split: option.split)

definition response_fits :: "response \<Rightarrow> bool" where
  "response_fits r = (case rsp_payload r of Some p \<Rightarrow> length p \<le> MAX_PAYLOAD_SIZE | None \<Rightarrow> True)"

text \<open>On the wire an empty payload and no payload are the same.\<close>

definition wire_view :: "response \<Rightarrow> response" where
  "wire_view r = (if rsp_payload r = Some [] then r\<lparr>rsp_payload := None\<rparr> else r)"

lemma decode_encode_response:
  assumes "response_fits r"
  shows "decode_response (encode_response r @ rest) = Ok (wire_view r)"
proof -
  have "length (case rsp_payload r of Some p \<Rightarrow> p | None \<Rightarrow> []) \<le> MAX_PAYLOAD_SIZE"
    using assms by (auto simp: response_fits_def split: option.splits)
  from decode_response_frame [OF this, of "status_byte (rsp_status r)" rest] show ?thesis
    by (auto simp: encode_response_frame wire_view_def split: option.splits)
qed

subsection \<open>Reading from a stream\<close>

lemma stream_read_exact_append:
  "n = length d \<Longrightarrow> inbox s = d @ rest \<Longrightarrow> stream_read_exact n s = (Ok d, s\<lparr>inbox := rest\<rparr>)"
  by (simp add: stream_read_exact_def)

text \<open>
  \<open>read_command\<close> and \<open>read_response\<close> differ in the decoder and in the text of one error; this
  is what they share.
\<close>

definition read_frame :: "(bytes \<Rightarrow> 'm result) \<Rightarrow> (nat \<Rightarrow> atlas_error) \<Rightarrow> in_stream \<Rightarrow> 'm result \<times> in_stream" where
  "read_frame decode too_large s = andThen (from_io (stream_read_exact PROTO_HEADER_SIZE s)) (\<lambda>header s.
     let payload_len = be_field 1 header in
     if payload_len > MAX_PAYLOAD_SIZE then (Err (too_large payload_len), s)
     else andThen (if payload_len > 0 then from_io (stream_read_exact payload_len s) else (Ok [], s))
       (\<lambda>payload s. (decode (header @ payload), s)))"

lemma read_command_frame:
  "read_command = read_frame decode_command (\<lambda>n. Protocol (''Payload too large: '' @ show_dec n @
     '' bytes (max '' @ show_dec MAX_PAYLOAD_SIZE @ '')''))"
  by (rule ext) (simp only: read_command_def read_frame_def)

lemma read_response_frame:
  "read_response = read_frame decode_response (\<lambda>n. Protocol (''Response payload too large: '' @ show_dec n @
     '' bytes (max '' @ show_dec MAX_PAYLOAD_SIZE @ '')''))"
  by (rule ext) (simp only: read_response_def read_frame_def)

lemma read_frame_whole:
  assumes max: "length payload \<le> MAX_PAYLOAD_SIZE" and inb: "inbox s = frame_of tag payload @ rest"
  shows "read_frame decode big s = (decode (frame_of tag payload), s\<lparr>inbox := rest\<rparr>)"
proof -
  let ?h = "tag # be_len payload"
  have h: "stream_read_exact PROTO_HEADER_SIZE s = (Ok ?h, s\<lparr>inbox := payload @ rest\<rparr>)"
    using inb by (intro stream_read_exact_append) (simp_all add: PROTO_HEADER_SIZE_def frame_of_def)
  have n: "be_field 1 ?h = length payload"
    using be_field_be_len [of payload 1 "[tag]" "[]"] MAX_PAYLOAD_small [OF max] by simp
  have p: "stream_read_exact (length payload) (s\<lparr>inbox := payload @ rest\<rparr>) = (Ok payload, s\<lparr>inbox := rest\<rparr>)"
    by (subst stream_read_exact_append [of _ payload _ rest]) simp_all
  show ?thesis
    using max by (simp add: read_frame_def h n [unfolded One_nat_def] p frame_of_def Let_def)
qed

lemma read_frame_short:
  assumes max: "length payload \<le> MAX_PAYLOAD_SIZE"
    and short: "inbox s = take k (frame_of tag payload)" and k: "k < length (frame_of tag payload)"
  shows "read_frame decode big s = (Err (Io (hangup s)), s\<lparr>inbox := []\<rparr>)"
proof (cases "k < PROTO_HEADER_SIZE")
  case True
  then have "stream_read_exact PROTO_HEADER_SIZE s = (Err (hangup s), s\<lparr>inbox := []\<rparr>)"
    using short by (simp add: stream_read_exact_def)
  then show ?thesis by (simp add: read_frame_def)
next
  case False
  let ?h = "tag # be_len payload"
  obtain m where m: "k = PROTO_HEADER_SIZE + m" using False by (metis le_iff_add not_less)
  have inb: "inbox s = ?h @ take m payload"
    using short m by (simp add: frame_of_def PROTO_HEADER_SIZE_def take_Cons')
  have h: "stream_read_exact PROTO_HEADER_SIZE s = (Ok ?h, s\<lparr>inbox := take m payload\<rparr>)"
    using inb by (intro stream_read_exact_append) (simp_all add: PROTO_HEADER_SIZE_def)
  have n: "be_field 1 ?h = length payload"
    using be_field_be_len [of payload 1 "[tag]" "[]"] MAX_PAYLOAD_small [OF max] by simp
  have mlen: "m < length payload" using k m by simp
  then have "stream_read_exact (length payload) (s\<lparr>inbox := take m payload\<rparr>) = (Err (hangup s), s\<lparr>inbox := []\<rparr>)"
    by (simp add: stream_read_exact_def)
  with max mlen show ?thesis by (auto simp: read_frame_def h n [unfolded One_nat_def] Let_def)
qed

text \<open>The interface of a message that travels in frames, and what holds of a stream of them.\<close>

locale message_stream =
  fixes encode :: "'m \<Rightarrow> bytes"
    and fits :: "'m \<Rightarrow> bool"
    and view :: "'m \<Rightarrow> 'm"
    and read :: "in_stream \<Rightarrow> 'm result \<times> in_stream"
  assumes read_encode: "fits m \<Longrightarrow> inbox s = encode m @ rest \<Longrightarrow> read s = (Ok (view m), s\<lparr>inbox := rest\<rparr>)"
    and read_short: "fits m \<Longrightarrow> inbox s = take k (encode m) \<Longrightarrow> k < length (encode m) \<Longrightarrow>
      read s = (Err (Io (hangup s)), s\<lparr>inbox := []\<rparr>)"
begin

text \<open>Reading until the first error.\<close>

primrec read_many :: "nat \<Rightarrow> in_stream \<Rightarrow> 'm list \<times> in_stream" where
  "read_many 0 s = ([], s)"
| "read_many (Suc n) s = (case read s of
     (Ok m, s) \<Rightarrow> (case read_many n s of (ms, s) \<Rightarrow> (m # ms, s))
   | (_, s) \<Rightarrow> ([], s))"

lemma read_many_encoded:
  assumes "\<forall>m \<in> set ms. fits m" and "inbox s = concat (map encode ms) @ rest"
  shows "read_many (length ms) s = (map view ms, s\<lparr>inbox := rest\<rparr>)"
  using assms
proof (induction ms arbitrary: s)
  case (Cons m ms)
  then have "read s = (Ok (view m), s\<lparr>inbox := concat (map encode ms) @ rest\<rparr>)"
    by (intro read_encode) simp_all
  with Cons show ?case by simp
qed simp

lemma read_many_cut:
  assumes "\<forall>m \<in> set ms. fits m" and "fits m" and "k < length (encode m)"
    and "inbox s = concat (map encode ms) @ take k (encode m)" and "length ms < n"
  shows "read_many n s = (map view ms, s\<lparr>inbox := []\<rparr>)"
  using assms
proof (induction ms arbitrary: s n)
  case Nil
  then have "read s = (Err (Io (hangup s)), s\<lparr>inbox := []\<rparr>)" by (intro read_short) simp_all
  with Nil show ?case by (cases n) auto
next
  case (Cons m' ms)
  then have "read s = (Ok (view m'), s\<lparr>inbox := concat (map encode ms) @ take k (encode m)\<rparr>)"
    by (intro read_encode) simp_all
  with Cons show ?case by (cases n) auto
qed

end

interpretation cmds: message_stream encode_command command_fits "\<lambda>c. c" read_command
proof
  show "read_command s = (Ok c, s\<lparr>inbox := rest\<rparr>)" if "command_fits c" "inbox s = encode_command c @ rest" for c s rest
    using read_frame_whole [OF that(1) [unfolded command_fits_def] that(2) [unfolded encode_command_frame], of decode_command]
      decode_encode_command [OF that(1), of "[]"]
    by (simp only: read_command_frame encode_command_frame append_Nil2)
  show "read_command s = (Err (Io (hangup s)), s\<lparr>inbox := []\<rparr>)"
    if "command_fits c" "inbox s = take k (encode_command c)" "k < length (encode_command c)" for c s k
    using that unfolding read_command_frame encode_command_frame command_fits_def by (rule read_frame_short)
qed

interpretation rsps: message_stream encode_response response_fits wire_view read_response
proof
  have fit: "length (case rsp_payload r of Some p \<Rightarrow> p | None \<Rightarrow> []) \<le> MAX_PAYLOAD_SIZE" if "response_fits r" for r
    using that by (auto simp: response_fits_def split: option.splits)
  show "read_response s = (Ok (wire_view r), s\<lparr>inbox := rest\<rparr>)" if "response_fits r" "inbox s = encode_response r @ rest" for r s rest
    using read_frame_whole [OF fit [OF that(1)] that(2) [unfolded encode_response_frame], of decode_response]
      decode_encode_response [OF that(1), of "[]"]
    by (simp only: read_response_frame encode_response_frame append_Nil2)
  show "read_response s = (Err (Io (hangup s)), s\<lparr>inbox := []\<rparr>)"
    if "response_fits r" "inbox s = take k (encode_response r)" "k < length (encode_response r)" for r s k
    using that fit unfolding read_response_frame encode_response_frame by (blast intro: read_frame_short)
qed

text \<open>Writing delivers the whole message or fails with a prefix of it delivered.\<close>

lemma write_frame_effect:
  assumes "andThen (from_io (stream_write_all d s)) (\<lambda>_ s. from_io (stream_flush s)) = (r, s')"
  shows "\<exists>n. outbox s' = outbox s @ take n d \<and> (r = Ok () \<longrightarrow> length d \<le> n) \<and> r \<noteq> Panic \<and>
    (\<forall>e. r = Err e \<longrightarrow> (\<exists>x. e = Io x)) \<and> (out_faults s = [] \<longrightarrow> r = Ok () \<and> out_faults s' = [])"
  using assms
  by (auto simp: stream_write_all_def stream_flush_def split: list.splits option.splits fault.splits)
    (metis order_refl take_all)+


subsection \<open>Properties\<close>

text \<open>C39: A command whose payload is at most 16 MiB is decoded from its encoding, whatever follows.\<close>

theorem command_roundtrip:
  assumes "command_fits c"
  shows "decode_command (encode_command c @ rest) = Ok c"
  by (rule decode_encode_command [OF assms])

theorem command_roundtrip_witness:
  "decode_command (encode_command (Put [1, 2] [3]) @ [9]) = Ok (Put [1, 2] [3])"
  by (rule command_roundtrip) (simp add: command_fits_def MAX_PAYLOAD_SIZE_def)

text \<open>A command that \<open>decode_command\<close> accepts was sent in a frame with its type byte, and its payload
  is the payload of the frame, except that a GET or DELETE may carry ignored bytes after the key.\<close>

lemma decode_command_sound:
  assumes "decode_command d = Ok c"
  shows "whole_frame d \<and> command_type_byte (command_type_of c) = d ! 0 \<and>
    (\<exists>slack. command_payload c @ slack = frame_payload d \<and>
       (slack = [] \<or> c = Get (cmd_key c) \<or> c = Delete (cmd_key c)))"
  using decode_command_complete [OF assms] decode_command_whole(1) [OF assms] by blast

text \<open>Decoding is total: malformed bytes give a \<open>Protocol\<close> error, never a panic or another error.\<close>

lemma decode_command_errors:
  "case decode_command d of Ok c \<Rightarrow> True | Err e \<Rightarrow> (\<exists>m. e = Protocol m) | Panic \<Rightarrow> False"
  using decode_command_error [of d] by (cases "decode_command d") auto

text \<open>Reading commands from a stream gives back the commands written to it, one by one, and leaves
  what follows in the stream.\<close>

lemma read_commands_pipelined:
  assumes "\<forall>c \<in> set cs. command_fits c" and "inbox s = concat (map encode_command cs) @ rest"
  shows "cmds.read_many (length cs) s = (cs, s\<lparr>inbox := rest\<rparr>) \<and>
    (\<forall>c cs'. cs = c # cs' \<longrightarrow> read_command s = (Ok c, s\<lparr>inbox := concat (map encode_command cs') @ rest\<rparr>))"
proof -
  have "read_command s = (Ok c, s\<lparr>inbox := concat (map encode_command cs') @ rest\<rparr>)" if "cs = c # cs'" for c cs'
    by (rule cmds.read_encode) (use assms that in simp_all)
  then show ?thesis using cmds.read_many_encoded [OF assms] by simp
qed

text \<open>A command that was cut short is never executed: reading it fails with the error of the stream
  (end of file when the client closed, a timeout otherwise), after the complete commands before it.\<close>

lemma read_command_cut:
  assumes "\<forall>c \<in> set cs. command_fits c" and "command_fits c" and "k < length (encode_command c)"
    and "inbox s = concat (map encode_command cs) @ take k (encode_command c)" and "length cs < n"
  shows "cmds.read_many n s = (cs, s\<lparr>inbox := []\<rparr>) \<and>
    (cs = [] \<longrightarrow> fst (read_command s) = Err (Io (hangup s)))"
  using cmds.read_many_cut [OF assms] cmds.read_short [OF assms(2) _ assms(3), of s] assms(4) by simp

text \<open>C40: A response of at most 16 MiB arrives as it was sent, except that an empty payload arrives as no
  payload: on the wire an empty value and a missing value are the same.\<close>

theorem response_roundtrip:
  assumes "response_fits r" and "inbox s = encode_response r @ rest"
  shows "read_response s = (Ok (wire_view r), s\<lparr>inbox := rest\<rparr>) \<and>
    decode_response (encode_response r @ rest) = Ok (wire_view r) \<and>
    encode_response (response_ok (Some [])) = encode_response (response_ok None)"
  using rsps.read_encode [OF assms] decode_encode_response [OF assms(1)]
  by (simp add: encode_response_def response_ok_def)

theorem response_roundtrip_witness:
  "decode_response (encode_response (response_error ''no'') @ []) = Ok (response_error ''no'')"
  using response_roundtrip [of "response_error ''no''" "\<lparr>inbox = encode_response (response_error ''no'') @ [], hangup = eof_error\<rparr>" "[]"]
  by (simp add: response_fits_def response_error_def MAX_PAYLOAD_SIZE_def wire_view_def str_bytes_def)

text \<open>\<open>write_command\<close> and \<open>write_response\<close> deliver the whole encoding or report the error of the stream
  with a prefix of the encoding delivered.\<close>

lemma write_delivers:
  "case write_response r s of (x, s') \<Rightarrow>
     \<exists>n. outbox s' = outbox s @ take n (encode_response r) \<and> (x = Ok () \<longrightarrow> length (encode_response r) \<le> n) \<and>
       (out_faults s = [] \<longrightarrow> x = Ok ()) \<and> x \<noteq> Panic"
proof -
  obtain x s' where w: "write_response r s = (x, s')" by fastforce
  from write_frame_effect [OF w [unfolded write_response_def]] have "\<exists>n. outbox s' = outbox s @ take n (encode_response r) \<and>
      (x = Ok () \<longrightarrow> length (encode_response r) \<le> n) \<and> (out_faults s = [] \<longrightarrow> x = Ok ()) \<and> x \<noteq> Panic"
    by blast
  with w show ?thesis by (simp only: prod.case)
qed

end
