(* ===== verification/Engine.thy ===== *)
theory Engine
  imports Storage_Manager Wal_Reader Wire_Protocol
begin

section \<open>The engine (src/src/engine.rs)\<close>

text \<open>
  \<open>Engine\<close> over the writer of the log, the memtable and the storage manager. Writes hold the
  \<open>write_lock\<close>, so each of them is one atomic step on the state; the two \<open>std::sync::Mutex\<close>es
  are poisoned by a panic of their holder, which is the two flags of the record.
\<close>

record engine =
  eng_config :: config
  eng_storage_dir :: path
  eng_wal :: wal_writer
  wal_poisoned :: bool
  eng_memtable :: memtable
  eng_storage :: storage_manager
  write_lock_poisoned :: bool

definition WAL_FILENAME :: string where
  "WAL_FILENAME = ''wal.log''"

definition SSTABLE_DIR :: string where
  "SSTABLE_DIR = ''sstables''"

definition poison_text :: string where
  "poison_text = ''poisoned lock: another task failed inside''"

definition with_write_lock :: "(engine \<times> world \<Rightarrow> 'a result \<times> engine \<times> world) \<Rightarrow>
    engine \<times> world \<Rightarrow> 'a result \<times> engine \<times> world" where
  "with_write_lock body = (\<lambda>(e, w).
     if write_lock_poisoned e then (Err (LockPoisoned (''Write lock poisoned: '' @ poison_text)), e, w)
     else (case body (e, w) of
       (Panic, e, w) \<Rightarrow> (Panic, e\<lparr>write_lock_poisoned := True\<rparr>, w)
     | res \<Rightarrow> res))"

definition with_wal :: "(wal_writer \<times> world \<Rightarrow> 'a result \<times> wal_writer \<times> world) \<Rightarrow>
    engine \<times> world \<Rightarrow> 'a result \<times> engine \<times> world" where
  "with_wal body = (\<lambda>(e, w).
     if wal_poisoned e then (Err (LockPoisoned (''WAL lock poisoned: '' @ poison_text)), e, w)
     else (case body (eng_wal e, w) of
       (Panic, wal, w) \<Rightarrow> (Panic, e\<lparr>eng_wal := wal, wal_poisoned := True\<rparr>, w)
     | (Ok x, wal, w) \<Rightarrow> (Ok x, e\<lparr>eng_wal := wal\<rparr>, w)
     | (Err x, wal, w) \<Rightarrow> (Err x, e\<lparr>eng_wal := wal\<rparr>, w)))"

definition on_storage :: "(storage_manager \<times> world \<Rightarrow> 'a result \<times> storage_manager \<times> world) \<Rightarrow>
    engine \<times> world \<Rightarrow> 'a result \<times> engine \<times> world" where
  "on_storage = zoom eng_storage (\<lambda>sm e. e\<lparr>eng_storage := sm\<rparr>)"

subsection \<open>Opening\<close>

text \<open>\<open>Path::exists\<close> answers \<open>false\<close> when the operating system fails.\<close>

definition path_exists :: "path \<Rightarrow> world \<Rightarrow> bool \<times> world" where
  "path_exists p w = (case syscall w of
     (Ok _, w) \<Rightarrow> (exists_path w p, w)
   | (_, w) \<Rightarrow> (False, w))"

fun replay_entries :: "wal_entry list \<Rightarrow> memtable \<Rightarrow> memtable" where
  "replay_entries [] mt = mt"
| "replay_entries (entry # entries) mt = (case operation entry of
     OpPut key val \<Rightarrow> replay_entries entries (snd (memtable_put key val mt))
   | OpDelete key \<Rightarrow> replay_entries entries (snd (memtable_delete key mt)))"

definition recover_into :: "'h libs \<Rightarrow> path \<Rightarrow> wal_sync_strategy \<Rightarrow> storage_manager \<Rightarrow> world \<Rightarrow>
    (wal_writer \<times> memtable \<times> storage_manager) result \<times> world" where
  "recover_into L wal_p strategy storage w =
     andThen (recover L wal_p w) (\<lambda>(entries, recovery_result) w.
       let mt = replay_entries entries memtable_new in
       andThen (if \<not> memtable_is_empty mt
         then (case storage_flush L mt (storage, w) of (r, storage, w) \<Rightarrow>
           andThen (r, w) (\<lambda>_ w. (Ok (memtable_clear mt, storage), w)))
         else (Ok (mt, storage), w)) (\<lambda>(mt, storage) w.
       andThen (wal_open wal_p strategy w) (\<lambda>wal w. (Ok (wal, mt, storage), w))))"

definition engine_open :: "'h libs \<Rightarrow> config \<Rightarrow> world \<Rightarrow> engine result \<times> world" where
  "engine_open L cfg w =
     andThen (from_io (create_dir_all (data_dir cfg) w)) (\<lambda>_ w.
     let storage_dir = data_dir cfg @ [SSTABLE_DIR];
         wal_p = data_dir cfg @ [WAL_FILENAME] in
     andThen (from_io (create_dir_all storage_dir w)) (\<lambda>_ w.
     andThen (storage_open storage_dir w) (\<lambda>storage w.
     case path_exists wal_p w of (ex, w) \<Rightarrow>
     andThen (if ex then recover_into L wal_p (sync_strategy_of cfg) storage w
       else andThen (wal_open wal_p (sync_strategy_of cfg) w) (\<lambda>wal w.
         (Ok (wal, memtable_new, storage), w)))
       (\<lambda>(wal, mt, storage) w.
         (Ok \<lparr>eng_config = cfg, eng_storage_dir = storage_dir, eng_wal = wal, wal_poisoned = False,
            eng_memtable = mt, eng_storage = storage, write_lock_poisoned = False\<rparr>, w)))))"

definition engine_open_path :: "'h libs \<Rightarrow> path \<Rightarrow> world \<Rightarrow> engine result \<times> world" where
  "engine_open_path L p w = engine_open L (config_default\<lparr>data_dir := p\<rparr>) w"

subsection \<open>Operations\<close>

definition engine_get :: "bytes \<Rightarrow> engine \<times> world \<Rightarrow> bytes option result \<times> engine \<times> world" where
  "engine_get key = (\<lambda>(e, w). case memtable_get (eng_memtable e) key of
     Some (Value v) \<Rightarrow> (Ok (Some v), e, w)
   | Some Tombstone \<Rightarrow> (Ok None, e, w)
   | None \<Rightarrow> on_storage (storage_get key) (e, w))"

definition flush_internal :: "'h libs \<Rightarrow> engine \<times> world \<Rightarrow> unit result \<times> engine \<times> world" where
  "flush_internal L = (\<lambda>(e, w).
     if memtable_is_empty (eng_memtable e) then (Ok (), e, w)
     else andThen (on_storage (storage_flush L (eng_memtable e)) (e, w)) (\<lambda>_ (e, w).
       with_wal wal_truncate (e\<lparr>eng_memtable := memtable_clear (eng_memtable e)\<rparr>, w)))"

text \<open>The common end of \<open>put\<close> and \<open>delete\<close>: the memtable's new size decides about a flush.\<close>

definition after_write :: "'h libs \<Rightarrow> usize \<times> memtable \<Rightarrow> engine \<times> world \<Rightarrow> unit result \<times> engine \<times> world" where
  "after_write L sized = (\<lambda>(e, w). case sized of (new_size, mt) \<Rightarrow>
     let e = e\<lparr>eng_memtable := mt\<rparr> in
     if memtable_size_limit (eng_config e) \<le> new_size then flush_internal L (e, w)
     else (Ok (), e, w))"

definition engine_put :: "'h libs \<Rightarrow> bytes \<Rightarrow> bytes \<Rightarrow> engine \<times> world \<Rightarrow> unit result \<times> engine \<times> world" where
  "engine_put L key val = with_write_lock (\<lambda>s.
     andThen (with_wal (wal_append L (OpPut key val)) s) (\<lambda>_ (e, w).
       after_write L (memtable_put key val (eng_memtable e)) (e, w)))"

definition engine_delete :: "'h libs \<Rightarrow> bytes \<Rightarrow> engine \<times> world \<Rightarrow> unit result \<times> engine \<times> world" where
  "engine_delete L key = with_write_lock (\<lambda>s.
     andThen (with_wal (wal_append L (OpDelete key)) s) (\<lambda>_ (e, w).
       after_write L (memtable_delete key (eng_memtable e)) (e, w)))"

definition engine_flush :: "'h libs \<Rightarrow> engine \<times> world \<Rightarrow> unit result \<times> engine \<times> world" where
  "engine_flush L = with_write_lock (flush_internal L)"

text \<open>\<open>close\<close> consumes the engine: whatever it returns, the writer of the log is dropped.\<close>

definition engine_close :: "'h libs \<Rightarrow> engine \<times> world \<Rightarrow> unit result \<times> world" where
  "engine_close L = (\<lambda>(e, w).
     case andThen (if \<not> memtable_is_empty (eng_memtable e) then engine_flush L (e, w) else (Ok (), e, w))
       (\<lambda>_ s. with_wal wal_sync s)
     of (r, e, w) \<Rightarrow> (r, wal_drop (eng_wal e, w)))"

definition PONG :: bytes where
  "PONG = str_bytes ''PONG''"

fun execute :: "'h libs \<Rightarrow> command \<Rightarrow> engine \<times> world \<Rightarrow> bytes option result \<times> engine \<times> world" where
  "execute L (Get key) s = engine_get key s"
| "execute L (Put key val) s = andThen (engine_put L key val s) (\<lambda>_ s. (Ok None, s))"
| "execute L (Delete key) s = andThen (engine_delete L key s) (\<lambda>_ s. (Ok None, s))"
| "execute L Ping s = (Ok (Some PONG), s)"

definition engine_memtable_size :: "engine \<Rightarrow> usize" where
  "engine_memtable_size e = memtable_size (eng_memtable e)"

definition engine_memtable_entry_count :: "engine \<Rightarrow> usize" where
  "engine_memtable_entry_count e = memtable_entry_count (eng_memtable e)"

definition engine_data_dir :: "engine \<Rightarrow> path" where
  "engine_data_dir e = data_dir (eng_config e)"

definition engine_storage_dir :: "engine \<Rightarrow> path" where
  "engine_storage_dir e = eng_storage_dir e"

definition engine_config :: "engine \<Rightarrow> config" where
  "engine_config e = eng_config e"

definition engine_sstable_count :: "engine \<Rightarrow> nat" where
  "engine_sstable_count e = sstable_count (eng_storage e)"

subsection \<open>The engine as a map\<close>

definition view :: "(u64 \<times> entries) list \<Rightarrow> engine \<Rightarrow> bytes \<rightharpoonup> bytes" where
  "view ls e = (\<lambda>key. live ((merged snd ls ++ memtable_get (eng_memtable e)) key))"

definition engine_ok :: "(u64 \<times> entries) list \<Rightarrow> engine \<Rightarrow> world \<Rightarrow> bool" where
  "engine_ok ls e w \<longleftrightarrow> storage_holds ls (eng_storage e) w \<and> mem_inv (eng_memtable e) \<and>
     is_file w (wal_path (eng_wal e)) \<and> (\<forall>i. wal_path (eng_wal e) \<noteq> sstable_path (eng_storage e) i)"

fun apply_view :: "operation \<Rightarrow> (bytes \<rightharpoonup> bytes) \<Rightarrow> bytes \<rightharpoonup> bytes" where
  "apply_view (OpPut k v) m = m(k \<mapsto> v)"
| "apply_view (OpDelete k) m = m(k := None)"

fun memtable_apply :: "operation \<Rightarrow> memtable \<Rightarrow> usize \<times> memtable" where
  "memtable_apply (OpPut k v) t = memtable_put k v t"
| "memtable_apply (OpDelete k) t = memtable_delete k t"

definition engine_write :: "'h libs \<Rightarrow> operation \<Rightarrow> engine \<times> world \<Rightarrow> unit result \<times> engine \<times> world" where
  "engine_write L op = with_write_lock (\<lambda>s.
     andThen (with_wal (wal_append L op) s) (\<lambda>_ (e, w).
       after_write L (memtable_apply op (eng_memtable e)) (e, w)))"

lemma engine_write_eq:
  "engine_put L k v = engine_write L (OpPut k v)" "engine_delete L k = engine_write L (OpDelete k)"
  by (simp_all add: engine_put_def engine_delete_def engine_write_def)

lemma memtable_apply_inv: "mem_inv t \<Longrightarrow> mem_inv (snd (memtable_apply op t))"
  by (cases op) (simp_all add: mem_inv_intros)

lemma memtable_apply_get:
  "mem_inv t \<Longrightarrow> memtable_get (snd (memtable_apply op t)) = (memtable_get t)(op_key op \<mapsto> op_entry op)"
  by (cases op) (simp_all add: memtable_get_put memtable_get_delete)

lemma view_apply:
  assumes "mem_inv (eng_memtable e)"
  shows "view ls (e\<lparr>eng_memtable := snd (memtable_apply op (eng_memtable e))\<rparr>) = apply_view op (view ls e)"
  by (cases op) (auto simp: view_def memtable_get_put [OF assms] memtable_get_delete [OF assms] fun_eq_iff live_def map_add_def)

lemma with_wal_effect:
  assumes run: "with_wal m (e, w) = (r, e', w')" and keep: "\<And>s. wal_keeps s (snd (m s))"
  shows "wal_path (eng_wal e') = wal_path (eng_wal e) \<and> keeps (wal_path (eng_wal e)) w w' \<and>
    e' = e\<lparr>eng_wal := eng_wal e', wal_poisoned := wal_poisoned e'\<rparr>"
  using run keep [of "(eng_wal e, w)"]
  by (auto simp: with_wal_def wal_keeps_def split: if_splits prod.splits outcome.splits)

lemma with_wal_ok:
  assumes ok: "engine_ok ls e w" and run: "with_wal m (e, w) = (r, e', w')"
    and keep: "\<And>s. wal_keeps s (snd (m s))"
  shows "engine_ok ls e' w'" and "view ls e' = view ls e" and "eng_memtable e' = eng_memtable e"
    and "eng_storage e' = eng_storage e" and "eng_config e' = eng_config e"
    and "write_lock_poisoned e' = write_lock_poisoned e"
proof -
  from with_wal_effect [OF run keep] have p: "wal_path (eng_wal e') = wal_path (eng_wal e)"
    and k: "keeps (wal_path (eng_wal e)) w w'"
    and e': "e' = e\<lparr>eng_wal := eng_wal e', wal_poisoned := wal_poisoned e'\<rparr>" by blast+
  from arg_cong [OF e', of eng_memtable] arg_cong [OF e', of eng_storage] arg_cong [OF e', of eng_config]
    arg_cong [OF e', of write_lock_poisoned]
  show same: "eng_memtable e' = eng_memtable e" "eng_storage e' = eng_storage e" "eng_config e' = eng_config e"
    "write_lock_poisoned e' = write_lock_poisoned e" by simp_all
  then show "view ls e' = view ls e" by (simp add: view_def)
  from ok k show "engine_ok ls e' w'"
    by (auto simp: engine_ok_def same p keeps_def intro: storage_holds_other)
qed

lemma memtable_iter_map: "mem_inv t \<Longrightarrow> map_of (memtable_iter t) = memtable_get t"
  by (simp add: memtable_iter_def memtable_get_def mem_inv_def bt_get_def fun_eq_iff)

text \<open>The first half of a flush: the table is written, the memtable is still there.\<close>

lemma flush_table_ok:
  assumes ok: "engine_ok ls e w" and free: "next_free (eng_storage e)" and fit: "entries_fit (memtable_iter (eng_memtable e))"
    and some: "\<not> memtable_is_empty (eng_memtable e)"
    and run: "on_storage (storage_flush L (eng_memtable e)) (e, w) = (r, e', w')"
  defines "ls' \<equiv> (next_sstable_id (eng_storage e), memtable_iter (eng_memtable e)) # ls"
  shows "r \<noteq> Panic" and "e' = e\<lparr>eng_storage := eng_storage e'\<rparr>"
    and "\<And>t. r = Ok t \<Longrightarrow> engine_ok ls' e' w'" and "\<And>x. r = Err x \<Longrightarrow> engine_ok ls e' w'"
    and "view ls e' = view ls e" and "view ls' e' = view ls e"
proof -
  obtain sm where s1: "storage_flush L (eng_memtable e) (eng_storage e, w) = (r, sm, w')" and e': "e' = e\<lparr>eng_storage := sm\<rparr>"
    using run by (auto simp: on_storage_def zoom_def split: prod.splits)
  from ok have inv: "mem_inv (eng_memtable e)" and holds: "storage_holds ls (eng_storage e) w" by (simp_all add: engine_ok_def)
  note fl = storage_flush_effect [OF holds free inv fit some s1]
  have path: "sstable_path sm = sstable_path (eng_storage e)" by (simp add: sstable_path_def fl(3) fun_eq_iff)
  have isf: "is_file w' (wal_path (eng_wal e))" using ok fl(1) by (auto simp: engine_ok_def is_file_def frame_def)
  show "r \<noteq> Panic" by (rule fl(2))
  show "e' = e\<lparr>eng_storage := eng_storage e'\<rparr>" by (simp add: e')
  show "\<And>t. r = Ok t \<Longrightarrow> engine_ok ls' e' w'" using ok isf fl(7) by (auto simp: engine_ok_def path e' ls'_def)
  show "\<And>x. r = Err x \<Longrightarrow> engine_ok ls e' w'" using ok isf fl(6) by (auto simp: engine_ok_def path e')
  show "view ls e' = view ls e" by (simp add: view_def e')
  show "view ls' e' = view ls e"
    by (auto simp: view_def e' ls'_def memtable_iter_map [OF inv] fun_eq_iff map_add_def split: option.split)
qed

lemma flush_internal_ok:
  assumes ok: "engine_ok ls e w" and free: "next_free (eng_storage e)"
    and fit: "entries_fit (memtable_iter (eng_memtable e))"
    and run: "flush_internal L (e, w) = (r, e', w')"
  obtains ls' where "engine_ok ls' e' w'" and "view ls' e' = view ls e" and "r \<noteq> Panic"
    and "eng_config e' = eng_config e" and "write_lock_poisoned e' = write_lock_poisoned e"
    and "r = Ok () \<Longrightarrow> memtable_is_empty (eng_memtable e')"
proof (cases "memtable_is_empty (eng_memtable e)")
  case True
  with run have "r = Ok ()" "e' = e" "w' = w" by (simp_all add: flush_internal_def)
  with True ok show ?thesis by (intro that [of ls]) simp_all
next
  case False
  let ?ls = "(next_sstable_id (eng_storage e), memtable_iter (eng_memtable e)) # ls"
  obtain r1 e1 w1 where s1: "on_storage (storage_flush L (eng_memtable e)) (e, w) = (r1, e1, w1)" by (metis prod_cases3)
  note fl = flush_table_ok [OF ok free fit False s1]
  note e1 = arg_cong [OF fl(2)]
  show ?thesis
  proof (cases r1)
    case (Ok t)
    let ?e = "e1\<lparr>eng_memtable := memtable_clear (eng_memtable e1)\<rparr>"
    have run2: "with_wal wal_truncate (?e, w1) = (r, e', w')"
      using run False s1 Ok e1 [of eng_memtable] by (simp add: flush_internal_def)
    have ok1: "engine_ok ?ls ?e w1" using fl(3) [OF Ok] by (simp add: engine_ok_def mem_inv_clear)
    have inv: "mem_inv (eng_memtable e)" using ok by (simp add: engine_ok_def)
    have view1: "view ?ls ?e = view ls e" by (simp add: view_def memtable_get_clear memtable_iter_map [OF inv])
    note k = with_wal_ok [OF ok1 run2 wal_truncate_keeps]
    have np: "r \<noteq> Panic" using run2 wal_op_no_panic(1) [of "(eng_wal ?e, w1)"]
      by (auto simp: with_wal_def split: if_splits prod.splits outcome.splits)
    show ?thesis
      using that [OF k(1) _ np] k(2-) view1 e1 [of eng_config] e1 [of write_lock_poisoned]
      by (simp add: memtable_clear_def memtable_is_empty_def bt_len_def)
  next
    case (Err x)
    then have res: "r = Err x" "e' = e1" "w' = w1" using run False s1 by (simp_all add: flush_internal_def)
    with that [of ls] fl(4) [OF Err] fl(5) e1 [of eng_config] e1 [of write_lock_poisoned] show ?thesis by simp
  qed (use fl(1) in simp)
qed

text \<open>
  A write, whatever the operating system answers: the engine stays consistent, a write that
  returns \<open>Ok\<close> is in effect, and one that does not is in effect or not.
\<close>

lemma engine_write_ok:
  assumes ok: "engine_ok ls e w" and free: "next_free (eng_storage e)"
    and fit: "entries_fit (memtable_iter (snd (memtable_apply op (eng_memtable e))))"
    and run: "engine_write L op (e, w) = (r, e', w')"
  obtains ls' where "engine_ok ls' e' w'" and "r = Ok () \<Longrightarrow> view ls' e' = apply_view op (view ls e)"
    and "view ls' e' = view ls e \<or> view ls' e' = apply_view op (view ls e)" and "eng_config e' = eng_config e"
proof (cases "write_lock_poisoned e")
  case True
  with run have "r \<noteq> Ok ()" "e' = e" "w' = w" by (auto simp: engine_write_def with_write_lock_def)
  with ok show ?thesis by (intro that [of ls]) simp_all
next
  case False
  obtain r1 e1 w1 where s1: "with_wal (wal_append L op) (e, w) = (r1, e1, w1)" by (metis prod_cases3)
  note k = with_wal_ok [OF ok s1 wal_append_keeps]
  show ?thesis
  proof (cases r1)
    case (Ok n)
    let ?e = "e1\<lparr>eng_memtable := snd (memtable_apply op (eng_memtable e1))\<rparr>"
    from k(1) have inv: "mem_inv (eng_memtable e1)" by (simp add: engine_ok_def)
    have ok2: "engine_ok ls ?e w1" using k(1) memtable_apply_inv [OF inv] by (simp add: engine_ok_def)
    have view2: "view ls ?e = apply_view op (view ls e)" using view_apply [OF inv] k(2) by simp
    obtain r2 e2 w2 where s2: "after_write L (memtable_apply op (eng_memtable e1)) (e1, w1) = (r2, e2, w2)"
      by (metis prod_cases3)
    have res: "r = r2" "w' = w2" "e' = (if r2 = Panic then e2\<lparr>write_lock_poisoned := True\<rparr> else e2)"
      using run False s1 Ok s2 by (auto simp: engine_write_def with_write_lock_def split: outcome.splits)
    show ?thesis
    proof (cases "memtable_size_limit (eng_config e1) \<le> fst (memtable_apply op (eng_memtable e1))")
      case True
      have fl: "flush_internal L (?e, w1) = (r2, e2, w2)"
        using s2 True by (simp add: after_write_def case_prod_beta Let_def)
      have "next_free (eng_storage ?e)" "entries_fit (memtable_iter (eng_memtable ?e))"
        using free fit k(3,4) by simp_all
      from flush_internal_ok [OF ok2 this fl] obtain ls' where
        "engine_ok ls' e2 w2" "view ls' e2 = view ls ?e" "r2 \<noteq> Panic" "eng_config e2 = eng_config ?e" by metis
      with view2 res k(5) show ?thesis by (intro that [of ls']) simp_all
    next
      case False
      then have "r2 = Ok ()" "e2 = ?e" "w2 = w1"
        using s2 by (simp_all add: after_write_def case_prod_beta Let_def)
      with ok2 view2 res k(5) show ?thesis by (intro that [of ls]) simp_all
    qed
  next
    case (Err x)
    with run False s1 have "r = Err x" "e' = e1" "w' = w1" by (simp_all add: engine_write_def with_write_lock_def)
    with k show ?thesis by (intro that [of ls]) simp_all
  next
    case Panic
    with run False s1 have res: "r = Panic" "e' = e1\<lparr>write_lock_poisoned := True\<rparr>" "w' = w1"
      by (simp_all add: engine_write_def with_write_lock_def)
    have "engine_ok ls e' w'" "view ls e' = view ls e" "eng_config e' = eng_config e"
      using k by (simp_all add: res engine_ok_def view_def)
    with res show ?thesis by (intro that [of ls]) simp_all
  qed
qed

lemma on_storage_get:
  assumes ok: "engine_ok ls e w" and run: "on_storage (storage_get key) (e, w) = (r, e', w')"
  shows "engine_ok ls e' w'" and "eng_memtable e' = eng_memtable e" and "view ls e' = view ls e" and "fs w' = fs w"
    and "r = Ok (live (merged snd ls key)) \<or> faults w \<noteq> [] \<and> (\<exists>x. r = Err (Io x))"
proof -
  obtain sm where s: "storage_get key (eng_storage e, w) = (r, sm, w')" and e': "e' = e\<lparr>eng_storage := sm\<rparr>"
    using run by (auto simp: on_storage_def zoom_def split: prod.splits)
  from ok have h: "storage_holds ls (eng_storage e) w" by (simp add: engine_ok_def)
  from storage_get_answer [OF h, of key, unfolded s] have
    q: "quiet w w'" "storage_holds ls sm w'" "sm = (eng_storage e)\<lparr>sstables := sstables sm\<rparr>"
    and r: "r = Ok (live (merged snd ls key)) \<or> faults w \<noteq> [] \<and> (\<exists>x. r = Err (Io x))"
    by (cases r; auto)+
  have "storage_data_dir sm = storage_data_dir (eng_storage e)" by (subst q(3)) simp
  moreover have "is_file w' (wal_path (eng_wal e))" using ok q(1) by (simp add: engine_ok_def is_file_def quiet_same)
  ultimately show "engine_ok ls e' w'" using ok q(2) by (simp add: engine_ok_def e' sstable_path_def)
  show "fs w' = fs w" using q(1) by (simp add: quiet_same)
  show "eng_memtable e' = eng_memtable e" "view ls e' = view ls e" by (simp_all add: e' view_def)
  show "r = Ok (live (merged snd ls key)) \<or> faults w \<noteq> [] \<and> (\<exists>x. r = Err (Io x))" by (rule r)
qed

lemma engine_get_ok:
  assumes ok: "engine_ok ls e w" and run: "engine_get key (e, w) = (r, e', w')"
  shows "engine_ok ls e' w'" and "view ls e' = view ls e" and "fs w' = fs w"
    and "r = Ok (view ls e key) \<or> faults w \<noteq> [] \<and> (\<exists>x. r = Err (Io x))"
proof -
  have "engine_ok ls e' w' \<and> view ls e' = view ls e \<and> fs w' = fs w \<and>
    (r = Ok (view ls e key) \<or> faults w \<noteq> [] \<and> (\<exists>x. r = Err (Io x)))"
  proof (cases "memtable_get (eng_memtable e) key")
    case None
    with run have "on_storage (storage_get key) (e, w) = (r, e', w')" by (simp add: engine_get_def)
    note g = on_storage_get [OF ok this]
    have "view ls e key = live (merged snd ls key)" using None by (simp add: view_def map_add_def)
    with g(1,3-5) show ?thesis by metis
  next
    case (Some x)
    with run ok show ?thesis by (cases x) (auto simp: engine_get_def view_def)
  qed
  then show "engine_ok ls e' w'" "view ls e' = view ls e" "fs w' = fs w"
    "r = Ok (view ls e key) \<or> faults w \<noteq> [] \<and> (\<exists>x. r = Err (Io x))" by blast+
qed

end
