(* ===== verification/Durability.thy ===== *)
theory Durability
  imports Engine
begin

section \<open>Crashes and recovery (src/src/engine.rs, src/src/wal/, src/src/storage/)\<close>

text \<open>
  What survives when the process or the machine stops, the state of an engine that can be
  recovered (\<open>durable_state\<close>), that every operation of the engine keeps it, and what
  \<open>Engine::open\<close> makes of the files it finds.
\<close>

subsection \<open>Crashes\<close>

text \<open>
  A crash keeps the names of the files. A crash of the process keeps what was written; after a
  crash of the machine a file has what was synced, what was written, or something in between
  when the written content extends the synced one, and that is then what is on the disk. The
  buffers of the process are lost in either case.
\<close>

fun after_crash :: "node \<Rightarrow> node \<Rightarrow> bool" where
  "after_crash DirNode n \<longleftrightarrow> n = DirNode"
| "after_crash (FileNode c d) DirNode \<longleftrightarrow> False"
| "after_crash (FileNode c d) (FileNode c' d') \<longleftrightarrow>
     c' = c \<and> d' = d \<or> d' = c' \<and> (c' = c \<or> c' = d \<or> prefix d c' \<and> prefix c' c)"

definition crash :: "world \<Rightarrow> world \<Rightarrow> bool" where
  "crash w w' \<longleftrightarrow> map fst (fs w') = map fst (fs w) \<and>
     (\<forall>p n. lookup w p = Some n \<longrightarrow> (\<exists>n'. lookup w' p = Some n' \<and> after_crash n n'))"

lemma crash_lookup_None: "crash w w' \<Longrightarrow> lookup w' p = None \<longleftrightarrow> lookup w p = None"
  by (simp add: crash_def lookup_def map_of_eq_None_iff flip: set_map)

lemma after_crash_file: "after_crash n n' \<Longrightarrow> (\<exists>c d. n = FileNode c d) \<longleftrightarrow> (\<exists>c d. n' = FileNode c d)"
  by (cases "(n, n')" rule: after_crash.cases) auto

lemma crash_is_file:
  assumes "crash w w'"
  shows "is_file w' p = is_file w p"
proof (cases "lookup w p")
  case None
  then show ?thesis using crash_lookup_None [OF assms, of p] by (simp add: is_file_def)
next
  case (Some n)
  then obtain n' where "lookup w' p = Some n'" "after_crash n n'" using assms by (auto simp: crash_def)
  with Some after_crash_file [of n n'] show ?thesis by (auto simp: is_file_lookup)
qed

lemma crash_dir: "crash w w' \<Longrightarrow> lookup w' p = Some DirNode \<longleftrightarrow> lookup w p = Some DirNode"
  using crash_is_file [of w w' p] crash_lookup_None [of w w' p]
  by (cases "lookup w p"; cases "lookup w' p") (auto simp: is_file_def split: node.splits)

lemma crash_file:
  assumes "crash w w'" and "is_file w p"
  shows "content w' p = content w p \<and> durable w' p = durable w p \<or>
    durable w' p = content w' p \<and>
      (content w' p = content w p \<or> content w' p = durable w p \<or>
       prefix (durable w p) (content w' p) \<and> prefix (content w' p) (content w p))"
proof -
  obtain n' where "lookup w' p = Some n'" "after_crash (FileNode (content w p) (durable w p)) n'"
    using assms is_file_cases [OF assms(2)] by (auto simp: crash_def)
  then show ?thesis by (cases n') (auto simp: content_lookup)
qed

lemma crash_synced:
  assumes "crash w w'" and "is_file w p" and "durable w p = content w p"
  shows "content w' p = content w p" and "durable w' p = content w p"
  using crash_file [OF assms(1,2)] assms(3) by auto

lemma disk_tables_keeps:
  assumes disk: "disk_tables dir ls w" and k: "keeps p w w'" and p: "butlast p \<noteq> dir"
  shows "disk_tables dir ls w'"
proof -
  have isf: "is_file w' q = is_file w q" for q
    using k by (cases "q = p") (auto simp: keeps_def is_file_def frame_def)
  have "content w' (sstable_path_with_dir dir i) = content w (sstable_path_with_dir dir i)" for i
    using k p by (intro frame_content [of "{p}"]) (auto simp: keeps_def sstable_path_with_dir_def)
  then have "table_file es w' (sstable_path_with_dir dir i) = table_file es w (sstable_path_with_dir dir i)" for es i
    using isf by (simp add: table_file_def)
  with disk show ?thesis using k isf by (simp add: disk_tables_def keeps_def same_names_def)
qed

subsection \<open>The durable state\<close>

text \<open>
  The log on the disk may be older than the log of the engine, because \<open>truncate\<close> does not sync.
  An old log is harmless while replaying it over the tables changes nothing (\<open>absorbed\<close>).
\<close>

definition absorbed :: "(u64 \<times> entries) list \<Rightarrow> wal_entry list \<Rightarrow> bool" where
  "absorbed ls old \<longleftrightarrow> merged snd ls ++ memtable_get (mt.replay old memtable_new) = merged snd ls"

definition log_fits :: "wal_entry list \<Rightarrow> bool" where
  "log_fits es \<longleftrightarrow> entries_fit (memtable_iter (mt.replay es memtable_new))"

definition tables_safe :: "path \<Rightarrow> (u64 \<times> entries) list \<Rightarrow> world \<Rightarrow> bool" where
  "tables_safe dir ls w \<longleftrightarrow> (\<forall>i. lookup w (sstable_path_with_dir dir i) \<noteq> Some DirNode) \<and> (\<forall>l \<in> set ls.
     durable w (sstable_path_with_dir dir (fst l)) = content w (sstable_path_with_dir dir (fst l)))"

text \<open>
  An engine with the tables \<open>ls\<close> and the entries \<open>es\<close> in its log: the tables are complete and
  synced, the log holds exactly \<open>es\<close> (some of it possibly still in the buffer), and the memtable
  is the replay of \<open>es\<close>.
\<close>

definition store_state :: "'h libs \<Rightarrow> path \<Rightarrow> (u64 \<times> entries) list \<Rightarrow> wal_entry list \<Rightarrow> engine \<Rightarrow> world \<Rightarrow> bool" where
  "store_state L d ls es e w \<longleftrightarrow>
     storage_holds ls (eng_storage e) w \<and> storage_data_dir (eng_storage e) = d @ [SSTABLE_DIR] \<and>
     disk_tables (d @ [SSTABLE_DIR]) ls w \<and> tables_safe (d @ [SSTABLE_DIR]) ls w \<and>
     lookup w (d @ [SSTABLE_DIR]) = Some DirNode \<and>
     wal_path (eng_wal e) = d @ [WAL_FILENAME] \<and> wal_holds L es (eng_wal e) w \<and>
     list_all (loggable L) es \<and> unat (current_lsn (eng_wal e)) = length es + 1 \<and> log_fits es \<and>
     eng_memtable e = mt.replay es memtable_new"

lemma store_stateD:
  assumes "store_state L d ls es e w"
  shows "storage_holds ls (eng_storage e) w" and "storage_data_dir (eng_storage e) = d @ [SSTABLE_DIR]"
    and "disk_tables (d @ [SSTABLE_DIR]) ls w" and "tables_safe (d @ [SSTABLE_DIR]) ls w"
    and "wal_path (eng_wal e) = d @ [WAL_FILENAME]" and "wal_holds L es (eng_wal e) w"
    and "list_all (loggable L) es" and "unat (current_lsn (eng_wal e)) = length es + 1" and "log_fits es"
    and "eng_memtable e = mt.replay es memtable_new" and "lookup w (d @ [SSTABLE_DIR]) = Some DirNode"
  using assms by (simp_all add: store_state_def)

text \<open>
  An engine that syncs every write: also the file has all of \<open>es\<close>, and the synced log is \<open>es\<close> or,
  right after a truncation, absorbed by the tables.
\<close>

definition durable_state :: "'h libs \<Rightarrow> path \<Rightarrow> (u64 \<times> entries) list \<Rightarrow> wal_entry list \<Rightarrow> engine \<Rightarrow> world \<Rightarrow> bool" where
  "durable_state L d ls es e w \<longleftrightarrow> store_state L d ls es e w \<and>
     sync_strategy (eng_wal e) = EveryWrite \<and> content w (d @ [WAL_FILENAME]) = log_bytes L es \<and>
     (if es = [] then absorbed ls (fst (scan L (durable w (d @ [WAL_FILENAME])))) \<and>
          log_fits (fst (scan L (durable w (d @ [WAL_FILENAME]))))
      else durable w (d @ [WAL_FILENAME]) = log_bytes L es)"

lemma durable_store: "durable_state L d ls es e w \<Longrightarrow> store_state L d ls es e w"
  by (simp add: durable_state_def)

lemma durable_stateD:
  assumes "durable_state L d ls es e w"
  shows "storage_holds ls (eng_storage e) w" and "storage_data_dir (eng_storage e) = d @ [SSTABLE_DIR]"
    and "disk_tables (d @ [SSTABLE_DIR]) ls w" and "tables_safe (d @ [SSTABLE_DIR]) ls w"
    and "wal_path (eng_wal e) = d @ [WAL_FILENAME]" and "sync_strategy (eng_wal e) = EveryWrite"
    and "wal_holds L es (eng_wal e) w" and "content w (d @ [WAL_FILENAME]) = log_bytes L es"
    and "list_all (loggable L) es" and "unat (current_lsn (eng_wal e)) = length es + 1" and "log_fits es"
    and "eng_memtable e = mt.replay es memtable_new"
    and "es = [] \<Longrightarrow> absorbed ls (fst (scan L (durable w (d @ [WAL_FILENAME])))) \<and>
          log_fits (fst (scan L (durable w (d @ [WAL_FILENAME]))))"
    and "es \<noteq> [] \<Longrightarrow> durable w (d @ [WAL_FILENAME]) = log_bytes L es"
    and "lookup w (d @ [SSTABLE_DIR]) = Some DirNode"
  using assms by (simp_all add: durable_state_def store_state_def)

lemma wal_dir [simp]: "WAL_FILENAME \<noteq> SSTABLE_DIR" "SSTABLE_DIR \<noteq> WAL_FILENAME"
  by (simp_all add: WAL_FILENAME_def SSTABLE_DIR_def)

lemma wal_not_table: "d @ [WAL_FILENAME] \<noteq> sstable_path_with_dir (d @ [SSTABLE_DIR]) i"
  by (simp add: sstable_path_with_dir_def)

lemma store_state_ok: "store_state L d ls es e w \<Longrightarrow> engine_ok ls e w"
  by (auto simp: store_state_def engine_ok_def sstable_path_def wal_not_table wal_holds_def seq_writer_def
      seq_handle_def wal_path_def bw_path_def intro: mt.inv_replay mt.inv_empty)

lemmas durable_state_ok = store_state_ok [OF durable_store]

lemma crash_disk_tables:
  assumes cr: "crash w w'" and disk: "disk_tables dir ls w" and safe: "tables_safe dir ls w"
  shows "disk_tables dir ls w'" and "tables_safe dir ls w'"
proof -
  have tf: "table_file (snd l) w (sstable_path_with_dir dir (fst l))" if "l \<in> set ls" for l
    using disk that by (simp add: disk_tables_def)
  then have same: "content w' (sstable_path_with_dir dir (fst l)) = content w (sstable_path_with_dir dir (fst l))"
    "durable w' (sstable_path_with_dir dir (fst l)) = content w (sstable_path_with_dir dir (fst l))" if "l \<in> set ls" for l
    using that safe crash_synced [OF cr] by (auto simp: table_file_def tables_safe_def)
  with tf have "table_file (snd l) w' (sstable_path_with_dir dir (fst l))" if "l \<in> set ls" for l
    using that crash_is_file [OF cr] by (auto simp: table_file_def)
  with disk show "disk_tables dir ls w'"
    using cr crash_is_file [OF cr] by (simp add: disk_tables_def crash_def)
  show "tables_safe dir ls w'"
    using same safe crash_dir [OF cr] by (simp add: tables_safe_def)
qed

lemma tables_safe_frame:
  assumes "tables_safe dir ls w" and "frame {p} w w'" and "\<And>i. p \<noteq> sstable_path_with_dir dir i"
  shows "tables_safe dir ls w'"
proof -
  have "lookup w' (sstable_path_with_dir dir i) = lookup w (sstable_path_with_dir dir i)" for i
    using assms(3) [of i] by (intro frame_lookup [OF assms(2)]) simp
  with assms(1) show ?thesis by (simp add: tables_safe_def content_def durable_def)
qed

lemma mem_inv_replay: "mem_inv (mt.replay es memtable_new)"
  by (intro mt.inv_replay mt.inv_empty)

lemma absorbed_push: "absorbed ((i, memtable_iter (mt.replay es memtable_new)) # ls) es"
  by (simp add: absorbed_def memtable_iter_map [OF mem_inv_replay] map_add_def fun_eq_iff split: option.split)

lemma absorbed_Nil [simp]: "absorbed ls []"
  by (simp add: absorbed_def mt.get_empty)

lemma log_fits_Nil [simp]: "log_fits []"
  by (simp add: log_fits_def memtable_iter_def memtable_new_def entries_fit_def sst_size_def index_start_def
      SST_HEADER_SIZE_def FOOTER_SIZE_def)

lemma memtable_apply_replay: "snd (memtable_apply op t) = mt.apply_op op t"
  by (cases op) simp_all

lemma memtable_clear_new: "memtable_clear t = memtable_new"
  by (simp add: memtable_clear_def memtable_new_def)

subsection \<open>Writes and flushes\<close>

text \<open>
  The limits of the formats: ids and LSNs below \<open>2 ^ 64\<close>, lengths below \<open>2 ^ 32\<close>, tables below
  \<open>2 ^ 63\<close> bytes.
\<close>

definition has_room :: "'h libs \<Rightarrow> operation \<Rightarrow> engine \<Rightarrow> bool" where
  "has_room L op e \<longleftrightarrow> next_free (eng_storage e) \<and> unat (current_lsn (eng_wal e)) < 2 ^ 64 - 1 \<and>
     entries_fit (memtable_iter (snd (memtable_apply op (eng_memtable e)))) \<and>
     (\<forall>t. loggable L \<lparr>lsn = current_lsn (eng_wal e), operation = op, timestamp = t\<rparr>)"

lemma store_append:
  assumes st: "store_state L d ls es e w" and room: "has_room L op e"
    and run: "with_wal (wal_append L op) (e, w) = (Ok n, e', w')"
  defines "e1 \<equiv> e'\<lparr>eng_memtable := snd (memtable_apply op (eng_memtable e'))\<rparr>"
  obtains en where "operation en = op" and "store_state L d ls (es @ [en]) e1 w'"
    and "e' = e\<lparr>eng_wal := eng_wal e'\<rparr>" and "sync_strategy (eng_wal e') = sync_strategy (eng_wal e)"
    and "sync_strategy (eng_wal e) = EveryWrite \<Longrightarrow>
      content w' (d @ [WAL_FILENAME]) = log_bytes L (es @ [en]) \<and> durable w' (d @ [WAL_FILENAME]) = log_bytes L (es @ [en])"
    and "\<And>c. sync_strategy (eng_wal e) = EveryNEntries c \<Longrightarrow>
      (if c \<le> uncommitted_count (eng_wal e) + 1
       then uncommitted_count (eng_wal e') = 0 \<and> durable w' (d @ [WAL_FILENAME]) = log_bytes L (es @ [en])
       else uncommitted_count (eng_wal e') = uncommitted_count (eng_wal e) + 1 \<and>
         durable w' (d @ [WAL_FILENAME]) = durable w (d @ [WAL_FILENAME]))"
proof -
  let ?p = "d @ [WAL_FILENAME]"
  note st = store_stateD [OF st]
  note path = st(5) and lsn = st(8)
  from run obtain wr where app: "wal_append L op (eng_wal e, w) = (Ok n, wr, w')" and e': "e' = e\<lparr>eng_wal := wr\<rparr>"
    by (auto simp: with_wal_def split: if_splits prod.splits outcome.splits)
  have short: "length es < 2 ^ 64 - 1" using room lsn by (simp add: has_room_def)
  from wal_append_Ok [OF st(6) short app] obtain en where
    new: "wal_entry_new n op w = Ok en" and n: "n = current_lsn (eng_wal e)" and lsn': "current_lsn wr = n + 1"
    and fr: "wal_frame (eng_wal e, w) (wr, w')" and holds': "wal_holds L (es @ [en]) wr w'"
    and dur: "sync_strategy (eng_wal e) = EveryWrite \<Longrightarrow>
      content w' ?p = log_bytes L (es @ [en]) \<and> durable w' ?p = log_bytes L (es @ [en])"
    and batch: "\<And>c. sync_strategy (eng_wal e) = EveryNEntries c \<Longrightarrow>
      (if c \<le> uncommitted_count (eng_wal e) + 1
       then uncommitted_count wr = 0 \<and> durable w' ?p = log_bytes L (es @ [en])
       else uncommitted_count wr = uncommitted_count (eng_wal e) + 1 \<and> durable w' ?p = durable w ?p)"
    unfolding path by metis
  from new have en: "operation en = op" "loggable L en"
    using room n by (auto simp: wal_entry_new_def has_room_def split: option.splits)
  have k: "keeps ?p w w'" using wal_append_keeps [of "(eng_wal e, w)" L op] app path by (simp add: wal_keeps_def)
  have "unat (current_lsn wr) = length (es @ [en]) + 1"
    using lsn lsn' n room by (simp add: has_room_def unat_u64_succ)
  moreover have "storage_holds ls (eng_storage e) w'"
    using k by (intro storage_holds_other [OF st(1)]) (auto simp: keeps_def sstable_path_def st(2) wal_not_table)
  moreover have "disk_tables (d @ [SSTABLE_DIR]) ls w'"
    using k by (intro disk_tables_keeps [OF st(3)]) auto
  moreover have "tables_safe (d @ [SSTABLE_DIR]) ls w'"
    using k by (intro tables_safe_frame [OF st(4) _ wal_not_table]) (simp add: keeps_def)
  moreover have "lookup w' (d @ [SSTABLE_DIR]) = Some DirNode"
    using k st(11) frame_lookup [of "{?p}" w w' "d @ [SSTABLE_DIR]"] by (simp add: keeps_def wal_dir)
  moreover have "log_fits (es @ [en])"
    using room by (simp add: has_room_def log_fits_def st(10) memtable_apply_replay en(1))
  ultimately have "store_state L d ls (es @ [en]) e1 w'"
    using st fr holds' en by (simp add: store_state_def e1_def e' wal_frame_def memtable_apply_replay)
  then show ?thesis using that [OF en(1)] fr dur batch by (simp add: e' wal_frame_def)
qed

lemma durable_append:
  assumes st: "durable_state L d ls es e w" and room: "has_room L op e"
    and run: "with_wal (wal_append L op) (e, w) = (Ok n, e', w')"
  obtains en where "operation en = op"
    and "durable_state L d ls (es @ [en]) (e'\<lparr>eng_memtable := snd (memtable_apply op (eng_memtable e'))\<rparr>) w'"
proof -
  note ew = durable_stateD(6) [OF st]
  from store_append [OF durable_store [OF st] room run] ew obtain en where "operation en = op"
    "store_state L d ls (es @ [en]) (e'\<lparr>eng_memtable := snd (memtable_apply op (eng_memtable e'))\<rparr>) w'"
    "sync_strategy (eng_wal e') = EveryWrite"
    "content w' (d @ [WAL_FILENAME]) = log_bytes L (es @ [en])" "durable w' (d @ [WAL_FILENAME]) = log_bytes L (es @ [en])"
    by metis
  then show ?thesis by (intro that [of en]) (simp_all add: durable_state_def)
qed

lemma replay_empty_iff: "memtable_is_empty (mt.replay es memtable_new) \<longleftrightarrow> es = []"
proof -
  have "memtable_get (mt.replay es memtable_new) = Map.empty \<longleftrightarrow> es = []"
    by (simp add: mt.get_replay [OF mt.inv_empty] mt.get_empty)
  then show ?thesis using memtable_is_empty_iff [OF mem_inv_replay] by simp
qed

lemma storage_flush_disk:
  assumes holds: "storage_holds ls sm w" and free: "next_free sm" and inv: "mem_inv m"
    and fit: "entries_fit (memtable_iter m)" and some: "\<not> memtable_is_empty m"
    and disk: "disk_tables (storage_data_dir sm) ls w" and safe: "tables_safe (storage_data_dir sm) ls w"
    and run: "storage_flush L m (sm, w) = (Ok t, sm', w')"
  defines "ls' \<equiv> (next_sstable_id sm, memtable_iter m) # ls"
  shows "storage_holds ls' sm' w'" and "storage_data_dir sm' = storage_data_dir sm"
    and "disk_tables (storage_data_dir sm) ls' w'" and "tables_safe (storage_data_dir sm) ls' w'"
    and "frame {sstable_path sm (next_sstable_id sm)} w w'"
proof -
  let ?i = "next_sstable_id sm" and ?s = "storage_data_dir sm"
  let ?q = "sstable_path_with_dir ?s ?i"
  note fl = storage_flush_effect [OF holds free inv fit some run, unfolded sstable_path_def]
  note new = fl(7) [OF refl]
  have above: "\<forall>l \<in> set ls. fst l < ?i" using holds by (simp add: storage_holds_def)
  show "storage_holds ls' sm' w'" using new by (simp add: ls'_def)
  show "storage_data_dir sm' = ?s" by (rule fl(3))
  show "frame {sstable_path sm ?i} w w'" using fl(1) by (simp add: sstable_path_def)
  show "disk_tables ?s ls' w'"
    unfolding ls'_def by (rule disk_tables_push [OF disk fl(1) _ refl _ above]) (use new in \<open>simp_all add: file_added_def\<close>)
  have other: "lookup w' (sstable_path_with_dir ?s i) = lookup w (sstable_path_with_dir ?s i)" if "i \<noteq> ?i" for i
    using that by (intro frame_lookup [OF fl(1)]) simp
  have "lookup w' (sstable_path_with_dir ?s i) \<noteq> Some DirNode" for i
    using new safe other [of i] by (cases "i = ?i") (auto simp: table_file_def is_file_def tables_safe_def)
  moreover have "durable w' (sstable_path_with_dir ?s (fst l)) = content w' (sstable_path_with_dir ?s (fst l))" if "l \<in> set ls" for l
    using that above safe other [of "fst l"] by (auto simp: tables_safe_def content_def durable_def)
  ultimately show "tables_safe ?s ls' w'" using new by (simp add: tables_safe_def ls'_def)
qed

text \<open>A successful flush, for any log: the memtable is a table, the log is empty, and what is synced of it is as before.\<close>

lemma flush_internal_disk:
  assumes st: "storage_holds ls (eng_storage e) w" and dir: "storage_data_dir (eng_storage e) = d @ [SSTABLE_DIR]"
    and disk: "disk_tables (d @ [SSTABLE_DIR]) ls w" "tables_safe (d @ [SSTABLE_DIR]) ls w"
    and wal: "wal_path (eng_wal e) = d @ [WAL_FILENAME]" "wal_holds L es (eng_wal e) w"
    and mem: "mem_inv (eng_memtable e)" "entries_fit (memtable_iter (eng_memtable e))" "\<not> memtable_is_empty (eng_memtable e)"
    and free: "next_free (eng_storage e)" and run: "flush_internal L (e, w) = (Ok (), e', w')"
  defines "ls' \<equiv> (next_sstable_id (eng_storage e), memtable_iter (eng_memtable e)) # ls"
  obtains sm wr where "e' = e\<lparr>eng_storage := sm, eng_memtable := memtable_new, eng_wal := wr\<rparr>"
    and "storage_holds ls' sm w'" and "storage_data_dir sm = d @ [SSTABLE_DIR]"
    and "disk_tables (d @ [SSTABLE_DIR]) ls' w'" and "tables_safe (d @ [SSTABLE_DIR]) ls' w'"
    and "wal_holds L [] wr w'" and "wal_path wr = d @ [WAL_FILENAME]" and "sync_strategy wr = sync_strategy (eng_wal e)"
    and "current_lsn wr = 1" and "content w' (d @ [WAL_FILENAME]) = []"
    and "durable w' (d @ [WAL_FILENAME]) = durable w (d @ [WAL_FILENAME])"
    and "lookup w' (d @ [SSTABLE_DIR]) = lookup w (d @ [SSTABLE_DIR])" and "faults w = [] \<Longrightarrow> faults w' = []"
    and "next_sstable_id sm = next_sstable_id (eng_storage e) + 1"
proof -
  let ?i = "next_sstable_id (eng_storage e)" and ?m = "eng_memtable e" and ?p = "d @ [WAL_FILENAME]" and ?s = "d @ [SSTABLE_DIR]"
  obtain r1 sm w1 where s1: "storage_flush L ?m (eng_storage e, w) = (r1, sm, w1)" by (metis prod_cases3)
  obtain t wr where Ok: "r1 = Ok t" and e': "e' = e\<lparr>eng_storage := sm, eng_memtable := memtable_new, eng_wal := wr\<rparr>"
    and tr: "wal_truncate (eng_wal e, w1) = (Ok (), wr, w')"
    using run mem(3) s1 by (cases r1) (auto simp: flush_internal_def on_storage_def zoom_def with_wal_def
        memtable_clear_new split: if_splits prod.splits outcome.splits)
  note fl = storage_flush_disk [OF st free mem _ _ s1 [unfolded Ok], unfolded dir sstable_path_def, OF disk, folded ls'_def]
  have same: "lookup w1 ?p = lookup w ?p" using wal_not_table [of d ?i] by (intro frame_lookup [OF fl(5)]) auto
  have wal1: "wal_holds L es (eng_wal e) w1"
    using wal(2) wal_holds_world_cong [of w1 "eng_wal e" w L es] same by (simp add: wal(1))
  note th = wal_truncate_holds [OF wal1 tr]
  have k: "keeps ?p w1 w'" using wal_truncate_keeps [of "(eng_wal e, w1)"] tr wal(1) by (simp add: wal_keeps_def)
  show ?thesis
  proof (rule that [OF e'])
    show "storage_holds ls' sm w'"
      using k by (intro storage_holds_other [OF fl(1)]) (auto simp: keeps_def sstable_path_def fl(2) wal_not_table)
    show "disk_tables ?s ls' w'" using k by (intro disk_tables_keeps [OF fl(3)]) auto
    show "tables_safe ?s ls' w'" using k by (intro tables_safe_frame [OF fl(4) _ wal_not_table]) (simp add: keeps_def)
    show "lookup w' ?s = lookup w ?s"
      using frame_lookup [OF fl(5), of ?s] frame_lookup [of "{?p}" w1 w' ?s] k by (simp add: keeps_def sstable_path_with_dir_def)
    show "content w' ?p = []" "durable w' ?p = durable w ?p" using th(4,6) wal(1) same by (simp_all add: durable_def)
    show "faults w = [] \<Longrightarrow> faults w' = []" using frame_no_faults [OF fl(5)] frame_no_faults k by (auto simp: keeps_def)
    show "next_sstable_id sm = ?i + 1" using storage_flush_effect(4) [OF st free mem s1] by simp
  qed (use th wal(1) in \<open>simp_all add: wal_frame_def fl(2)\<close>)
qed

lemma store_flush:
  assumes st: "store_state L d ls es e w" and free: "next_free (eng_storage e)" and ne: "es \<noteq> []"
    and run: "flush_internal L (e, w) = (Ok (), e', w')"
  defines "ls' \<equiv> (next_sstable_id (eng_storage e), memtable_iter (mt.replay es memtable_new)) # ls"
  shows "store_state L d ls' [] e' w'" and "view ls' e' = view ls e"
    and "content w' (d @ [WAL_FILENAME]) = []" and "durable w' (d @ [WAL_FILENAME]) = durable w (d @ [WAL_FILENAME])"
    and "sync_strategy (eng_wal e') = sync_strategy (eng_wal e)" and "uncommitted_count (eng_wal e') = 0"
    and "faults w = [] \<Longrightarrow> faults w' = []" and "next_sstable_id (eng_storage e') = next_sstable_id (eng_storage e) + 1"
proof -
  note st = store_stateD [OF st]
  have mem: "mem_inv (eng_memtable e)" "entries_fit (memtable_iter (eng_memtable e))" "\<not> memtable_is_empty (eng_memtable e)"
    using ne st(9) by (simp_all add: st(10) replay_empty_iff mem_inv_replay log_fits_def)
  obtain sm wr where e': "e' = e\<lparr>eng_storage := sm, eng_memtable := memtable_new, eng_wal := wr\<rparr>"
    and fl: "storage_holds ls' sm w'" "storage_data_dir sm = d @ [SSTABLE_DIR]" "disk_tables (d @ [SSTABLE_DIR]) ls' w'"
    "tables_safe (d @ [SSTABLE_DIR]) ls' w'" "wal_holds L [] wr w'" "wal_path wr = d @ [WAL_FILENAME]"
    "sync_strategy wr = sync_strategy (eng_wal e)" "current_lsn wr = 1" "content w' (d @ [WAL_FILENAME]) = []"
    "durable w' (d @ [WAL_FILENAME]) = durable w (d @ [WAL_FILENAME])" "lookup w' (d @ [SSTABLE_DIR]) = lookup w (d @ [SSTABLE_DIR])"
    "faults w = [] \<Longrightarrow> faults w' = []" "next_sstable_id sm = next_sstable_id (eng_storage e) + 1"
    using flush_internal_disk [OF st(1-6) mem free run] unfolding st(10) ls'_def by metis
  show "store_state L d ls' [] e' w'" using fl st(11) by (simp add: store_state_def e')
  show "view ls' e' = view ls e"
    by (simp add: ls'_def view_def e' st(10) mt.get_empty memtable_iter_map [OF mem_inv_replay])
  show "uncommitted_count (eng_wal e') = 0" using fl(5) by (simp add: e' wal_holds_def unat_eq_0)
  show "content w' (d @ [WAL_FILENAME]) = []" "durable w' (d @ [WAL_FILENAME]) = durable w (d @ [WAL_FILENAME])"
    "faults w = [] \<Longrightarrow> faults w' = []" by (rule fl)+
  show "sync_strategy (eng_wal e') = sync_strategy (eng_wal e)"
    "next_sstable_id (eng_storage e') = next_sstable_id (eng_storage e) + 1" using fl(7,13) by (simp_all add: e')
qed

lemma durable_flush:
  assumes rt: "bincode_roundtrip L" and st: "durable_state L d ls es e w" and free: "next_free (eng_storage e)"
    and run: "flush_internal L (e, w) = (Ok (), e', w')"
  obtains ls' where "durable_state L d ls' [] e' w'" and "view ls' e' = view ls e"
    and "ls' = ls \<or> fst (hd ls') = next_sstable_id (eng_storage e)"
proof (cases "es = []")
  case True
  then have "memtable_is_empty (eng_memtable e)" using durable_stateD(12) [OF st] replay_empty_iff [of es] by simp
  with run have "e' = e" "w' = w" by (simp_all add: flush_internal_def)
  with True st show ?thesis by (intro that [of ls]) simp_all
next
  case False
  let ?i = "next_sstable_id (eng_storage e)"
  let ?ls = "(?i, memtable_iter (mt.replay es memtable_new)) # ls"
  note ds = durable_stateD [OF st]
  note fl = store_flush [OF durable_store [OF st] free False run]
  have "durable w' (d @ [WAL_FILENAME]) = log_bytes L es" using fl(4) ds(14) [OF False] by simp
  then have "fst (scan L (durable w' (d @ [WAL_FILENAME]))) = es" using scan_log [OF rt ds(9), of "[]"] by simp
  then have "durable_state L d ?ls [] e' w'"
    using fl ds(6,11) absorbed_push [of ?i es ls] by (simp add: durable_state_def)
  then show ?thesis using fl(2) by (rule that) simp
qed

subsection \<open>Opening\<close>

lemma replay_entries_eq: "replay_entries es t = mt.replay es t"
  by (induction es t rule: replay_entries.induct) (auto split: operation.split)

definition ids_room :: "(u64 \<times> entries) list \<Rightarrow> bool" where
  "ids_room ls \<longleftrightarrow> (ls \<noteq> [] \<longrightarrow> unat (fst (hd ls)) + 2 < 2 ^ 64)"

lemma ids_room_free: "ids_room ls \<Longrightarrow> ids_free ls"
  by (auto simp: ids_room_def ids_free_def)

lemma ids_room_next: "ids_room ls \<Longrightarrow> unat (next_id_after (map fst ls)) + 1 < 2 ^ 64"
  by (cases ls) (auto simp: ids_room_def next_id_after_def unat_word_ariths)

text \<open>
  What \<open>Engine::open\<close> needs of the disk: the tables \<open>ls\<close> in the directory of tables, and a log, or
  none yet.
\<close>

definition disk_ready :: "'h libs \<Rightarrow> path \<Rightarrow> (u64 \<times> entries) list \<Rightarrow> world \<Rightarrow> bool" where
  "disk_ready L d ls w \<longleftrightarrow> disk_tables (d @ [SSTABLE_DIR]) ls w \<and> tables_safe (d @ [SSTABLE_DIR]) ls w \<and> ids_room ls \<and>
     (is_file w (d @ [WAL_FILENAME]) \<or> lookup w (d @ [WAL_FILENAME]) = None \<and> d \<noteq> []) \<and>
     log_fits (fst (scan L (content w (d @ [WAL_FILENAME]))))"

definition recovered_layers :: "'h libs \<Rightarrow> path \<Rightarrow> (u64 \<times> entries) list \<Rightarrow> world \<Rightarrow> (u64 \<times> entries) list" where
  "recovered_layers L d ls w = (let es = fst (scan L (content w (d @ [WAL_FILENAME]))) in
     if es = [] then ls else (next_id_after (map fst ls), memtable_iter (mt.replay es memtable_new)) # ls)"

lemma dirs_made_tables_safe:
  assumes "tables_safe dir ls w" and "dirs_made dir' w w'" and "prefix dir' dir"
  shows "tables_safe dir ls w'"
proof -
  have "\<not> prefix (sstable_path_with_dir dir i) dir'" for i
    using assms(3) by (auto simp: sstable_path_with_dir_def prefix_def)
  then have "lookup w' (sstable_path_with_dir dir i) = lookup w (sstable_path_with_dir dir i)" for i
    using assms(2) by (auto simp: dirs_made_def)
  then show ?thesis using assms(1) by (simp add: tables_safe_def content_def durable_def)
qed

lemma tables_safe_can_create:
  assumes "tables_safe dir ls w" and "lookup w dir = Some DirNode"
  shows "can_create w (sstable_path_with_dir dir i)"
proof (cases "lookup w (sstable_path_with_dir dir i)")
  case None
  then show ?thesis using assms(2) by (simp add: can_create_def exists_path_def)
next
  case (Some n)
  then show ?thesis using assms(1) by (cases n) (simp_all add: can_create_def is_file_def tables_safe_def)
qed

text \<open>The recovered entries become a table of their own, if there are any.\<close>

definition recovered_table :: "storage_manager \<Rightarrow> wal_entry list \<Rightarrow> (u64 \<times> entries) list \<Rightarrow> (u64 \<times> entries) list" where
  "recovered_table sm es ls = (if es = [] then ls else (next_sstable_id sm, memtable_iter (mt.replay es memtable_new)) # ls)"

lemma recovered_flush:
  assumes nf: "faults w = []" and holds: "storage_holds ls sm w" and free: "next_free sm"
    and disk: "disk_tables (storage_data_dir sm) ls w" and safe: "tables_safe (storage_data_dir sm) ls w"
    and dir: "lookup w (storage_data_dir sm) = Some DirNode" and p: "\<And>i. p \<noteq> sstable_path_with_dir (storage_data_dir sm) i"
    and fit: "log_fits es"
  defines "m \<equiv> mt.replay es memtable_new" and "ls' \<equiv> recovered_table sm es ls"
  obtains sm' w' where "(if \<not> memtable_is_empty m
         then (case storage_flush L m (sm, w) of (r, storage, w) \<Rightarrow>
           andThen (r, w) (\<lambda>_ w. (Ok (memtable_clear m, storage), w)))
         else (Ok (m, sm), w)) = (Ok (memtable_new, sm'), w')"
    and "storage_holds ls' sm' w'" and "storage_data_dir sm' = storage_data_dir sm"
    and "disk_tables (storage_data_dir sm) ls' w'" and "tables_safe (storage_data_dir sm) ls' w'"
    and "lookup w' p = lookup w p" and "faults w' = []" and "lookup w' (storage_data_dir sm) = Some DirNode"
proof (cases "es = []")
  case True
  with that [of sm w] holds disk safe nf dir replay_empty_iff [of es] show ?thesis
    by (simp add: ls'_def recovered_table_def m_def)
next
  case False
  obtain r sm1 w1 where s1: "storage_flush L m (sm, w) = (r, sm1, w1)" by (metis prod_cases3)
  have inv: "mem_inv m" and fit': "entries_fit (memtable_iter m)" and some: "\<not> memtable_is_empty m"
    using False fit by (simp_all add: m_def mem_inv_replay log_fits_def replay_empty_iff)
  note fl = storage_flush_effect [OF holds free inv fit' some s1]
  have "can_create w (sstable_path sm (next_sstable_id sm))"
    using tables_safe_can_create [OF safe dir] by (simp add: sstable_path_def)
  then obtain t where t: "r = Ok t" using fl(5) nf by blast
  note d = storage_flush_disk [OF holds free inv fit' some disk safe s1 [unfolded t]]
  have "lookup w1 p = lookup w p" using p by (intro frame_lookup [OF d(5)]) (simp add: sstable_path_def)
  moreover have "faults w1 = []" using d(5) nf by (rule frame_no_faults)
  moreover have "lookup w1 (storage_data_dir sm) = Some DirNode"
    using frame_lookup [OF d(5), of "storage_data_dir sm"] dir by (simp add: sstable_path_def sstable_path_with_dir_def)
  ultimately show ?thesis
    using d False some s1 t that [of sm1 w1] by (simp add: ls'_def recovered_table_def m_def memtable_clear_new)
qed

lemma recover_into_effect:
  assumes nf: "faults w = []" and wal: "is_file w p" and holds: "storage_holds ls sm w" and free: "next_free sm"
    and disk: "disk_tables (storage_data_dir sm) ls w" and safe: "tables_safe (storage_data_dir sm) ls w"
    and dir: "lookup w (storage_data_dir sm) = Some DirNode" and p: "butlast p \<noteq> storage_data_dir sm" "p \<noteq> []"
    and es: "es = fst (scan L (content w p))" and fit: "log_fits es"
  defines "ls' \<equiv> recovered_table sm es ls"
  obtains wr sm' w' where "recover_into L p s sm w = (Ok (wr, memtable_new, sm'), w')"
    and "storage_holds ls' sm' w'" and "storage_data_dir sm' = storage_data_dir sm"
    and "disk_tables (storage_data_dir sm) ls' w'" and "tables_safe (storage_data_dir sm) ls' w'"
    and "wal_holds L [] wr w'" and "wal_path wr = p" and "sync_strategy wr = s" and "current_lsn wr = 1"
    and "content w' p = []" and "durable w' p = durable w p" and "faults w' = []"
    and "lookup w' (storage_data_dir sm) = Some DirNode"
proof -
  let ?s = "storage_data_dir sm"
  have p_table: "p \<noteq> sstable_path_with_dir ?s i" for i using p by (auto simp: sstable_path_with_dir_def)
  note flushed = recovered_flush [OF nf holds free disk safe dir p_table fit, of L, folded ls'_def]
  obtain sm1 w1 where st: "(if \<not> memtable_is_empty (mt.replay es memtable_new)
         then (case storage_flush L (mt.replay es memtable_new) (sm, w) of (r, storage, w) \<Rightarrow>
           andThen (r, w) (\<lambda>_ w. (Ok (memtable_clear (mt.replay es memtable_new), storage), w)))
         else (Ok (mt.replay es memtable_new, sm), w)) = (Ok (memtable_new, sm1), w1)"
      and h1: "storage_holds ls' sm1 w1" and d1: "storage_data_dir sm1 = ?s" and disk1: "disk_tables ?s ls' w1"
      and safe1: "tables_safe ?s ls' w1" and same: "lookup w1 p = lookup w p" and nf1: "faults w1 = []"
      and dir1: "lookup w1 ?s = Some DirNode" by (rule flushed)
  have isf: "is_file w1 p" using wal same by (simp add: is_file_def)
  from wal_open_no_faults [OF nf1] isf obtain wr w' where op: "wal_open p s w1 = (Ok wr, w')" by blast
  note o = wal_open_holds [OF op]
  have k: "keeps p w1 w'" using o(6,7,8) isf is_file_exists [OF isf] by (simp add: keeps_def same_names_def is_file_def)
  show ?thesis
  proof (rule that)
    show "recover_into L p s sm w = (Ok (wr, memtable_new, sm1), w')"
      unfolding recover_into_def recover_scan [OF nf wal, of L, folded es] andThen.simps(1) prod.case Let_def
        replay_entries_eq st by (simp add: op)
    show "storage_holds ls' sm1 w'"
      using o(6) by (rule storage_holds_other [OF h1]) (simp add: sstable_path_def d1 p_table)
    show "disk_tables ?s ls' w'" using k p(1) by (rule disk_tables_keeps [OF disk1])
    show "tables_safe ?s ls' w'" using o(6) p_table by (rule tables_safe_frame [OF safe1])
    show "content w' p = []" using o(7) by (rule content_lookup)
    show "durable w' p = durable w p" using content_lookup(2) [OF o(7)] same by (simp add: durable_def)
    show "faults w' = []" using o(6) nf1 by (rule frame_no_faults)
    have "?s \<noteq> p" using dir1 isf by (auto simp: is_file_def)
    then show "lookup w' ?s = Some DirNode" using frame_lookup [OF o(6), of ?s] dir1 by simp
  qed (use o d1 in simp_all)
qed

lemma disk_tables_new_file:
  assumes disk: "disk_tables dir ls w" and fr: "frame {p} w w'" and names: "map fst (fs w') = map fst (fs w) @ [p]"
    and p: "butlast p \<noteq> dir" "\<not> prefix p dir" "\<not> exists_path w p"
  shows "disk_tables dir ls w'"
proof -
  have same: "lookup w' q = lookup w q" if "q \<noteq> p" for q using fr that by (simp add: frame_def)
  have "sstable_path_with_dir dir i \<noteq> p" for i using p(1) by (auto simp: sstable_path_with_dir_def)
  then have tab: "table_file es w' (sstable_path_with_dir dir i) = table_file es w (sstable_path_with_dir dir i)" for es i
    using same [of "sstable_path_with_dir dir i"] by (simp add: table_file_def is_file_def content_def)
  have isf: "is_file w' q = is_file w q" if "q \<noteq> p" for q using same [OF that] by (simp add: is_file_def)
  have "distinct (map fst (fs w'))"
    using disk names p(3) by (auto simp: disk_tables_def exists_path_def lookup_def map_of_eq_None_iff)
  moreover have "\<not> is_file w' q" if "prefix q dir" for q
    using disk isf [of q] that p(2) unfolding disk_tables_def by blast
  moreover have "i \<in> fst ` set ls \<and> q = sstable_path_with_dir dir i"
    if "is_file w' q" "q \<noteq> []" "butlast q = dir" "parse_sstable_id q = Some i" for q i
    using disk isf [of q] that p(1) unfolding disk_tables_def by blast
  ultimately show ?thesis using disk tab unfolding disk_tables_def by simp
qed

lemma path_exists_no_faults: "faults w = [] \<Longrightarrow> path_exists p w = (exists_path w p, w)"
  by (simp add: path_exists_def io_simps)

lemma dirs_made_dir:
  "dirs_made dir w w' \<Longrightarrow> dir \<noteq> [] \<Longrightarrow> \<not> is_file w dir \<Longrightarrow> lookup w' dir = Some DirNode"
  by (cases "lookup w dir"; cases "the (lookup w dir)") (auto simp: dirs_made_def is_file_def)

text \<open>The two ways to a writer of the log: a recovery, or a new file.\<close>

definition opened :: "'h libs \<Rightarrow> path \<Rightarrow> (u64 \<times> entries) list \<Rightarrow> path \<Rightarrow> wal_sync_strategy \<Rightarrow> bytes \<Rightarrow>
    wal_writer \<Rightarrow> storage_manager \<Rightarrow> world \<Rightarrow> bool" where
  "opened L dir ls p s dur wr sm w \<longleftrightarrow> storage_holds ls sm w \<and> storage_data_dir sm = dir \<and>
     disk_tables dir ls w \<and> tables_safe dir ls w \<and> lookup w dir = Some DirNode \<and>
     wal_holds L [] wr w \<and> wal_path wr = p \<and> sync_strategy wr = s \<and> current_lsn wr = 1 \<and>
     content w p = [] \<and> durable w p = dur \<and> faults w = []"

lemma recover_into_opened:
  assumes nf: "faults w = []" and wal: "is_file w p" and holds: "storage_holds ls sm w" and free: "next_free sm"
    and disk: "disk_tables (storage_data_dir sm) ls w" and safe: "tables_safe (storage_data_dir sm) ls w"
    and dir: "lookup w (storage_data_dir sm) = Some DirNode" and p: "butlast p \<noteq> storage_data_dir sm" "p \<noteq> []"
    and fit: "log_fits (fst (scan L (content w p)))"
  obtains wr sm' w' where "recover_into L p s sm w = (Ok (wr, memtable_new, sm'), w')"
    and "opened L (storage_data_dir sm) (let es = fst (scan L (content w p)) in
      if es = [] then ls else (next_sstable_id sm, memtable_iter (mt.replay es memtable_new)) # ls) p s (durable w p) wr sm' w'"
  using recover_into_effect [OF assms(1-9) refl fit, of s] unfolding opened_def Let_def recovered_table_def by metis

lemma wal_open_opened:
  assumes nf: "faults w = []" and none: "lookup w p = None" and holds: "storage_holds ls sm w"
    and disk: "disk_tables (storage_data_dir sm) ls w" and safe: "tables_safe (storage_data_dir sm) ls w"
    and dir: "lookup w (storage_data_dir sm) = Some DirNode" "lookup w (butlast p) = Some DirNode"
    and p: "butlast p \<noteq> storage_data_dir sm" "\<not> prefix p (storage_data_dir sm)"
  obtains wr w' where "wal_open p s w = (Ok wr, w')" and "opened L (storage_data_dir sm) ls p s (durable w p) wr sm w'"
proof -
  from wal_open_no_faults [OF nf, of p] none dir(2) obtain wr w' where
    o: "wal_open p s w = (Ok wr, w')" by (auto simp: exists_path_def)
  note oh = wal_open_holds [OF o]
  have p_table: "p \<noteq> sstable_path_with_dir (storage_data_dir sm) i" for i using p(1) by (auto simp: sstable_path_with_dir_def)
  have "storage_holds ls sm w'" using storage_holds_other [OF holds oh(6)] p_table by (simp add: sstable_path_def)
  moreover have "tables_safe (storage_data_dir sm) ls w'" by (rule tables_safe_frame [OF safe oh(6) p_table])
  moreover have "disk_tables (storage_data_dir sm) ls w'"
    by (rule disk_tables_new_file [OF disk oh(6) _ p]) (use oh(8) none in \<open>simp_all add: exists_path_def\<close>)
  moreover have "storage_data_dir sm \<noteq> p" using none dir(1) by auto
  then have "lookup w' (storage_data_dir sm) = Some DirNode" using frame_lookup [OF oh(6)] dir(1) by simp
  ultimately show ?thesis
    using oh nf by (intro that [OF o]) (simp add: opened_def content_lookup frame_no_faults)
qed

text \<open>The directories and the storage manager.\<close>

lemma open_storage_effect:
  assumes ready: "disk_ready L d ls w" and nf: "faults w = []"
  obtains w1 w2 sm w' where "create_dir_all d w = (Ok (), w1)" and "create_dir_all (d @ [SSTABLE_DIR]) w1 = (Ok (), w2)"
    and "storage_open (d @ [SSTABLE_DIR]) w2 = (Ok sm, w')" and "storage_holds ls sm w'"
    and "storage_data_dir sm = d @ [SSTABLE_DIR]" and "next_sstable_id sm = next_id_after (map fst ls)"
    and "disk_tables (d @ [SSTABLE_DIR]) ls w'" and "tables_safe (d @ [SSTABLE_DIR]) ls w'"
    and "lookup w' (d @ [SSTABLE_DIR]) = Some DirNode" and "d \<noteq> [] \<Longrightarrow> lookup w' d = Some DirNode"
    and "lookup w' (d @ [WAL_FILENAME]) = lookup w (d @ [WAL_FILENAME])" and "faults w' = []"
proof -
  let ?s = "d @ [SSTABLE_DIR]" and ?p = "d @ [WAL_FILENAME]"
  from ready have disk: "disk_tables ?s ls w" and safe: "tables_safe ?s ls w" and room: "ids_room ls"
    by (simp_all add: disk_ready_def)
  have nofile: "\<not> is_file w q" if "prefix q ?s" for q using disk that unfolding disk_tables_def by blast
  then have "\<not> is_file w q" if "prefix q d" for q using that by simp
  from create_dir_all_effect [OF nf this] obtain w1 where
    c1: "create_dir_all d w = (Ok (), w1)" "dirs_made d w w1" by blast
  have nf1: "faults w1 = []" and disk1: "disk_tables ?s ls w1"
    using c1(2) nf disk_tables_dirs_made [OF disk c1(2)] by (simp_all add: dirs_made_def)
  have "\<not> is_file w1 q" if "prefix q ?s" for q using disk1 that unfolding disk_tables_def by blast
  from create_dir_all_effect [OF nf1 this] obtain w2 where
    c2: "create_dir_all ?s w1 = (Ok (), w2)" "dirs_made ?s w1 w2" by blast
  have nf2: "faults w2 = []" and disk2: "disk_tables ?s ls w2"
    using c2(2) nf1 disk_tables_dirs_made [OF disk1 c2(2)] by (simp_all add: dirs_made_def)
  from storage_open_holds [OF disk2 nf2 ids_room_free [OF room]] obtain sm w3 where
    op: "storage_open ?s w2 = (Ok sm, w3)" "storage_holds ls sm w3" "storage_data_dir sm = ?s"
      "next_sstable_id sm = next_id_after (map fst ls)" "dirs_made ?s w2 w3" "disk_tables ?s ls w3" by blast
  have "tables_safe ?s ls w3"
    using dirs_made_tables_safe [OF dirs_made_tables_safe [OF dirs_made_tables_safe [OF safe c1(2)] c2(2)] op(5)] by simp
  moreover have "lookup w3 ?s = Some DirNode"
    using dirs_made_dir [OF op(5)] disk2 by (simp add: disk_tables_def)
  moreover have "lookup w3 d = Some DirNode" if "d \<noteq> []"
    using dirs_made_dir [OF c1(2) that] nofile [of d] c2(2) op(5) by (simp add: dirs_made_def)
  moreover have "lookup w3 ?p = lookup w ?p"
    using c1(2) c2(2) op(5) by (simp add: dirs_made_def)
  ultimately show ?thesis using that [OF c1(1) c2(1) op(1-4,6)] op(5) nf2 by (simp add: dirs_made_def)
qed

lemma engine_open_effect:
  assumes ready: "disk_ready L d ls w" and nf: "faults w = []" and cfg: "data_dir cfg = d"
  defines "p \<equiv> d @ [WAL_FILENAME]"
  obtains e w' where "engine_open L cfg w = (Ok e, w')"
    and "opened L (d @ [SSTABLE_DIR]) (recovered_layers L d ls w) p (sync_strategy_of cfg) (durable w p) (eng_wal e) (eng_storage e) w'"
    and "eng_memtable e = memtable_new" and "eng_config e = cfg" and "\<not> wal_poisoned e" and "\<not> write_lock_poisoned e"
proof -
  let ?s = "d @ [SSTABLE_DIR]"
  from open_storage_effect [OF ready nf] obtain w1 w2 sm w3 where
    o: "create_dir_all d w = (Ok (), w1)" "create_dir_all ?s w1 = (Ok (), w2)" "storage_open ?s w2 = (Ok sm, w3)"
    "storage_holds ls sm w3" and dir: "storage_data_dir sm = ?s" and nid: "next_sstable_id sm = next_id_after (map fst ls)"
    and st: "disk_tables ?s ls w3" "tables_safe ?s ls w3" "lookup w3 ?s = Some DirNode"
    "d \<noteq> [] \<Longrightarrow> lookup w3 d = Some DirNode" and same: "lookup w3 p = lookup w p" and nf3: "faults w3 = []"
    unfolding p_def by blast
  from ready have room: "ids_room ls" and wal: "is_file w p \<or> lookup w p = None \<and> d \<noteq> []"
    and fit: "log_fits (fst (scan L (content w3 p)))" using same by (simp_all add: disk_ready_def p_def content_def)
  have free: "next_free sm" using ids_room_next [OF room] nid by (simp add: next_free_def)
  have p: "butlast p \<noteq> ?s" "p \<noteq> []" "butlast p = d" "\<not> prefix p ?s" by (auto simp: p_def prefix_def)
  define mk where "mk = (\<lambda>wal m storage. \<lparr>eng_config = cfg, eng_storage_dir = ?s, eng_wal = wal, wal_poisoned = False,
            eng_memtable = m, eng_storage = storage, write_lock_poisoned = False\<rparr>)"
  have start: "engine_open L cfg w = andThen (if exists_path w3 p then recover_into L p (sync_strategy_of cfg) sm w3
       else andThen (wal_open p (sync_strategy_of cfg) w3) (\<lambda>wal w. (Ok (wal, memtable_new, sm), w)))
       (\<lambda>(wal, m, storage) w. (Ok (mk wal m storage), w))"
    by (simp add: engine_open_def cfg o(1-3) Let_def p_def [symmetric] path_exists_no_faults [OF nf3] mk_def)
  have eq: "content w3 p = content w p" "durable w3 p = durable w p" using same by (simp_all add: content_def durable_def)
  show ?thesis
  proof (cases "is_file w p")
    case True
    then have isf: "is_file w3 p" using same by (simp add: is_file_def)
    from recover_into_opened [OF nf3 isf o(4) free, unfolded dir, OF st(1-3) p(1,2) fit, of "sync_strategy_of cfg"]
    obtain wr sm' w' where r: "recover_into L p (sync_strategy_of cfg) sm w3 = (Ok (wr, memtable_new, sm'), w')"
      and op: "opened L ?s (recovered_layers L d ls w) p (sync_strategy_of cfg) (durable w p) wr sm' w'"
      unfolding recovered_layers_def p_def [symmetric] eq nid by blast
    show ?thesis
      by (rule that [of "mk wr memtable_new sm'" w']) (use start r is_file_exists [OF isf] op in \<open>simp_all add: mk_def\<close>)
  next
    case False
    then have none: "lookup w3 p = None" "d \<noteq> []" using wal same by simp_all
    have layers: "recovered_layers L d ls w = ls"
      using none(1) same by (simp add: recovered_layers_def content_def flip: p_def)
    from wal_open_opened [OF nf3 none(1) o(4), unfolded dir, OF st(1-3) _ p(1,4), of "sync_strategy_of cfg" L, unfolded p(3), OF st(4) [OF none(2)]]
    obtain wr w' where r: "wal_open p (sync_strategy_of cfg) w3 = (Ok wr, w')"
      and op: "opened L ?s ls p (sync_strategy_of cfg) (durable w p) wr sm w'" unfolding eq by blast
    show ?thesis
      by (rule that [of "mk wr memtable_new sm" w']) (use start r none(1) op layers in \<open>simp_all add: mk_def exists_path_def\<close>)
  qed
qed

subsection \<open>Recovery\<close>

lemma view_recovered:
  assumes "eng_memtable e = memtable_new"
  shows "view (recovered_layers L d ls w) e =
    (\<lambda>key. live ((merged snd ls ++ memtable_get (mt.replay (fst (scan L (content w (d @ [WAL_FILENAME])))) memtable_new)) key))"
  by (simp add: view_def assms recovered_layers_def Let_def mt.get_empty memtable_iter_map [OF mem_inv_replay])

lemma crash_ready:
  assumes rt: "bincode_roundtrip L" and st: "durable_state L d ls es e w" and room: "ids_room ls" and cr: "crash w w'"
  shows "disk_ready L d ls w'"
    and "fst (scan L (content w' (d @ [WAL_FILENAME]))) = es \<or>
      es = [] \<and> fst (scan L (content w' (d @ [WAL_FILENAME]))) = fst (scan L (durable w (d @ [WAL_FILENAME])))"
    and "durable w' (d @ [WAL_FILENAME]) = content w' (d @ [WAL_FILENAME]) \<or>
      durable w' (d @ [WAL_FILENAME]) = durable w (d @ [WAL_FILENAME])"
proof -
  let ?p = "d @ [WAL_FILENAME]"
  note st = durable_stateD [OF st]
  have isf: "is_file w ?p" using st(5,7) by (simp add: wal_holds_def seq_writer_def seq_handle_def wal_path_def bw_path_def)
  have log: "fst (scan L (log_bytes L es)) = es" using scan_log [OF rt st(9), of "[]"] by simp
  from crash_file [OF cr isf] show dur: "durable w' ?p = content w' ?p \<or> durable w' ?p = durable w ?p" by blast
  from crash_file [OF cr isf] have c: "content w' ?p = log_bytes L es \<or> es = [] \<and> content w' ?p = durable w ?p"
  proof (cases "es = []")
    case True
    then show ?thesis using crash_file [OF cr isf] st(8) by auto
  next
    case False
    then show ?thesis using crash_file [OF cr isf] st(8) st(14) [OF False] by auto
  qed
  then show sc: "fst (scan L (content w' ?p)) = es \<or> es = [] \<and> fst (scan L (content w' ?p)) = fst (scan L (durable w ?p))"
    using log by auto
  show "disk_ready L d ls w'"
    using crash_disk_tables [OF cr st(3,4)] room isf crash_is_file [OF cr, of ?p] sc st(11,13)
    by (auto simp: disk_ready_def)
qed

lemma recovered_absorbed:
  "absorbed (recovered_layers L d ls w) (fst (scan L (content w (d @ [WAL_FILENAME]))))"
  by (simp add: recovered_layers_def Let_def absorbed_push)

text \<open>
  A crash at any moment between operations, and an open without input/output errors: the engine
  is back with the same contents.
\<close>

lemma crash_reopen:
  assumes rt: "bincode_roundtrip L" and st: "durable_state L d ls es e w" and room: "ids_room ls" and cr: "crash w w1"
    and nf: "faults w1 = []" and cfg: "data_dir cfg = d" "sync_strategy_of cfg = EveryWrite"
  obtains e' w' ls' where "engine_open L cfg w1 = (Ok e', w')" and "durable_state L d ls' [] e' w'"
    and "view ls' e' = view ls e" and "eng_config e' = cfg" and "\<not> wal_poisoned e'" and "\<not> write_lock_poisoned e'"
proof -
  let ?p = "d @ [WAL_FILENAME]"
  note cr = crash_ready [OF rt st room cr]
  from engine_open_effect [OF cr(1) nf cfg(1)] obtain e' w' where
    op: "engine_open L cfg w1 = (Ok e', w')" and
    ed: "opened L (d @ [SSTABLE_DIR]) (recovered_layers L d ls w1) ?p (sync_strategy_of cfg) (durable w1 ?p) (eng_wal e') (eng_storage e') w'"
    and rest: "eng_memtable e' = memtable_new" "eng_config e' = cfg" "\<not> wal_poisoned e'" "\<not> write_lock_poisoned e'" by blast
  note st = durable_stateD [OF st]
  have same: "merged snd (recovered_layers L d ls w1) = merged snd ls ++ memtable_get (mt.replay es memtable_new)"
    using cr(2) st(13) view_recovered
    by (auto simp: recovered_layers_def Let_def absorbed_def mt.get_empty memtable_iter_map [OF mem_inv_replay])
  have "absorbed (recovered_layers L d ls w1) (fst (scan L (durable w1 ?p))) \<and> log_fits (fst (scan L (durable w1 ?p)))"
  proof (cases "durable w1 ?p = content w1 ?p")
    case True
    then show ?thesis using recovered_absorbed [of L d ls w1] cr(1) by (simp add: disk_ready_def)
  next
    case False
    then have dur: "durable w1 ?p = durable w ?p" using cr(3) by simp
    show ?thesis
    proof (cases "es = []")
      case True
      then show ?thesis using st(13) same by (simp add: dur absorbed_def mt.get_empty)
    next
      case False
      then have "fst (scan L (durable w1 ?p)) = fst (scan L (content w1 ?p))"
        using dur st(14) cr(2) scan_log [OF rt st(9), of "[]"] by simp
      then show ?thesis using recovered_absorbed [of L d ls w1] cr(1) by (simp add: disk_ready_def)
    qed
  qed
  then have "durable_state L d (recovered_layers L d ls w1) [] e' w'"
    using ed rest cfg by (simp add: durable_state_def store_state_def opened_def)
  moreover have "view (recovered_layers L d ls w1) e' = view ls e"
    by (simp add: view_def same rest(1) st(12) mt.get_empty)
  ultimately show ?thesis using that op rest by blast
qed

end
