(* ===== verification/Sessions.thy ===== *)
theory Sessions
  imports Durability
begin

section \<open>Sessions (src/src/engine.rs)\<close>

text \<open>
  The life of a data directory as a step relation: opening, commands, flushes, crashes and
  reopenings in any order. The abstract specification is a map from keys to values
  (\<open>spec_exec\<close>); the invariant of the relation is \<open>durable_state\<close> with the map as its view.
\<close>

subsection \<open>The operations keep the durable state\<close>

lemma storage_holds_fs:
  assumes "fs w' = fs w"
  shows "storage_holds ls sm w' = storage_holds ls sm w"
proof -
  have "layer_holds (storage_data_dir sm) w' = layer_holds (storage_data_dir sm) w"
    using assms by (simp add: fun_eq_iff layer_holds_def reader_holds_def table_file_def is_file_def content_def lookup_def)
  then show ?thesis by (simp add: storage_holds_def)
qed

lemma store_state_fs:
  assumes "fs w' = fs w"
  shows "store_state L d ls es e w' = store_state L d ls es e w"
proof -
  have lk: "lookup w' q = lookup w q" for q using assms by (simp add: lookup_def)
  then have "is_file w' q = is_file w q" "content w' q = content w q" "durable w' q = durable w q" for q
    by (simp_all add: is_file_def content_def durable_def)
  with lk assms show ?thesis
    by (simp add: store_state_def storage_holds_fs [OF assms] disk_tables_def table_file_def tables_safe_def
        wal_holds_world_cong [OF lk])
qed

lemma durable_state_fs:
  assumes "fs w' = fs w"
  shows "durable_state L d ls es e w' = durable_state L d ls es e w"
  unfolding durable_state_def store_state_fs [OF assms] using assms by (simp add: content_def durable_def lookup_def)

definition healthy :: "engine \<Rightarrow> bool" where
  "healthy e \<longleftrightarrow> \<not> wal_poisoned e \<and> \<not> write_lock_poisoned e"

lemma with_wal_Ok:
  "with_wal m (e, w) = (Ok x, e', w') \<Longrightarrow> \<exists>wr. m (eng_wal e, w) = (Ok x, wr, w') \<and> e' = e\<lparr>eng_wal := wr\<rparr> \<and> \<not> wal_poisoned e"
  by (auto simp: with_wal_def split: if_splits prod.splits outcome.splits)

lemma flush_internal_healthy:
  "flush_internal L (e, w) = (Ok (), e', w') \<Longrightarrow> healthy e \<Longrightarrow> healthy e'"
  by (auto simp: flush_internal_def healthy_def on_storage_def zoom_def dest!: with_wal_Ok [OF sym]
      split: if_splits prod.splits outcome.splits elim!: andThen.elims)

lemma with_write_lock_Ok:
  "with_write_lock m (e, w) = (Ok x, s) \<Longrightarrow> m (e, w) = (Ok x, s) \<and> \<not> write_lock_poisoned e"
  by (auto simp: with_write_lock_def split: if_splits prod.splits outcome.splits)

text \<open>A successful write is an append and the change of the memtable, followed by a flush or not.\<close>

lemma engine_write_Ok:
  assumes run: "engine_write L op (e, w) = (Ok (), e', w')"
  obtains n e1 w1 where "with_wal (wal_append L op) (e, w) = (Ok n, e1, w1)"
    and "(if memtable_size_limit (eng_config e1) \<le> fst (memtable_apply op (eng_memtable e1))
      then flush_internal L (e1\<lparr>eng_memtable := snd (memtable_apply op (eng_memtable e1))\<rparr>, w1) = (Ok (), e', w')
      else e' = e1\<lparr>eng_memtable := snd (memtable_apply op (eng_memtable e1))\<rparr> \<and> w' = w1)"
proof -
  obtain n e1 w1 where s1: "with_wal (wal_append L op) (e, w) = (Ok n, e1, w1)"
    and s2: "after_write L (memtable_apply op (eng_memtable e1)) (e1, w1) = (Ok (), e', w')"
    using with_write_lock_Ok [OF run [unfolded engine_write_def]] by (auto elim!: andThen.elims)
  from s2 show ?thesis by (intro that [OF s1]) (auto simp: after_write_def case_prod_beta Let_def)
qed

lemma view_append:
  assumes "store_state L d ls es e w" and "with_wal (wal_append L op) (e, w) = (Ok n, e1, w1)"
  shows "view ls (e1\<lparr>eng_memtable := snd (memtable_apply op (eng_memtable e1))\<rparr>) = apply_view op (view ls e)"
proof -
  from with_wal_Ok [OF assms(2)] obtain wr where e1: "e1 = e\<lparr>eng_wal := wr\<rparr>" by blast
  have "mem_inv (eng_memtable e1)" using store_stateD(10) [OF assms(1)] mem_inv_replay by (simp add: e1)
  then show ?thesis using view_apply [of e1 ls op] by (simp add: e1 view_def)
qed

lemma durable_write:
  assumes rt: "bincode_roundtrip L" and st: "durable_state L d ls es e w" and room: "has_room L op e" and ok: "healthy e"
    and run: "engine_write L op (e, w) = (Ok (), e', w')"
  obtains ls' es' where "durable_state L d ls' es' e' w'" and "view ls' e' = apply_view op (view ls e)" and "healthy e'"
proof -
  obtain n e1 w1 where s1: "with_wal (wal_append L op) (e, w) = (Ok n, e1, w1)"
    and s2: "(if memtable_size_limit (eng_config e1) \<le> fst (memtable_apply op (eng_memtable e1))
      then flush_internal L (e1\<lparr>eng_memtable := snd (memtable_apply op (eng_memtable e1))\<rparr>, w1) = (Ok (), e', w')
      else e' = e1\<lparr>eng_memtable := snd (memtable_apply op (eng_memtable e1))\<rparr> \<and> w' = w1)"
    by (rule engine_write_Ok [OF run])
  let ?e = "e1\<lparr>eng_memtable := snd (memtable_apply op (eng_memtable e1))\<rparr>"
  from with_wal_Ok [OF s1] obtain wr where e1: "e1 = e\<lparr>eng_wal := wr\<rparr>" by blast
  have h: "healthy ?e" using ok by (simp add: healthy_def e1)
  from durable_append [OF st room s1] obtain en where st1: "durable_state L d ls (es @ [en]) ?e w1" by blast
  note view1 = view_append [OF durable_store [OF st] s1]
  show ?thesis
  proof (cases "memtable_size_limit (eng_config e1) \<le> fst (memtable_apply op (eng_memtable e1))")
    case True
    with s2 have fl: "flush_internal L (?e, w1) = (Ok (), e', w')" by simp
    have "next_free (eng_storage ?e)" using room by (simp add: has_room_def e1)
    from durable_flush [OF rt st1 this fl] view1 flush_internal_healthy [OF fl h] show ?thesis using that by metis
  next
    case False
    with s2 st1 view1 h show ?thesis using that by auto
  qed
qed

lemma engine_get_same:
  assumes holds: "storage_holds ls (eng_storage e) w" and run: "engine_get key (e, w) = (r, e', w')"
  shows "eng_storage e' = (eng_storage e)\<lparr>sstables := sstables (eng_storage e')\<rparr>" and "e' = e\<lparr>eng_storage := eng_storage e'\<rparr>"
proof -
  have "eng_storage e' = (eng_storage e)\<lparr>sstables := sstables (eng_storage e')\<rparr> \<and> e' = e\<lparr>eng_storage := eng_storage e'\<rparr>"
  proof (cases "memtable_get (eng_memtable e) key")
    case None
    obtain sm where s: "storage_get key (eng_storage e, w) = (r, sm, w')" and e': "e' = e\<lparr>eng_storage := sm\<rparr>"
      using run None by (auto simp: engine_get_def on_storage_def zoom_def split: prod.splits)
    have "sm = (eng_storage e)\<lparr>sstables := sstables sm\<rparr>"
      using storage_get_answer [OF holds, of key, unfolded s] by (cases r) auto
    then show ?thesis by (simp add: e')
  next
    case (Some x)
    then show ?thesis using run by (cases x) (auto simp: engine_get_def)
  qed
  then show "eng_storage e' = (eng_storage e)\<lparr>sstables := sstables (eng_storage e')\<rparr>" "e' = e\<lparr>eng_storage := eng_storage e'\<rparr>" by blast+
qed

lemma store_get:
  assumes st: "store_state L d ls es e w" and run: "engine_get key (e, w) = (r, e', w')"
  shows "store_state L d ls es e' w'" and "view ls e' = view ls e" and "healthy e' = healthy e"
    and "r = Ok (view ls e key) \<or> faults w \<noteq> [] \<and> (\<exists>x. r = Err (Io x))"
    and "fs w' = fs w" and "eng_wal e' = eng_wal e" and "next_sstable_id (eng_storage e') = next_sstable_id (eng_storage e)"
proof -
  note g = engine_get_ok [OF store_state_ok [OF st] run]
  show "view ls e' = view ls e" "r = Ok (view ls e key) \<or> faults w \<noteq> [] \<and> (\<exists>x. r = Err (Io x))" "fs w' = fs w" by (rule g)+
  note same = engine_get_same [OF store_stateD(1) [OF st] run]
  note upd = arg_cong [OF same(2)] and sto = arg_cong [OF same(1)]
  show "healthy e' = healthy e" using upd [of wal_poisoned] upd [of write_lock_poisoned] by (simp add: healthy_def)
  have eqs: "eng_wal e' = eng_wal e" "eng_memtable e' = eng_memtable e"
    using upd [of eng_wal] upd [of eng_memtable] by simp_all
  show "eng_wal e' = eng_wal e" by (rule eqs)
  show "next_sstable_id (eng_storage e') = next_sstable_id (eng_storage e)" using sto [of next_sstable_id] by simp
  have "storage_holds ls (eng_storage e') w'" "storage_data_dir (eng_storage e') = storage_data_dir (eng_storage e)"
    using g(1) sto [of storage_data_dir] by (simp_all add: engine_ok_def)
  then show "store_state L d ls es e' w'"
    using st unfolding store_state_fs [OF g(3)] storage_holds_fs [OF g(3)] by (simp add: store_state_def eqs)
qed

lemma durable_get:
  assumes st: "durable_state L d ls es e w" and run: "engine_get key (e, w) = (r, e', w')"
  shows "durable_state L d ls es e' w'" and "view ls e' = view ls e" and "healthy e' = healthy e"
    and "r = Ok (view ls e key) \<or> faults w \<noteq> [] \<and> (\<exists>x. r = Err (Io x))"
proof -
  note g = store_get [OF durable_store [OF st] run]
  show "view ls e' = view ls e" "healthy e' = healthy e" "r = Ok (view ls e key) \<or> faults w \<noteq> [] \<and> (\<exists>x. r = Err (Io x))" by (rule g)+
  show "durable_state L d ls es e' w'"
    using st g(1) unfolding durable_state_fs [OF g(5)] store_state_fs [OF g(5)] by (simp add: durable_state_def g(6))
qed

lemma durable_engine_flush:
  assumes rt: "bincode_roundtrip L" and st: "durable_state L d ls es e w" and free: "next_free (eng_storage e)" and ok: "healthy e"
    and run: "engine_flush L (e, w) = (Ok (), e', w')"
  obtains ls' where "durable_state L d ls' [] e' w'" and "view ls' e' = view ls e" and "healthy e'"
    and "ls' = ls \<or> fst (hd ls') = next_sstable_id (eng_storage e)"
proof -
  from with_write_lock_Ok [OF run [unfolded engine_flush_def]] have fl: "flush_internal L (e, w) = (Ok (), e', w')" by simp
  from durable_flush [OF rt st free fl] flush_internal_healthy [OF fl ok] show ?thesis using that by metis
qed

lemma durable_sync:
  assumes st: "durable_state L d ls es e w" and run: "with_wal wal_sync (e, w) = (Ok (), e', w')"
  shows "durable_state L d ls es e' w'" and "view ls e' = view ls e"
    and "buf (wal_file (eng_wal e')) = []"
proof -
  let ?p = "d @ [WAL_FILENAME]" and ?s = "d @ [SSTABLE_DIR]"
  from with_wal_Ok [OF run] obtain wr where sy: "wal_sync (eng_wal e, w) = (Ok (), wr, w')" and e': "e' = e\<lparr>eng_wal := wr\<rparr>" by blast
  note st = durable_stateD [OF st]
  note h = wal_sync_holds [OF st(7) sy]
  have k: "keeps ?p w w'" using wal_sync_keeps [of "(eng_wal e, w)"] sy st(5) by (simp add: wal_keeps_def)
  have "storage_holds ls (eng_storage e) w'"
    using k by (intro storage_holds_other [OF st(1)]) (auto simp: keeps_def sstable_path_def st(2) wal_not_table)
  moreover have "disk_tables ?s ls w'" using k by (intro disk_tables_keeps [OF st(3)]) auto
  moreover have "tables_safe ?s ls w'" using k by (intro tables_safe_frame [OF st(4) _ wal_not_table]) (simp add: keeps_def)
  moreover have "lookup w' ?s = Some DirNode"
    using k st(15) frame_lookup [of "{?p}" w w' ?s] by (simp add: keeps_def)
  ultimately show "durable_state L d ls es e' w'"
    using st h by (simp add: durable_state_def store_state_def e' wal_frame_def)
  show "view ls e' = view ls e" by (simp add: e' view_def)
  show "buf (wal_file (eng_wal e')) = []" using h(4) by (simp add: e')
qed

definition ids_left :: "engine \<Rightarrow> bool" where
  "ids_left e \<longleftrightarrow> unat (next_sstable_id (eng_storage e)) + 2 < 2 ^ 64"

lemma ids_left_free: "ids_left e \<Longrightarrow> next_free (eng_storage e)"
  by (simp add: ids_left_def next_free_def)

lemma store_ids_room:
  assumes "ids_left e" and "store_state L d ls es e w"
  shows "ids_room ls"
proof -
  have "\<forall>l \<in> set ls. fst l < next_sstable_id (eng_storage e)"
    using store_stateD(1) [OF assms(2)] by (simp add: storage_holds_def)
  then have "ls \<noteq> [] \<Longrightarrow> unat (fst (hd ls)) < unat (next_sstable_id (eng_storage e))"
    by (simp add: word_less_nat_alt)
  with assms(1) show ?thesis by (auto simp: ids_left_def ids_room_def)
qed

lemmas ids_left_room = store_ids_room [OF _ durable_store]

lemma durable_close:
  assumes rt: "bincode_roundtrip L" and st: "durable_state L d ls es e w" and ids: "ids_left e" and ok: "healthy e"
    and run: "engine_close L (e, w) = (Ok (), w')"
  obtains ls' es' e' where "durable_state L d ls' es' e' w'" and "view ls' e' = view ls e" and "ids_room ls'"
proof -
  obtain e1 w1 where s1: "(if \<not> memtable_is_empty (eng_memtable e) then engine_flush L (e, w) else (Ok (), e, w)) = (Ok (), e1, w1)"
    and s2: "\<exists>e2 w2. with_wal wal_sync (e1, w1) = (Ok (), e2, w2) \<and> w' = wal_drop (eng_wal e2, w2)"
    using run by (auto simp: engine_close_def split: prod.splits elim!: andThen.elims) metis
  from s2 obtain e2 w2 where s2: "with_wal wal_sync (e1, w1) = (Ok (), e2, w2)" and w': "w' = wal_drop (eng_wal e2, w2)" by blast
  obtain ls' es' where st1: "durable_state L d ls' es' e1 w1" "view ls' e1 = view ls e"
    and hd: "ls' = ls \<or> fst (hd ls') = next_sstable_id (eng_storage e)"
  proof (cases "memtable_is_empty (eng_memtable e)")
    case True
    with s1 st that show ?thesis by auto
  next
    case False
    with s1 have fl: "engine_flush L (e, w) = (Ok (), e1, w1)" by simp
    from durable_engine_flush [OF rt st ids_left_free [OF ids] ok fl] that show ?thesis by metis
  qed
  note sy = durable_sync [OF st1(1) s2]
  have "w' = w2" using sy(3) by (simp add: w' wal_drop_def on_file_def zoom_def flush_buf_def file_write_all_def)
  moreover have "ids_room ls'" using hd ids_left_room [OF ids st] ids by (auto simp: ids_room_def ids_left_def)
  ultimately show ?thesis using that sy st1(2) by metis
qed

subsection \<open>Sessions\<close>

fun spec_exec :: "command \<Rightarrow> (bytes \<rightharpoonup> bytes) \<Rightarrow> bytes option \<times> (bytes \<rightharpoonup> bytes)" where
  "spec_exec (Get key) m = (m key, m)"
| "spec_exec (Put key val) m = (None, m(key \<mapsto> val))"
| "spec_exec (Delete key) m = (None, m(key := None))"
| "spec_exec Ping m = (Some PONG, m)"

fun room_for :: "'h libs \<Rightarrow> command \<Rightarrow> engine \<Rightarrow> bool" where
  "room_for L (Put key val) e \<longleftrightarrow> has_room L (OpPut key val) e"
| "room_for L (Delete key) e \<longleftrightarrow> has_room L (OpDelete key) e"
| "room_for L c e \<longleftrightarrow> True"

definition fresh_disk :: "path \<Rightarrow> world \<Rightarrow> bool" where
  "fresh_disk d w \<longleftrightarrow> d \<noteq> [] \<and> lookup w (d @ [WAL_FILENAME]) = None \<and>
     disk_tables (d @ [SSTABLE_DIR]) [] w \<and> tables_safe (d @ [SSTABLE_DIR]) [] w"

text \<open>
  \<open>session L cfg e w m\<close>: the engine \<open>e\<close> in the world \<open>w\<close> can be reached, and the acknowledged writes
  make the map \<open>m\<close>. The environment may change the pending input/output errors and the clock at
  any time; a write or a flush that reports an error ends the session.
\<close>

inductive session :: "'h libs \<Rightarrow> config \<Rightarrow> engine \<Rightarrow> world \<Rightarrow> (bytes \<rightharpoonup> bytes) \<Rightarrow> bool" for L cfg where
  session_start: "fresh_disk (data_dir cfg) w \<Longrightarrow> faults w = [] \<Longrightarrow> engine_open L cfg w = (Ok e, w') \<Longrightarrow>
     session L cfg e w' Map.empty"
| session_environment: "session L cfg e w m \<Longrightarrow> session L cfg e (w\<lparr>faults := f, now := t\<rparr>) m"
| session_execute: "session L cfg e w m \<Longrightarrow> room_for L c e \<Longrightarrow> execute L c (e, w) = (Ok x, e', w') \<Longrightarrow>
     session L cfg e' w' (snd (spec_exec c m))"
| session_failed_get: "session L cfg e w m \<Longrightarrow> execute L (Get key) (e, w) = (Err x, e', w') \<Longrightarrow> session L cfg e' w' m"
| session_flush: "session L cfg e w m \<Longrightarrow> ids_left e \<Longrightarrow> engine_flush L (e, w) = (Ok (), e', w') \<Longrightarrow> session L cfg e' w' m"
| session_crash: "session L cfg e w m \<Longrightarrow> ids_left e \<Longrightarrow> crash w w1 \<Longrightarrow> faults w1 = [] \<Longrightarrow>
     engine_open L cfg w1 = (Ok e', w') \<Longrightarrow> session L cfg e' w' m"
| session_close: "session L cfg e w m \<Longrightarrow> ids_left e \<Longrightarrow> engine_close L (e, w) = (Ok (), w1) \<Longrightarrow> crash w1 w2 \<Longrightarrow>
     faults w2 = [] \<Longrightarrow> engine_open L cfg w2 = (Ok e', w') \<Longrightarrow> session L cfg e' w' m"

definition session_state :: "'h libs \<Rightarrow> config \<Rightarrow> engine \<Rightarrow> world \<Rightarrow> (bytes \<rightharpoonup> bytes) \<Rightarrow> bool" where
  "session_state L cfg e w m \<longleftrightarrow> (\<exists>ls es. durable_state L (data_dir cfg) ls es e w \<and> m = view ls e) \<and> healthy e"

lemma fresh_open:
  assumes fresh: "fresh_disk (data_dir cfg) w" and nf: "faults w = []" and cfg: "sync_strategy_of cfg = EveryWrite"
  obtains e w' where "engine_open L cfg w = (Ok e, w')" and "durable_state L (data_dir cfg) [] [] e w'"
    and "view [] e = Map.empty" and "healthy e"
proof -
  let ?p = "data_dir cfg @ [WAL_FILENAME]"
  have none: "lookup w ?p = None" using fresh by (simp add: fresh_disk_def)
  have ready: "disk_ready L (data_dir cfg) [] w"
    using fresh none by (simp add: disk_ready_def fresh_disk_def ids_room_def content_def)
  have layers: "recovered_layers L (data_dir cfg) [] w = []" using none by (simp add: recovered_layers_def content_def)
  have dur: "durable w ?p = []" using none by (simp add: durable_def)
  from engine_open_effect [OF ready nf refl] obtain e w' where op: "engine_open L cfg w = (Ok e, w')" and
    ed: "opened L (data_dir cfg @ [SSTABLE_DIR]) [] ?p EveryWrite [] (eng_wal e) (eng_storage e) w'"
    and rest: "eng_memtable e = memtable_new" "\<not> wal_poisoned e" "\<not> write_lock_poisoned e"
    unfolding layers dur cfg by blast
  have "durable_state L (data_dir cfg) [] [] e w'" using ed rest by (simp add: durable_state_def store_state_def opened_def)
  moreover have "view [] e = Map.empty" by (simp add: view_def rest mt.get_empty)
  ultimately show ?thesis using that op rest by (simp add: healthy_def)
qed

lemma durable_execute:
  assumes rt: "bincode_roundtrip L" and st: "durable_state L d ls es e w" and ok: "healthy e" and room: "room_for L c e"
    and run: "execute L c (e, w) = (Ok x, e', w')"
  obtains ls' es' where "durable_state L d ls' es' e' w'" and "(x, view ls' e') = spec_exec c (view ls e)" and "healthy e'"
proof (cases c)
  case (Get key)
  with run have g: "engine_get key (e, w) = (Ok x, e', w')" by simp
  note dg = durable_get [OF st g]
  show ?thesis using that [OF dg(1)] dg(2-4) ok Get by simp
next
  case (Put key val)
  with run have p: "engine_write L (OpPut key val) (e, w) = (Ok (), e', w')" and x: "x = None"
    by (auto simp: engine_write_eq elim!: andThen.elims)
  from room Put have "has_room L (OpPut key val) e" by simp
  from durable_write [OF rt st this ok p] obtain ls' es' where
    "durable_state L d ls' es' e' w'" "view ls' e' = apply_view (OpPut key val) (view ls e)" "healthy e'" by blast
  with that x Put show ?thesis by simp
next
  case (Delete key)
  with run have p: "engine_write L (OpDelete key) (e, w) = (Ok (), e', w')" and x: "x = None"
    by (auto simp: engine_write_eq elim!: andThen.elims)
  from room Delete have "has_room L (OpDelete key) e" by simp
  from durable_write [OF rt st this ok p] obtain ls' es' where
    "durable_state L d ls' es' e' w'" "view ls' e' = apply_view (OpDelete key) (view ls e)" "healthy e'" by blast
  with that x Delete show ?thesis by simp
next
  case Ping
  with run st ok that show ?thesis by auto
qed

lemma session_invariant:
  assumes "session L cfg e w m" and rt: "bincode_roundtrip L" and ew: "sync_strategy_of cfg = EveryWrite"
  shows "session_state L cfg e w m"
  using assms(1)
proof (induction rule: session.induct)
  case (session_start w e w')
  from fresh_open [OF session_start(1,2) ew, of L] session_start(3) show ?case
    unfolding session_state_def by (metis Pair_inject outcome.inject(1))
next
  case (session_environment e w m t f)
  then show ?case
    using durable_state_fs [of "w\<lparr>faults := f, now := t\<rparr>" w L "data_dir cfg"] by (simp add: session_state_def)
next
  case (session_execute e w m c x e' w')
  then show ?case using durable_execute [OF rt] unfolding session_state_def by (metis snd_conv)
next
  case (session_failed_get e w m key x e' w')
  then show ?case using durable_get unfolding session_state_def execute.simps by metis
next
  case (session_flush e w m e' w')
  then show ?case using durable_engine_flush [OF rt] ids_left_free unfolding session_state_def by metis
next
  case (session_crash e w m w1 e' w')
  then show ?case using crash_reopen [OF rt _ ids_left_room _ _ refl ew] unfolding session_state_def healthy_def
    by (metis Pair_inject outcome.inject(1))
next
  case (session_close e w m w1 w2 e' w')
  from session_close.IH obtain ls es where st: "durable_state L (data_dir cfg) ls es e w" "m = view ls e" "healthy e"
    by (auto simp: session_state_def)
  from durable_close [OF rt st(1) session_close(2) st(3) session_close(3)] obtain ls' es' e1 where
    st': "durable_state L (data_dir cfg) ls' es' e1 w1" "view ls' e1 = view ls e" "ids_room ls'" by blast
  from crash_reopen [OF rt st'(1,3) session_close(4,5) refl ew] session_close(6) st(2) st'(2) show ?case
    unfolding session_state_def healthy_def by (metis Pair_inject outcome.inject(1))
qed

subsection \<open>Availability\<close>

lemma flush_available:
  assumes st: "store_state L d ls es e w" and ok: "healthy e" and free: "next_free (eng_storage e)" and nf: "faults w = []"
  obtains e' w' where "flush_internal L (e, w) = (Ok (), e', w')"
proof (cases "memtable_is_empty (eng_memtable e)")
  case True
  then show ?thesis by (intro that [of e w]) (simp add: flush_internal_def)
next
  case False
  note d = store_stateD [OF st]
  have inv: "mem_inv (eng_memtable e)" using d(10) mem_inv_replay by simp
  obtain r sm w1 where s1: "storage_flush L (eng_memtable e) (eng_storage e, w) = (r, sm, w1)" by (metis prod_cases3)
  note fl = storage_flush_effect [OF d(1) free inv d(9) [unfolded log_fits_def, folded d(10)] False s1]
  from fl(5) [OF nf] tables_safe_can_create [OF d(4,11)] obtain t where t: "r = Ok t"
    by (auto simp: sstable_path_def d(2))
  have "lookup w1 (d @ [WAL_FILENAME]) = lookup w (d @ [WAL_FILENAME])"
    by (intro frame_lookup [OF fl(1)]) (simp add: sstable_path_def d(2) wal_not_table)
  then have "wal_holds L es (eng_wal e) w1" using d(5,6) wal_holds_world_cong [of w1 "eng_wal e" w L es] by simp
  from wal_truncate_no_faults [OF this frame_no_faults [OF fl(1) nf]] obtain wr w2 where
    "wal_truncate (eng_wal e, w1) = (Ok (), wr, w2)" by blast
  then have "flush_internal L (e, w) = (Ok (), e\<lparr>eng_storage := sm, eng_memtable := memtable_new, eng_wal := wr\<rparr>, w2)"
    using ok False s1 t by (simp add: flush_internal_def on_storage_def zoom_def with_wal_def healthy_def memtable_clear_new)
  then show ?thesis by (rule that)
qed

lemma write_available:
  assumes st: "store_state L d ls es e w" and ok: "healthy e" and room: "has_room L op e"
    and nf: "faults w = []" and clock: "now w \<noteq> None"
  obtains e' w' where "engine_write L op (e, w) = (Ok (), e', w')"
proof -
  note ds = store_stateD [OF st]
  obtain en where new: "wal_entry_new (current_lsn (eng_wal e)) op w = Ok en" and en: "loggable L en"
    using clock room by (auto simp: wal_entry_new_def has_room_def)
  have "length es < 2 ^ 64 - 1" using room ds(8) by (simp add: has_room_def)
  from wal_append_no_faults [OF ds(6) this nf new serialize_loggable [OF en]] obtain wr w1 where
    app: "wal_append L op (eng_wal e, w) = (Ok (current_lsn (eng_wal e)), wr, w1)" by blast
  let ?e1 = "e\<lparr>eng_wal := wr\<rparr>"
  let ?e = "?e1\<lparr>eng_memtable := snd (memtable_apply op (eng_memtable e))\<rparr>"
  have s1: "with_wal (wal_append L op) (e, w) = (Ok (current_lsn (eng_wal e)), ?e1, w1)"
    using ok app by (simp add: with_wal_def healthy_def)
  from store_append [OF st room s1] obtain en' where st1: "store_state L d ls (es @ [en']) ?e w1" by auto
  have nf1: "faults w1 = []"
    using wal_append_keeps [of "(eng_wal e, w)" L op] app nf by (auto simp: wal_keeps_def keeps_def intro: frame_no_faults)
  have "healthy ?e" "next_free (eng_storage ?e)" using ok room by (simp_all add: healthy_def has_room_def)
  from flush_available [OF st1 this nf1] obtain e2 w2 where fl: "flush_internal L (?e, w1) = (Ok (), e2, w2)" by blast
  have "\<exists>e' w'. after_write L (memtable_apply op (eng_memtable e)) (?e1, w1) = (Ok (), e', w')"
    using fl by (auto simp: after_write_def case_prod_beta Let_def)
  then show ?thesis using that ok s1 by (auto simp: engine_write_def with_write_lock_def healthy_def)
qed

lemma execute_available:
  assumes st: "durable_state L d ls es e w" and ok: "healthy e" and room: "room_for L c e"
    and nf: "faults w = []" and clock: "now w \<noteq> None"
  obtains x e' w' where "execute L c (e, w) = (Ok x, e', w')"
proof (cases c)
  case (Get key)
  obtain r e' w' where g: "engine_get key (e, w) = (r, e', w')" by (metis prod_cases3)
  from durable_get(4) [OF st g] nf g Get that show ?thesis by auto
next
  case (Put key val)
  with room have "has_room L (OpPut key val) e" by simp
  from write_available [OF durable_store [OF st] ok this nf clock] obtain e' w' where "engine_write L (OpPut key val) (e, w) = (Ok (), e', w')" by blast
  with Put show ?thesis by (intro that [of None e' w']) (simp add: engine_write_eq)
next
  case (Delete key)
  with room have "has_room L (OpDelete key) e" by simp
  from write_available [OF durable_store [OF st] ok this nf clock] obtain e' w' where "engine_write L (OpDelete key) (e, w) = (Ok (), e', w')" by blast
  with Delete show ?thesis by (intro that [of None e' w']) (simp add: engine_write_eq)
next
  case Ping
  with that show ?thesis by simp
qed

lemma crash_refl: "crash w w"
proof -
  have "after_crash n n" for n by (cases n) simp_all
  then show ?thesis by (simp add: crash_def)
qed

subsection \<open>Properties\<close>

text \<open>A fresh data directory and a configuration that syncs every write, for the witnesses.\<close>

definition demo_config :: config where
  "demo_config = config_default\<lparr>data_dir := [''d''], sync_strategy_of := EveryWrite\<rparr>"

definition demo_root :: world where
  "demo_root = \<lparr>fs = [([''d''], DirNode)], faults = [], now = Some 5\<rparr>"

lemma demo_fresh: "fresh_disk (data_dir demo_config) demo_root"
proof -
  have nofile: "\<not> is_file demo_root q" for q by (simp add: is_file_def lookup_def demo_root_def)
  have "lookup demo_root q = (if q = [''d''] then Some DirNode else None)" for q by (simp add: lookup_def demo_root_def)
  moreover have "distinct (map fst (fs demo_root))" by (simp add: demo_root_def)
  ultimately show ?thesis
    by (simp add: fresh_disk_def demo_config_def disk_tables_def tables_safe_def nofile sstable_path_with_dir_def)
qed

definition demo_engine :: engine where
  "demo_engine = \<lparr>eng_config = demo_config, eng_storage_dir = [''d'', SSTABLE_DIR],
     eng_wal = \<lparr>wal_file = \<lparr>inner = \<lparr>w_path = [''d'', WAL_FILENAME], w_pos = 0, w_append = False\<rparr>, buf = []\<rparr>,
       current_lsn = 1, sync_strategy = EveryWrite, uncommitted_count = 0\<rparr>,
     wal_poisoned = False, eng_memtable = memtable_new,
     eng_storage = \<lparr>storage_data_dir = [''d'', SSTABLE_DIR], sstables = [], next_sstable_id = 1\<rparr>,
     write_lock_poisoned = False\<rparr>"

definition demo_opened :: world where
  "demo_opened = \<lparr>fs = [([''d''], DirNode), ([''d'', SSTABLE_DIR], DirNode), ([''d'', WAL_FILENAME], FileNode [] [])],
     faults = [], now = Some 5\<rparr>"

lemma demo_open: "engine_open ref_libs demo_config demo_root = (Ok demo_engine, demo_opened)"
  by code_simp

lemma demo_session: "session ref_libs demo_config demo_engine demo_opened Map.empty"
  using session_start [OF demo_fresh _ demo_open] by (simp add: demo_root_def)

lemma demo_every_write: "sync_strategy_of demo_config = EveryWrite"
  by (simp add: demo_config_def)

lemma demo_ids: "ids_left demo_engine"
  by (simp add: ids_left_def demo_engine_def)

lemma demo_room: "room_for ref_libs (Put [1] [2]) demo_engine"
proof -
  have "memtable_iter (snd (memtable_put [1] [2] memtable_new)) = [([1], Value [2])]"
    by (simp add: memtable_put_def memtable_new_def memtable_iter_def Let_def)
  moreover have "entries_fit [([1], Value [2])]"
    by (simp add: entries_fit_def entry_fits_def sst_size_def index_start_def SST_HEADER_SIZE_def FOOTER_SIZE_def
        length_data_entry index_entry_def)
  moreover have "loggable ref_libs \<lparr>lsn = 1, operation = OpPut [1] [2], timestamp = t\<rparr>" for t
    by (simp add: loggable_def ref_libs_def ref_serialize_def ref_short_def ref_bytes_def)
  ultimately show ?thesis by (simp add: has_room_def demo_engine_def next_free_def)
qed

lemma write_keeps_storage:
  assumes "engine_write L op (e, w) = (Ok (), e', w')"
    and "\<not> memtable_size_limit (eng_config e) \<le> fst (memtable_apply op (eng_memtable e))"
  shows "eng_storage e' = eng_storage e"
proof -
  obtain n e1 w1 where s1: "with_wal (wal_append L op) (e, w) = (Ok n, e1, w1)"
    and s2: "(if memtable_size_limit (eng_config e1) \<le> fst (memtable_apply op (eng_memtable e1))
      then flush_internal L (e1\<lparr>eng_memtable := snd (memtable_apply op (eng_memtable e1))\<rparr>, w1) = (Ok (), e', w')
      else e' = e1\<lparr>eng_memtable := snd (memtable_apply op (eng_memtable e1))\<rparr> \<and> w' = w1)"
    by (rule engine_write_Ok [OF assms(1)])
  from with_wal_Ok [OF s1] s2 assms(2) show ?thesis by auto
qed

lemma demo_put:
  obtains e w where "execute ref_libs (Put [1] [2]) (demo_engine, demo_opened) = (Ok None, e, w)" and "ids_left e"
proof -
  have "faults demo_opened = []" "now demo_opened \<noteq> None" by (simp_all add: demo_opened_def)
  with session_invariant [OF demo_session ref_libs_ok(1) demo_every_write] demo_room obtain e w where
    put: "engine_write ref_libs (OpPut [1] [2]) (demo_engine, demo_opened) = (Ok (), e, w)"
    unfolding session_state_def room_for.simps by (metis write_available durable_store)
  have "fst (memtable_apply (OpPut [1] [2]) memtable_new) = 2"
    by (simp add: memtable_put_def memtable_new_def Let_def apply_size_delta_def old_entry_size_def bt_get_def)
  then have "eng_storage e = eng_storage demo_engine"
    using write_keeps_storage [OF put] by (simp add: demo_engine_def demo_config_def config_default_def)
  with demo_ids put show ?thesis by (intro that [of e w]) (simp_all add: engine_write_eq ids_left_def)
qed

lemma demo_put_session: "\<exists>e w. session ref_libs demo_config e w [[1] \<mapsto> [2]] \<and> ids_left e"
  using demo_put session_execute [OF demo_session demo_room] by (metis snd_conv spec_exec.simps(2))



text \<open>A session can be resumed after a crash, with its map.\<close>

lemma session_reopens:
  assumes "session L cfg e w m" and "bincode_roundtrip L" and "sync_strategy_of cfg = EveryWrite"
    and "ids_left e" and "crash w w1" and "faults w1 = []"
  obtains e' w' where "engine_open L cfg w1 = (Ok e', w')" and "session L cfg e' w' m"
proof -
  from session_invariant [OF assms(1-3)] obtain ls es where
    st: "durable_state L (data_dir cfg) ls es e w" "m = view ls e" by (auto simp: session_state_def)
  from crash_reopen [OF assms(2) st(1) ids_left_room [OF assms(4) st(1)] assms(5,6) refl assms(3)] obtain e' w' where
    "engine_open L cfg w1 = (Ok e', w')" by metis
  with session_crash [OF assms(1,4,5,6)] that show ?thesis by blast
qed

text \<open>C2: No acknowledged write is lost. After a crash at any point between two operations of a session,
  opening the engine again without input/output errors succeeds, and every key has the value the
  map of the session has.\<close>

theorem crash_loses_nothing:
  assumes "session L cfg e w m" and "bincode_roundtrip L" and "sync_strategy_of cfg = EveryWrite"
    and "ids_left e" and "crash w w1" and "faults w1 = []"
  shows "\<exists>e' w'. engine_open L cfg w1 = (Ok e', w') \<and> session L cfg e' w' m \<and>
    (\<forall>key. faults w' = [] \<longrightarrow> fst (engine_get key (e', w')) = Ok (m key))"
proof -
  obtain e' w' where op: "engine_open L cfg w1 = (Ok e', w')" and ses: "session L cfg e' w' m"
    by (rule session_reopens [OF assms])
  from session_invariant [OF ses assms(2,3)] obtain ls es where
    st: "durable_state L (data_dir cfg) ls es e' w'" "m = view ls e'" by (auto simp: session_state_def)
  have "fst (engine_get key (e', w')) = Ok (m key)" if "faults w' = []" for key
    using durable_get(4) [OF st(1), of key] st(2) that by (cases "engine_get key (e', w')") auto
  with op ses show ?thesis by blast
qed

theorem crash_loses_nothing_witness:
  "\<exists>e w. session ref_libs demo_config e w [[1] \<mapsto> [2]]"
proof -
  obtain e w where s: "session ref_libs demo_config e (w\<lparr>faults := [], now := now w\<rparr>) [[1] \<mapsto> [2]]" "ids_left e"
    using demo_put_session session_environment by metis
  from crash_loses_nothing [OF s(1) ref_libs_ok(1) demo_every_write s(2) crash_refl] show ?thesis by auto
qed

text \<open>Without input/output errors and with a working clock every command of a session succeeds.\<close>

lemma session_available:
  assumes "session L cfg e w m" and "bincode_roundtrip L" and "sync_strategy_of cfg = EveryWrite"
    and "room_for L c e" and "faults w = []" and "now w \<noteq> None"
  shows "\<exists>x e' w'. execute L c (e, w) = (Ok x, e', w')"
proof -
  from session_invariant [OF assms(1-3)] obtain ls es where
    st: "durable_state L (data_dir cfg) ls es e w" "healthy e" by (auto simp: session_state_def)
  from execute_available [OF st assms(4,5,6)] show ?thesis by blast
qed



end
