(* ===== verification/Simulation.thy ===== *)
theory Simulation
  imports Prelude
begin

section \<open>Runs with events and simulations between them\<close>

text \<open>
  A labelled step relation, its runs with the list of their events, and the interface of a forward
  simulation: a relation between concrete and abstract states that every concrete step keeps with
  an abstract step of the same event. What holds of one step then holds of runs.
\<close>

inductive trace_run :: "('s \<Rightarrow> 'e \<Rightarrow> 's \<Rightarrow> bool) \<Rightarrow> 's \<Rightarrow> 'e list \<Rightarrow> 's \<Rightarrow> bool" for step where
  no_steps: "trace_run step s [] s"
| more_steps: "step s ev s' \<Longrightarrow> trace_run step s' tr s'' \<Longrightarrow> trace_run step s (ev # tr) s''"

inductive_cases trace_run_NilE: "trace_run step s [] s'"
inductive_cases trace_run_ConsE: "trace_run step s (ev # tr) s'"

lemma one_step: "step s ev s' \<Longrightarrow> trace_run step s [ev] s'"
  by (blast intro: trace_run.intros)

lemma trace_run_Nil_iff: "trace_run step s [] t \<longleftrightarrow> t = s"
  by (auto elim: trace_run_NilE intro: no_steps)

lemma trace_run_Cons_iff: "trace_run step s (ev # tr) u \<longleftrightarrow> (\<exists>t. step s ev t \<and> trace_run step t tr u)"
  by (auto elim: trace_run_ConsE intro: more_steps)

lemma trace_run_append_iff: "trace_run step s (tr @ tr') u \<longleftrightarrow> (\<exists>t. trace_run step s tr t \<and> trace_run step t tr' u)"
  by (induction tr arbitrary: s) (auto simp: trace_run_Nil_iff trace_run_Cons_iff)

locale trace_simulation =
  fixes concrete :: "'c \<Rightarrow> 'e \<Rightarrow> 'c \<Rightarrow> bool"
    and abstract :: "'a \<Rightarrow> 'e \<Rightarrow> 'a \<Rightarrow> bool"
    and related :: "'c \<Rightarrow> 'a \<Rightarrow> bool"
  assumes simulate: "related c a \<Longrightarrow> concrete c ev c' \<Longrightarrow> \<exists>a'. abstract a ev a' \<and> related c' a'"
begin

lemma simulate_run:
  "trace_run concrete c tr c' \<Longrightarrow> related c a \<Longrightarrow> \<exists>a'. trace_run abstract a tr a' \<and> related c' a'"
proof (induction arbitrary: a rule: trace_run.induct)
  case (no_steps c)
  then show ?case by (blast intro: trace_run.no_steps)
next
  case (more_steps c ev c1 tr c2)
  from simulate [OF more_steps.prems more_steps.hyps(1)] obtain a1 where
    "abstract a ev a1" "related c1 a1" by blast
  with more_steps.IH [of a1] show ?case by (blast intro: trace_run.more_steps)
qed

end

end
