(* ===== verification/Readers.thy ===== *)
theory Readers
  imports Sessions Simulation
begin

section \<open>Concurrent access to the engine (src/src/engine.rs)\<close>

text \<open>
  Lookups do not take the \<open>write_lock\<close>: between its two reads (memtable, then tables) a lookup may
  see any steps of a writer. Here the operations are split at the points where another thread can
  see a difference. The writer, whoever holds the \<open>write_lock\<close>, appends to the log, changes the
  memtable (the commit point), and flushes: it adds the new table, clears the memtable, truncates
  the log. A reader looks into the memtable and then, on a miss, into the tables. The memtable
  and the list of tables have locks of their own, so each of these steps is atomic.
\<close>

datatype writer_pc = Idle | Logged operation | Flushing | Clearing | Truncating

datatype reader_pc = Invoked bytes | Missed bytes | Returned

record shared =
  sh_engine :: engine
  sh_world :: world
  sh_writer :: writer_pc
  sh_readers :: "reader_pc list"

datatype event = Commit operation | Invoke nat bytes | Return nat "bytes option result" | Silent

subsection \<open>The steps\<close>

definition writer_append :: "'h libs \<Rightarrow> operation \<Rightarrow> shared \<Rightarrow> shared" where
  "writer_append L op s = (case with_wal (wal_append L op) (sh_engine s, sh_world s) of
     (Ok _, e, w) \<Rightarrow> s\<lparr>sh_engine := e, sh_world := w, sh_writer := Logged op\<rparr>
   | (Err _, e, w) \<Rightarrow> s\<lparr>sh_engine := e, sh_world := w\<rparr>
   | (Panic, e, w) \<Rightarrow> s\<lparr>sh_engine := e\<lparr>write_lock_poisoned := True\<rparr>, sh_world := w\<rparr>)"

definition writer_commit :: "operation \<Rightarrow> shared \<Rightarrow> shared" where
  "writer_commit op s = (case memtable_apply op (eng_memtable (sh_engine s)) of (new_size, mt) \<Rightarrow>
     s\<lparr>sh_engine := (sh_engine s)\<lparr>eng_memtable := mt\<rparr>,
       sh_writer := (if memtable_size_limit (eng_config (sh_engine s)) \<le> new_size then Flushing else Idle)\<rparr>)"

definition writer_flush :: "'h libs \<Rightarrow> shared \<Rightarrow> shared" where
  "writer_flush L s =
     (if memtable_is_empty (eng_memtable (sh_engine s)) then s\<lparr>sh_writer := Idle\<rparr>
      else (case on_storage (storage_flush L (eng_memtable (sh_engine s))) (sh_engine s, sh_world s) of
        (Ok _, e, w) \<Rightarrow> s\<lparr>sh_engine := e, sh_world := w, sh_writer := Clearing\<rparr>
      | (Err _, e, w) \<Rightarrow> s\<lparr>sh_engine := e, sh_world := w, sh_writer := Idle\<rparr>
      | (Panic, e, w) \<Rightarrow> s\<lparr>sh_engine := e\<lparr>write_lock_poisoned := True\<rparr>, sh_world := w, sh_writer := Idle\<rparr>))"

definition writer_clear :: "shared \<Rightarrow> shared" where
  "writer_clear s = s\<lparr>sh_engine := (sh_engine s)\<lparr>eng_memtable := memtable_clear (eng_memtable (sh_engine s))\<rparr>,
     sh_writer := Truncating\<rparr>"

definition writer_truncate :: "shared \<Rightarrow> shared" where
  "writer_truncate s = (case with_wal wal_truncate (sh_engine s, sh_world s) of
     (Panic, e, w) \<Rightarrow> s\<lparr>sh_engine := e\<lparr>write_lock_poisoned := True\<rparr>, sh_world := w, sh_writer := Idle\<rparr>
   | (_, e, w) \<Rightarrow> s\<lparr>sh_engine := e, sh_world := w, sh_writer := Idle\<rparr>)"

definition set_reader :: "nat \<Rightarrow> reader_pc \<Rightarrow> shared \<Rightarrow> shared" where
  "set_reader i pc s = s\<lparr>sh_readers := (sh_readers s)[i := pc]\<rparr>"

definition reader_tables :: "bytes \<Rightarrow> nat \<Rightarrow> shared \<Rightarrow> bytes option result \<times> shared" where
  "reader_tables key i s = (case on_storage (storage_get key) (sh_engine s, sh_world s) of
     (r, e, w) \<Rightarrow> (r, set_reader i Returned (s\<lparr>sh_engine := e, sh_world := w\<rparr>)))"

inductive shared_step :: "'h libs \<Rightarrow> shared \<Rightarrow> event \<Rightarrow> shared \<Rightarrow> bool" for L where
  append: "sh_writer s = Idle \<Longrightarrow> \<not> write_lock_poisoned (sh_engine s) \<Longrightarrow> shared_step L s Silent (writer_append L op s)"
| commit: "sh_writer s = Logged op \<Longrightarrow> shared_step L s (Commit op) (writer_commit op s)"
| flush: "sh_writer s = Idle \<Longrightarrow> \<not> write_lock_poisoned (sh_engine s) \<Longrightarrow>
    shared_step L s Silent (s\<lparr>sh_writer := Flushing\<rparr>)"
| flush_table: "sh_writer s = Flushing \<Longrightarrow> shared_step L s Silent (writer_flush L s)"
| clear: "sh_writer s = Clearing \<Longrightarrow> shared_step L s Silent (writer_clear s)"
| truncate: "sh_writer s = Truncating \<Longrightarrow> shared_step L s Silent (writer_truncate s)"
| invoke: "shared_step L s (Invoke (length (sh_readers s)) key) (s\<lparr>sh_readers := sh_readers s @ [Invoked key]\<rparr>)"
| hit: "i < length (sh_readers s) \<Longrightarrow> sh_readers s ! i = Invoked key \<Longrightarrow> memtable_get (eng_memtable (sh_engine s)) key = Some en \<Longrightarrow>
    shared_step L s (Return i (Ok (entry_value en))) (set_reader i Returned s)"
| miss: "i < length (sh_readers s) \<Longrightarrow> sh_readers s ! i = Invoked key \<Longrightarrow> memtable_get (eng_memtable (sh_engine s)) key = None \<Longrightarrow>
    shared_step L s Silent (set_reader i (Missed key) s)"
| tables: "i < length (sh_readers s) \<Longrightarrow> sh_readers s ! i = Missed key \<Longrightarrow> reader_tables key i s = (r, s') \<Longrightarrow>
    shared_step L s (Return i r) s'"
| outside: "shared_step L s Silent (s\<lparr>sh_world := (sh_world s)\<lparr>faults := f, now := t\<rparr>\<rparr>)"

subsection \<open>Histories\<close>

fun contents_after :: "(bytes \<rightharpoonup> bytes) \<Rightarrow> event list \<Rightarrow> bytes \<rightharpoonup> bytes" where
  "contents_after m [] = m"
| "contents_after m (Commit op # tr) = contents_after (apply_view op m) tr"
| "contents_after m (_ # tr) = contents_after m tr"

definition flush_room :: "shared \<Rightarrow> bool" where
  "flush_room s \<longleftrightarrow> next_free (eng_storage (sh_engine s)) \<and> entries_fit (memtable_iter (eng_memtable (sh_engine s)))"

inductive history :: "'h libs \<Rightarrow> engine \<Rightarrow> world \<Rightarrow> event list \<Rightarrow> shared \<Rightarrow> bool" for L e w where
  begin_history: "history L e w [] \<lparr>sh_engine = e, sh_world = w, sh_writer = Idle, sh_readers = []\<rparr>"
| continue: "history L e w tr s \<Longrightarrow> flush_room s \<Longrightarrow> shared_step L s ev s' \<Longrightarrow> history L e w (tr @ [ev]) s'"

lemma contents_after_append [simp]: "contents_after m (tr @ tr') = contents_after (contents_after m tr) tr'"
  by (induction m tr rule: contents_after.induct) simp_all

subsection \<open>The invariant\<close>

text \<open>The value of a key at some moment after position \<open>u\<close> of the history.\<close>

definition seen_since :: "(bytes \<rightharpoonup> bytes) \<Rightarrow> event list \<Rightarrow> nat \<Rightarrow> bytes \<Rightarrow> bytes option \<Rightarrow> bool" where
  "seen_since m tr u key x \<longleftrightarrow> (\<exists>t. u < t \<and> t \<le> length tr \<and> x = contents_after m (take t tr) key)"

lemma seen_since_now: "u < length tr \<Longrightarrow> seen_since m tr u key (contents_after m tr key)"
  by (auto simp: seen_since_def)

lemma seen_since_later: "seen_since m tr u key x \<Longrightarrow> seen_since m (tr @ tr') u key x"
  unfolding seen_since_def by (metis le_add1 le_trans length_append take_append diff_is_0_eq take0 append_Nil2)

fun reader_ok :: "(bytes \<rightharpoonup> bytes) \<Rightarrow> (bytes \<rightharpoonup> memtable_entry) \<Rightarrow> event list \<Rightarrow> nat \<Rightarrow> reader_pc \<Rightarrow> bool" where
  "reader_ok m tables tr i (Invoked key) \<longleftrightarrow> (\<exists>u < length tr. tr ! u = Invoke i key)"
| "reader_ok m tables tr i (Missed key) \<longleftrightarrow> (\<exists>u < length tr. tr ! u = Invoke i key \<and> seen_since m tr u key (live (tables key)))"
| "reader_ok m tables tr i Returned \<longleftrightarrow> True"

definition shared_ok :: "(bytes \<rightharpoonup> bytes) \<Rightarrow> event list \<Rightarrow> (u64 \<times> entries) list \<Rightarrow> shared \<Rightarrow> bool" where
  "shared_ok m tr ls s \<longleftrightarrow> engine_ok ls (sh_engine s) (sh_world s) \<and> view ls (sh_engine s) = contents_after m tr \<and>
     (sh_writer s = Clearing \<longrightarrow> ls \<noteq> [] \<and> map_of (snd (hd ls)) = memtable_get (eng_memtable (sh_engine s))) \<and>
     (\<forall>i < length (sh_readers s). reader_ok m (merged snd ls) tr i (sh_readers s ! i))"

lemma reader_ok_later:
  assumes "reader_ok m T tr i pc" and "\<And>key. T' key \<noteq> T key \<Longrightarrow> live (T' key) = contents_after m (tr @ [ev]) key"
  shows "reader_ok m T' (tr @ [ev]) i pc"
proof (cases pc)
  case (Invoked key)
  with assms(1) show ?thesis by (auto simp: nth_append)
next
  case (Missed key)
  with assms(1) obtain u where u: "u < length tr" "tr ! u = Invoke i key" "seen_since m tr u key (live (T key))" by auto
  have "seen_since m (tr @ [ev]) u key (live (T' key))"
  proof (cases "T' key = T key")
    case True
    with seen_since_later [OF u(3), of "[ev]"] show ?thesis by simp
  next
    case False
    with seen_since_now [of u "tr @ [ev]" m key] u(1) show ?thesis by (simp add: assms(2))
  qed
  with u Missed show ?thesis by (auto simp: nth_append)
qed simp

lemma shared_ok_same_tables:
  assumes ok: "shared_ok m tr ls s" and "engine_ok ls (sh_engine s') (sh_world s')"
    and "view ls (sh_engine s') = contents_after m (tr @ [ev])" and "sh_writer s' \<noteq> Clearing"
    and "sh_readers s' = sh_readers s"
  shows "shared_ok m (tr @ [ev]) ls s'"
  using assms by (auto simp: shared_ok_def intro: reader_ok_later)

lemma append_shared_ok:
  assumes ok: "shared_ok m tr ls s" and pc: "sh_writer s = Idle"
  shows "shared_ok m (tr @ [Silent]) ls (writer_append L op s)"
proof -
  obtain r e w where s1: "with_wal (wal_append L op) (sh_engine s, sh_world s) = (r, e, w)" by (metis prod_cases3)
  have "engine_ok ls (sh_engine s) (sh_world s)" using ok by (simp add: shared_ok_def)
  note k = with_wal_ok [OF this s1 wal_append_keeps]
  have k': "engine_ok ls (e\<lparr>write_lock_poisoned := True\<rparr>) w" "view ls (e\<lparr>write_lock_poisoned := True\<rparr>) = view ls e"
    using k(1) by (simp_all add: engine_ok_def view_def)
  have v: "view ls (sh_engine s) = contents_after m tr" using ok by (simp add: shared_ok_def)
  show ?thesis
    by (rule shared_ok_same_tables [OF ok]) (cases r; simp add: writer_append_def s1 k k' v pc)+
qed

lemma commit_shared_ok:
  assumes ok: "shared_ok m tr ls s"
  shows "shared_ok m (tr @ [Commit op]) ls (writer_commit op s)"
proof -
  obtain n mt where a: "memtable_apply op (eng_memtable (sh_engine s)) = (n, mt)" by fastforce
  have inv: "mem_inv (eng_memtable (sh_engine s))" using ok by (simp add: shared_ok_def engine_ok_def)
  have v: "view ls (sh_engine s) = contents_after m tr" using ok by (simp add: shared_ok_def)
  have "view ls ((sh_engine s)\<lparr>eng_memtable := mt\<rparr>) = apply_view op (contents_after m tr)"
    using view_apply [OF inv, of ls op] by (simp add: a v)
  moreover have "engine_ok ls ((sh_engine s)\<lparr>eng_memtable := mt\<rparr>) (sh_world s)"
    using ok memtable_apply_inv [OF inv, of op] by (simp add: shared_ok_def engine_ok_def a)
  ultimately show ?thesis by (intro shared_ok_same_tables [OF ok]) (simp_all add: writer_commit_def a)
qed

lemma flush_shared_ok:
  assumes ok: "shared_ok m tr ls s" and room: "flush_room s" and pc: "sh_writer s = Flushing"
  shows "\<exists>ls'. shared_ok m (tr @ [Silent]) ls' (writer_flush L s)"
proof -
  let ?e = "sh_engine s"
  have eng: "engine_ok ls ?e (sh_world s)" and v: "view ls ?e = contents_after m tr"
    using ok by (simp_all add: shared_ok_def)
  show ?thesis
  proof (cases "memtable_is_empty (eng_memtable ?e)")
    case True
    with ok eng v show ?thesis
      by (intro exI [of _ ls] shared_ok_same_tables [OF ok]) (simp_all add: writer_flush_def)
  next
    case False
    let ?ls = "(next_sstable_id (eng_storage ?e), memtable_iter (eng_memtable ?e)) # ls"
    obtain r e w where s1: "on_storage (storage_flush L (eng_memtable ?e)) (?e, sh_world s) = (r, e, w)" by (metis prod_cases3)
    have "next_free (eng_storage ?e)" "entries_fit (memtable_iter (eng_memtable ?e))" using room by (simp_all add: flush_room_def)
    note fl = flush_table_ok [OF eng this False s1]
    have mem: "eng_memtable e = eng_memtable ?e" using arg_cong [OF fl(2), of eng_memtable] by simp
    have mo: "map_of (memtable_iter (eng_memtable ?e)) = memtable_get (eng_memtable ?e)"
      using eng by (simp add: engine_ok_def memtable_iter_map)
    show ?thesis
    proof (cases r)
      case (Ok t)
      have "live (merged snd ?ls key) = contents_after m (tr @ [Silent]) key"
        if "merged snd ?ls key \<noteq> merged snd ls key" for key
        using that fun_cong [OF v, of key] by (auto simp: view_def mo map_add_def split: option.splits)
      with fl(3) [OF Ok] fl(6) v have "shared_ok m (tr @ [Silent]) ?ls (writer_flush L s)"
        using ok False s1 Ok mo mem unfolding shared_ok_def writer_flush_def by (auto intro!: reader_ok_later)
      then show ?thesis ..
    next
      case (Err x)
      with fl(4) [OF Err] fl(5) v False s1 show ?thesis
        by (intro exI [of _ ls] shared_ok_same_tables [OF ok]) (simp_all add: writer_flush_def)
    qed (use fl(1) in simp)
  qed
qed

lemma clear_shared_ok:
  assumes ok: "shared_ok m tr ls s" and pc: "sh_writer s = Clearing"
  shows "shared_ok m (tr @ [Silent]) ls (writer_clear s)"
proof -
  from ok pc have ls: "ls \<noteq> []" "map_of (snd (hd ls)) = memtable_get (eng_memtable (sh_engine s))"
    and v: "view ls (sh_engine s) = contents_after m tr" by (simp_all add: shared_ok_def)
  from ls(1) obtain l ls' where l: "ls = l # ls'" by (cases ls) auto
  have "view ls ((sh_engine s)\<lparr>eng_memtable := memtable_clear (eng_memtable (sh_engine s))\<rparr>) = contents_after m tr"
    unfolding v [symmetric] using ls(2) by (auto simp: view_def l memtable_get_clear fun_eq_iff map_add_def split: option.split)
  moreover have "engine_ok ls ((sh_engine s)\<lparr>eng_memtable := memtable_clear (eng_memtable (sh_engine s))\<rparr>) (sh_world s)"
    using ok by (simp add: shared_ok_def engine_ok_def mem_inv_clear)
  ultimately show ?thesis by (intro shared_ok_same_tables [OF ok]) (simp_all add: writer_clear_def)
qed

lemma truncate_shared_ok:
  assumes ok: "shared_ok m tr ls s"
  shows "shared_ok m (tr @ [Silent]) ls (writer_truncate s)"
proof -
  obtain r e w where s1: "with_wal wal_truncate (sh_engine s, sh_world s) = (r, e, w)" by (metis prod_cases3)
  have "engine_ok ls (sh_engine s) (sh_world s)" using ok by (simp add: shared_ok_def)
  note k = with_wal_ok [OF this s1 wal_truncate_keeps]
  have k': "engine_ok ls (e\<lparr>write_lock_poisoned := True\<rparr>) w" "view ls (e\<lparr>write_lock_poisoned := True\<rparr>) = view ls e"
    using k(1) by (simp_all add: engine_ok_def view_def)
  have v: "view ls (sh_engine s) = contents_after m tr" using ok by (simp add: shared_ok_def)
  show ?thesis
    by (rule shared_ok_same_tables [OF ok]) (cases r; simp add: writer_truncate_def s1 k k' v)+
qed

lemma reader_shared_ok:
  assumes ok: "shared_ok m tr ls s"
    and "engine_ok ls e w" and "eng_memtable e = eng_memtable (sh_engine s)"
    and "reader_ok m (merged snd ls) (tr @ [ev]) i pc" and "\<And>m. contents_after m [ev] = m"
  shows "shared_ok m (tr @ [ev]) ls (set_reader i pc (s\<lparr>sh_engine := e, sh_world := w\<rparr>))"
proof -
  have "view ls e = view ls (sh_engine s)" by (simp add: view_def assms(3))
  moreover have "reader_ok m (merged snd ls) (tr @ [ev]) j ((sh_readers s)[i := pc] ! j)" if "j < length (sh_readers s)" for j
    using that ok assms(4) by (cases "j = i") (auto simp: shared_ok_def intro: reader_ok_later)
  ultimately show ?thesis using assms by (simp add: shared_ok_def set_reader_def)
qed

lemma invoke_shared_ok:
  assumes ok: "shared_ok m tr ls s" and readers: "sh_readers s' = sh_readers s @ [Invoked key]"
    and ev: "ev = Invoke (length (sh_readers s)) key" and same: "sh_engine s' = sh_engine s" "sh_world s' = sh_world s" "sh_writer s' = sh_writer s"
  shows "shared_ok m (tr @ [ev]) ls s'"
proof -
  have "reader_ok m (merged snd ls) (tr @ [ev]) i (sh_readers s' ! i)" if "i < length (sh_readers s')" for i
    using that ok by (cases "i < length (sh_readers s)")
      (auto simp: shared_ok_def nth_append less_Suc_eq readers ev intro: reader_ok_later)
  then show ?thesis using ok by (simp add: shared_ok_def ev same)
qed

lemma miss_shared_ok:
  assumes ok: "shared_ok m tr ls s" and i: "i < length (sh_readers s)" "sh_readers s ! i = Invoked key"
    and none: "memtable_get (eng_memtable (sh_engine s)) key = None"
  shows "shared_ok m (tr @ [Silent]) ls (set_reader i (Missed key) s)"
proof -
  from i ok obtain u where u: "u < length tr" "tr ! u = Invoke i key"
    and v: "contents_after m tr = view ls (sh_engine s)" by (fastforce simp: shared_ok_def)
  have "live (merged snd ls key) = contents_after m (tr @ [Silent]) key"
    using none by (simp add: v view_def map_add_def)
  with seen_since_now [of u "tr @ [Silent]" m key] u
  have "reader_ok m (merged snd ls) (tr @ [Silent]) i (Missed key)" by (auto simp: nth_append)
  moreover have "engine_ok ls (sh_engine s) (sh_world s)" using ok by (simp add: shared_ok_def)
  ultimately show ?thesis using reader_shared_ok [OF ok, of "sh_engine s" "sh_world s"] by simp
qed

lemma outside_shared_ok:
  assumes ok: "shared_ok m tr ls s"
  shows "shared_ok m (tr @ [Silent]) ls (s\<lparr>sh_world := (sh_world s)\<lparr>faults := f, now := t\<rparr>\<rparr>)"
proof -
  let ?w = "(sh_world s)\<lparr>faults := f, now := t\<rparr>"
  have "engine_ok ls (sh_engine s) ?w"
    using ok storage_holds_fs [of ?w "sh_world s" ls] by (simp add: shared_ok_def engine_ok_def is_file_def lookup_def)
  then show ?thesis using ok by (auto simp: shared_ok_def intro: reader_ok_later)
qed

lemma step_shared_ok:
  assumes "shared_step L s ev s'" and "shared_ok m tr ls s" and "flush_room s"
  shows "\<exists>ls'. shared_ok m (tr @ [ev]) ls' s'"
  using assms
proof cases
  case (append op)
  with append_shared_ok assms(2) show ?thesis by blast
next
  case (commit op)
  with commit_shared_ok assms(2) show ?thesis by blast
next
  case flush
  with assms(2) show ?thesis by (intro exI [of _ ls] shared_ok_same_tables [OF assms(2)]) (simp_all add: shared_ok_def)
next
  case flush_table
  with flush_shared_ok assms(2,3) show ?thesis by blast
next
  case clear
  with clear_shared_ok assms(2) show ?thesis by blast
next
  case truncate
  with truncate_shared_ok assms(2) show ?thesis by blast
next
  case (invoke key)
  with invoke_shared_ok [OF assms(2)] show ?thesis by (intro exI [of _ ls]) simp
next
  case (hit i key en)
  have "shared_ok m (tr @ [ev]) ls (set_reader i Returned (s\<lparr>sh_engine := sh_engine s, sh_world := sh_world s\<rparr>))"
    by (rule reader_shared_ok [OF assms(2)]) (use assms(2) hit in \<open>simp_all add: shared_ok_def\<close>)
  with hit show ?thesis by auto
next
  case (miss i key)
  with miss_shared_ok [OF assms(2)] show ?thesis by blast
next
  case (tables i key r)
  obtain r' e w where g: "on_storage (storage_get key) (sh_engine s, sh_world s) = (r', e, w)" by (metis prod_cases3)
  have "engine_ok ls (sh_engine s) (sh_world s)" using assms(2) by (simp add: shared_ok_def)
  note k = on_storage_get [OF this g]
  have "shared_ok m (tr @ [ev]) ls (set_reader i Returned (s\<lparr>sh_engine := e, sh_world := w\<rparr>))"
    by (rule reader_shared_ok [OF assms(2) k(1,2)]) (use tables in simp_all)
  with tables g show ?thesis by (auto simp: reader_tables_def)
next
  case (outside t f)
  with outside_shared_ok [OF assms(2)] show ?thesis by blast
qed

lemma history_ok:
  assumes "history L e w tr s" and "engine_ok ls0 e w"
  shows "\<exists>ls. shared_ok (view ls0 e) tr ls s"
  using assms
proof (induction rule: history.induct)
  case begin_history
  then show ?case by (intro exI [of _ ls0]) (simp add: shared_ok_def)
next
  case (continue tr s ev s')
  then show ?case using step_shared_ok by blast
qed

text \<open>Every invocation has its own number.\<close>

definition invoked_once :: "event list \<Rightarrow> nat \<Rightarrow> bool" where
  "invoked_once tr n \<longleftrightarrow> (\<forall>u v i k k'. u < length tr \<longrightarrow> v < length tr \<longrightarrow> tr ! u = Invoke i k \<longrightarrow> tr ! v = Invoke i k' \<longrightarrow> u = v) \<and>
     (\<forall>u i k. u < length tr \<longrightarrow> tr ! u = Invoke i k \<longrightarrow> i < n)"

lemma invoked_once_snoc:
  assumes "invoked_once tr n"
  shows "(\<And>i k. ev \<noteq> Invoke i k) \<Longrightarrow> invoked_once (tr @ [ev]) n" and "invoked_once (tr @ [Invoke n key]) (Suc n)"
proof -
  from assms have once: "\<And>u v i k k'. u < length tr \<Longrightarrow> v < length tr \<Longrightarrow> tr ! u = Invoke i k \<Longrightarrow> tr ! v = Invoke i k' \<Longrightarrow> u = v"
    and below: "\<And>u i k. u < length tr \<Longrightarrow> tr ! u = Invoke i k \<Longrightarrow> i < n" unfolding invoked_once_def by blast+
  show "invoked_once (tr @ [ev]) n" if "\<And>i k. ev \<noteq> Invoke i k"
    unfolding invoked_once_def by (auto simp: nth_append less_Suc_eq that dest: once below)
  show "invoked_once (tr @ [Invoke n key]) (Suc n)"
    unfolding invoked_once_def by (auto simp: nth_append less_Suc_eq dest: once below)
qed

lemma writer_readers [simp]:
  "sh_readers (writer_append L op s) = sh_readers s" "sh_readers (writer_commit op s) = sh_readers s"
  "sh_readers (writer_flush L s) = sh_readers s" "sh_readers (writer_clear s) = sh_readers s"
  "sh_readers (writer_truncate s) = sh_readers s" "length (sh_readers (set_reader i pc s)) = length (sh_readers s)"
  by (simp_all add: writer_append_def writer_commit_def writer_flush_def writer_clear_def writer_truncate_def
      set_reader_def split: prod.split outcome.split)

lemma step_invoked_once:
  assumes "shared_step L s ev s'" and "invoked_once tr (length (sh_readers s))"
  shows "invoked_once (tr @ [ev]) (length (sh_readers s'))"
  using assms(1)
  by cases (use invoked_once_snoc [OF assms(2)] in \<open>auto simp: reader_tables_def split: prod.splits\<close>)

lemma history_invoked_once: "history L e w tr s \<Longrightarrow> invoked_once tr (length (sh_readers s))"
  by (induction rule: history.induct) (auto simp: step_invoked_once, simp add: invoked_once_def)

subsection \<open>The split operations are the operations of the engine\<close>

abbreviation shared_steps :: "'h libs \<Rightarrow> shared \<Rightarrow> event list \<Rightarrow> shared \<Rightarrow> bool" where
  "shared_steps L \<equiv> trace_run (shared_step L)"

lemmas no_shared_steps = no_steps [of "shared_step L" for L]
lemmas more_shared_steps = more_steps [of "shared_step L" for L]
lemmas one_shared_step = one_step [of "shared_step L" for L]

definition unlock :: "'a result \<Rightarrow> engine \<Rightarrow> engine" where
  "unlock r e = (if r = Panic then e\<lparr>write_lock_poisoned := True\<rparr> else e)"

lemma unlock_simps [simp]: "unlock (Ok x) e = e" "unlock (Err y) e = e" "unlock Panic e = e\<lparr>write_lock_poisoned := True\<rparr>"
  by (simp_all add: unlock_def)

lemma with_write_lock_unlock:
  "\<not> write_lock_poisoned e \<Longrightarrow> body (e, w) = (r, e', w') \<Longrightarrow> with_write_lock body (e, w) = (r, unlock r e', w')"
  by (cases r) (simp_all add: with_write_lock_def)

lemma flush_steps:
  assumes pc: "sh_writer s = Flushing" and run: "flush_internal L (sh_engine s, sh_world s) = (r, e, w)"
  shows "\<exists>n. shared_steps L s (replicate n Silent) (s\<lparr>sh_engine := unlock r e, sh_world := w, sh_writer := Idle\<rparr>)"
proof -
  let ?t = "s\<lparr>sh_engine := unlock r e, sh_world := w, sh_writer := Idle\<rparr>"
  have first: "shared_step L s Silent (writer_flush L s)" by (rule flush_table [OF pc])
  obtain r1 e1 w1 where s1: "on_storage (storage_flush L (eng_memtable (sh_engine s))) (sh_engine s, sh_world s) = (r1, e1, w1)"
    by (metis prod_cases3)
  show ?thesis
  proof (cases "\<not> memtable_is_empty (eng_memtable (sh_engine s)) \<and> (\<exists>x. r1 = Ok x)")
    case True
    let ?s1 = "s\<lparr>sh_engine := e1, sh_world := w1, sh_writer := Clearing\<rparr>"
    have t: "writer_flush L s = ?s1" using True s1 by (auto simp: writer_flush_def)
    have tr: "with_wal wal_truncate (e1\<lparr>eng_memtable := memtable_clear (eng_memtable e1)\<rparr>, w1) = (r, e, w)"
      using run True s1 by (auto simp: flush_internal_def)
    have "shared_step L ?s1 Silent (writer_clear ?s1)" by (rule clear) simp
    moreover have "shared_step L (writer_clear ?s1) Silent (writer_truncate (writer_clear ?s1))"
      by (rule truncate) (simp add: writer_clear_def)
    moreover have "writer_truncate (writer_clear ?s1) = ?t"
      using tr by (cases r) (simp_all add: writer_truncate_def writer_clear_def)
    ultimately have "shared_steps L s [Silent, Silent, Silent] ?t"
      using first unfolding t by (metis more_shared_steps no_shared_steps)
    moreover have "[Silent, Silent, Silent] = replicate 3 Silent" by (simp add: eval_nat_numeral)
    ultimately show ?thesis by metis
  next
    case False
    then have "writer_flush L s = ?t"
      using run s1 by (cases r1) (auto simp: writer_flush_def flush_internal_def)
    with one_shared_step [OF first] have "shared_steps L s (replicate 1 Silent) ?t" by simp
    then show ?thesis ..
  qed
qed

lemma write_steps:
  assumes pc: "sh_writer s = Idle" and lock: "\<not> write_lock_poisoned (sh_engine s)"
    and run: "engine_write L op (sh_engine s, sh_world s) = (r, e, w)"
  shows "\<exists>tr. shared_steps L s tr (s\<lparr>sh_engine := e, sh_world := w\<rparr>) \<and>
    ((\<exists>n. tr = Silent # Commit op # replicate n Silent) \<or> tr = [Silent] \<and> (\<forall>x. r \<noteq> Ok x))"
proof -
  obtain r1 e1 w1 where s1: "with_wal (wal_append L op) (sh_engine s, sh_world s) = (r1, e1, w1)" by (metis prod_cases3)
  have first: "shared_step L s Silent (writer_append L op s)" by (rule append [OF pc lock])
  show ?thesis
  proof (cases "\<exists>x. r1 = Ok x")
    case True
    let ?s1 = "s\<lparr>sh_engine := e1, sh_world := w1, sh_writer := Logged op\<rparr>"
    let ?s2 = "writer_commit op ?s1"
    obtain r2 e2 w2 where s2: "after_write L (memtable_apply op (eng_memtable e1)) (e1, w1) = (r2, e2, w2)" by (metis prod_cases3)
    have res: "r = r2" "e = unlock r2 e2" "w = w2"
      using run with_write_lock_unlock [OF lock, of _ "sh_world s" r2 e2 w2] True s1 s2 by (auto simp: engine_write_def)
    have "writer_append L op s = ?s1" using True s1 by (auto simp: writer_append_def)
    moreover have "shared_step L ?s1 (Commit op) ?s2" by (rule commit) simp
    moreover have "\<exists>n. shared_steps L ?s2 (replicate n Silent) (s\<lparr>sh_engine := e, sh_world := w\<rparr>)"
    proof (cases "memtable_size_limit (eng_config e1) \<le> fst (memtable_apply op (eng_memtable e1))")
      case True
      then have "flush_internal L (sh_engine ?s2, sh_world ?s2) = (r2, e2, w2)" "sh_writer ?s2 = Flushing"
        using s2 by (auto simp: writer_commit_def after_write_def Let_def case_prod_beta)
      moreover have "?s2\<lparr>sh_engine := unlock r2 e2, sh_world := w2, sh_writer := Idle\<rparr> = s\<lparr>sh_engine := e, sh_world := w\<rparr>"
        using res pc by (cases s) (simp add: writer_commit_def case_prod_beta)
      ultimately show ?thesis using flush_steps [of ?s2 L r2 e2 w2] by simp
    next
      case False
      then have "r2 = Ok ()" and e2: "e2 = e1\<lparr>eng_memtable := snd (memtable_apply op (eng_memtable e1))\<rparr>" "w2 = w1"
        using s2 by (auto simp: after_write_def Let_def case_prod_beta)
      then have "?s2 = s\<lparr>sh_engine := e, sh_world := w\<rparr>"
        using res False pc by (cases s) (simp add: writer_commit_def case_prod_beta)
      then have "shared_steps L ?s2 (replicate 0 Silent) (s\<lparr>sh_engine := e, sh_world := w\<rparr>)"
        by (simp add: no_shared_steps)
      then show ?thesis ..
    qed
    ultimately show ?thesis using first by (metis more_shared_steps)
  next
    case False
    have "\<exists>x. with_write_lock (\<lambda>s. andThen (with_wal (wal_append L op) s) (\<lambda>_ (e, w).
        after_write L (memtable_apply op (eng_memtable e)) (e, w))) (sh_engine s, sh_world s) =
      (x :: unit result, unlock x e1, w1) \<and> (x = Panic) = (r1 = Panic) \<and> (\<forall>y. x \<noteq> Ok y)"
      using False s1 lock by (cases r1) (auto simp: with_write_lock_def)
    then have res: "e = unlock r e1" "w = w1" "(r = Panic) = (r1 = Panic)" "\<forall>x. r \<noteq> Ok x"
      using run by (auto simp: engine_write_def)
    then have "writer_append L op s = s\<lparr>sh_engine := e, sh_world := w\<rparr>"
      using s1 False pc by (cases r1) (auto simp: writer_append_def unlock_def)
    with one_shared_step [OF first] res(4) show ?thesis by auto
  qed
qed

lemma get_steps:
  assumes run: "engine_get key (sh_engine s, sh_world s) = (r, e, w)"
  shows "\<exists>tr. shared_steps L s (Invoke (length (sh_readers s)) key # tr @ [Return (length (sh_readers s)) r])
      (s\<lparr>sh_engine := e, sh_world := w, sh_readers := sh_readers s @ [Returned]\<rparr>) \<and> set tr \<subseteq> {Silent}"
proof -
  let ?n = "length (sh_readers s)" and ?t = "s\<lparr>sh_engine := e, sh_world := w, sh_readers := sh_readers s @ [Returned]\<rparr>"
  let ?s1 = "s\<lparr>sh_readers := sh_readers s @ [Invoked key]\<rparr>"
  have first: "shared_step L s (Invoke ?n key) ?s1" by (rule invoke)
  show ?thesis
  proof (cases "memtable_get (eng_memtable (sh_engine s)) key")
    case None
    let ?s2 = "set_reader ?n (Missed key) ?s1"
    have "shared_step L ?s1 Silent ?s2" by (rule miss [where key = key]) (simp_all add: None)
    moreover have "on_storage (storage_get key) (sh_engine s, sh_world s) = (r, e, w)"
      using run None by (simp add: engine_get_def)
    then have "shared_step L ?s2 (Return ?n r) ?t"
      by (intro tables [of ?n _ key]) (simp_all add: reader_tables_def set_reader_def)
    ultimately have "shared_steps L s (Invoke ?n key # [Silent] @ [Return ?n r]) ?t"
      using first by (simp add: more_shared_steps no_shared_steps)
    then show ?thesis by (intro exI [of _ "[Silent]"]) simp
  next
    case (Some en)
    have "shared_step L ?s1 (Return ?n (Ok (entry_value en))) (set_reader ?n Returned ?s1)"
      by (rule hit [where key = key]) (simp_all add: Some)
    moreover have "r = Ok (entry_value en)" "set_reader ?n Returned ?s1 = ?t"
      using run Some by (cases en; simp add: engine_get_def set_reader_def)+
    ultimately have "shared_steps L s (Invoke ?n key # [] @ [Return ?n r]) ?t"
      using first by (simp add: more_shared_steps no_shared_steps)
    then show ?thesis by (intro exI [of _ "[]"]) simp
  qed
qed

subsection \<open>Properties\<close>

lemma demo_history:
  obtains s where "history ref_libs demo_engine demo_opened [Invoke 0 [1], Silent] s"
    and "s = \<lparr>sh_engine = demo_engine, sh_world = demo_opened, sh_writer = Idle, sh_readers = [Missed [1]]\<rparr>"
proof -
  let ?s = "\<lambda>rs. \<lparr>sh_engine = demo_engine, sh_world = demo_opened, sh_writer = Idle, sh_readers = rs\<rparr>"
  have room: "flush_room (?s rs)" for rs
    using demo_room log_fits_Nil by (simp add: flush_room_def has_room_def demo_engine_def log_fits_def)
  have none: "memtable_get (eng_memtable demo_engine) [1] = None" by (simp add: demo_engine_def mt.get_empty)
  have "history ref_libs demo_engine demo_opened [] (?s [])" by (rule begin_history)
  from continue [OF this room invoke [of _ _ "[1]"]]
  have "history ref_libs demo_engine demo_opened [Invoke 0 [1]] (?s [Invoked [1]])" by simp
  from continue [OF this room miss [of 0 _ "[1]"]] none
  have "history ref_libs demo_engine demo_opened [Invoke 0 [1], Silent] (?s [Missed [1]])" by (simp add: set_reader_def)
  then show ?thesis using that by simp
qed

text \<open>C6: Lookups run beside the writers without their lock, and are still linearizable. Along every
  interleaving of one writer at a time with any number of lookups the store is the map made by
  the writes in the order in which they reached the memtable, and a lookup returns the value its
  key had in that map at some moment between its invocation and its return (or the input/output
  error the operating system reported), also when a flush moves the entries to a table and
  clears the memtable in between.\<close>

theorem lookups_linearizable:
  assumes "history L e w tr s" and "engine_ok ls e w"
  shows "(\<exists>ls'. engine_ok ls' (sh_engine s) (sh_world s) \<and> view ls' (sh_engine s) = contents_after (view ls e) tr) \<and>
    (\<forall>i r s' u key. shared_step L s (Return i r) s' \<longrightarrow> u < length tr \<longrightarrow> tr ! u = Invoke i key \<longrightarrow>
      (\<exists>t. u < t \<and> t \<le> length tr \<and> r = Ok (contents_after (view ls e) (take t tr) key)) \<or>
      faults (sh_world s) \<noteq> [] \<and> (\<exists>x. r = Err (Io x)))"
proof -
  from history_ok [OF assms] obtain ls' where ok: "shared_ok (view ls e) tr ls' s" ..
  then have eng: "engine_ok ls' (sh_engine s) (sh_world s)"
    and v: "view ls' (sh_engine s) = contents_after (view ls e) tr" by (simp_all add: shared_ok_def)
  have answer: "(\<exists>x. r = Ok x \<and> seen_since (view ls e) tr u key x) \<or> faults (sh_world s) \<noteq> [] \<and> (\<exists>x. r = Err (Io x))"
    if step: "shared_step L s (Return i r) s'" and u: "u < length tr" "tr ! u = Invoke i key" for i r s' u key
  proof -
    have once: "u' = u \<and> k = key" if "u' < length tr" "tr ! u' = Invoke i k" for u' k
      using history_invoked_once [OF assms(1)] that u unfolding invoked_once_def by (metis event.inject(2))
    have reader: "reader_ok (view ls e) (merged snd ls') tr i (sh_readers s ! i)" if "i < length (sh_readers s)"
      using ok that by (simp add: shared_ok_def)
    from step show ?thesis
    proof cases
      case (hit k en)
      then have "k = key" using reader once by auto
      with hit fun_cong [OF v, of key] seen_since_now [OF u(1), of "view ls e" key] show ?thesis
        by (simp add: view_def live_def)
    next
      case (tables k)
      then obtain u' where "u' < length tr" "tr ! u' = Invoke i k" "seen_since (view ls e) tr u' k (live (merged snd ls' k))"
        using reader by auto
      then have "k = key" and seen: "seen_since (view ls e) tr u key (live (merged snd ls' key))" using once by blast+
      obtain e1 w1 where "on_storage (storage_get key) (sh_engine s, sh_world s) = (r, e1, w1)"
        using tables \<open>k = key\<close> by (auto simp: reader_tables_def split: prod.splits)
      from on_storage_get(5) [OF eng this] seen show ?thesis by auto
    qed
  qed
  from eng v answer show ?thesis unfolding seen_since_def by blast
qed

theorem lookups_linearizable_witness:
  "\<exists>s s' x. history ref_libs demo_engine demo_opened [Invoke 0 [1], Silent] s \<and> shared_step ref_libs s (Return 0 (Ok x)) s'"
proof -
  obtain s where h: "history ref_libs demo_engine demo_opened [Invoke 0 [1], Silent] s"
    and s: "s = \<lparr>sh_engine = demo_engine, sh_world = demo_opened, sh_writer = Idle, sh_readers = [Missed [1]]\<rparr>"
    by (rule demo_history)
  obtain ls where ok: "engine_ok ls demo_engine demo_opened"
    using session_invariant [OF demo_session ref_libs_ok(1) demo_every_write] durable_state_ok
    unfolding session_state_def by blast
  obtain r s' where "reader_tables [1] 0 s = (r, s')" by fastforce
  then have st: "shared_step ref_libs s (Return 0 r) s'" by (intro tables [of 0 s "[1]"]) (simp_all add: s)
  with lookups_linearizable [OF h ok] have "\<exists>x. r = Ok x"
    by (fastforce simp: s demo_opened_def)
  with h st show ?thesis by blast
qed

text \<open>C26: The split operations are the operations of the engine: a put, a delete and a lookup that run without
  interruption take the steps of the split writer and reader one after the other and end in the
  state the engine's own function computes; a successful write commits exactly once.\<close>

theorem split_operations_compose:
  assumes "sh_writer s = Idle" and "\<not> write_lock_poisoned (sh_engine s)"
  shows "(\<forall>key val r e w. engine_put L key val (sh_engine s, sh_world s) = (r, e, w) \<longrightarrow>
      (\<exists>tr. shared_steps L s tr (s\<lparr>sh_engine := e, sh_world := w\<rparr>) \<and>
        ((\<exists>n. tr = Silent # Commit (OpPut key val) # replicate n Silent) \<or> tr = [Silent] \<and> (\<forall>x. r \<noteq> Ok x)))) \<and>
    (\<forall>key r e w. engine_delete L key (sh_engine s, sh_world s) = (r, e, w) \<longrightarrow>
      (\<exists>tr. shared_steps L s tr (s\<lparr>sh_engine := e, sh_world := w\<rparr>) \<and>
        ((\<exists>n. tr = Silent # Commit (OpDelete key) # replicate n Silent) \<or> tr = [Silent] \<and> (\<forall>x. r \<noteq> Ok x)))) \<and>
    (\<forall>key r e w. engine_get key (sh_engine s, sh_world s) = (r, e, w) \<longrightarrow>
      (\<exists>tr. shared_steps L s (Invoke (length (sh_readers s)) key # tr @ [Return (length (sh_readers s)) r])
        (s\<lparr>sh_engine := e, sh_world := w, sh_readers := sh_readers s @ [Returned]\<rparr>) \<and> set tr \<subseteq> {Silent}))"
  unfolding engine_write_eq by (intro conjI allI impI write_steps [OF assms] get_steps)

theorem split_operations_compose_witness:
  "\<exists>tr e w. shared_steps ref_libs \<lparr>sh_engine = demo_engine, sh_world = demo_opened, sh_writer = Idle, sh_readers = []\<rparr> tr
     \<lparr>sh_engine = e, sh_world = w, sh_writer = Idle, sh_readers = []\<rparr> \<and> Commit (OpPut [1] [2]) \<in> set tr"
proof -
  obtain e w where "execute ref_libs (Put [1] [2]) (demo_engine, demo_opened) = (Ok None, e, w)" by (rule demo_put)
  then have "engine_put ref_libs [1] [2] (demo_engine, demo_opened) = (Ok (), e, w)" by (auto elim!: andThen.elims)
  with split_operations_compose [of "\<lparr>sh_engine = demo_engine, sh_world = demo_opened, sh_writer = Idle, sh_readers = []\<rparr>" ref_libs]
  have "\<exists>tr. shared_steps ref_libs \<lparr>sh_engine = demo_engine, sh_world = demo_opened, sh_writer = Idle, sh_readers = []\<rparr> tr
     \<lparr>sh_engine = e, sh_world = w, sh_writer = Idle, sh_readers = []\<rparr> \<and>
       Commit (OpPut [1] [2]) \<in> set tr"
    by (simp add: demo_engine_def) fastforce
  then show ?thesis by blast
qed

end
