(* ===== verification/Connection.thy ===== *)
theory Connection
  imports Sessions
begin

section \<open>Connections (src/src/network/connection.rs)\<close>

text \<open>
  One client connection: set-up of the socket, the loop that reads a command, executes it on the
  shared engine and sends the response, and how it ends. The engine is shared by all
  connections, so it is part of the state each iteration is given; \<open>handle_once\<close> is one iteration
  of the loop of \<open>handle\<close> and the unit of interleaving between the workers of the server.

  A \<open>tcp_stream\<close> has the two directions of the socket, the address of the peer, its options, and
  the answers of the operating system to the calls that set them.
\<close>

record tcp_stream =
  tcp_in :: in_stream
  tcp_out :: out_stream
  tcp_peer :: "string option"
  tcp_nodelay :: bool
  tcp_read_timeout :: "u64 option"
  tcp_write_timeout :: "u64 option"
  tcp_faults :: "io_error option list"

record connection =
  conn_reader :: in_stream
  conn_writer :: out_stream
  conn_stream :: tcp_stream
  peer_addr :: string

fun socket_call :: "(tcp_stream \<Rightarrow> tcp_stream) \<Rightarrow> (tcp_stream, unit) io" where
  "socket_call f s = (case tcp_faults s of
     [] \<Rightarrow> (Ok (), f s)
   | None # rest \<Rightarrow> (Ok (), f (s\<lparr>tcp_faults := rest\<rparr>))
   | Some e # rest \<Rightarrow> (Err e, s\<lparr>tcp_faults := rest\<rparr>))"

definition connection_new :: "tcp_stream \<Rightarrow> connection result" where
  "connection_new sock =
     (let peer = (case tcp_peer sock of Some a \<Rightarrow> a | None \<Rightarrow> ''unknown'') in
      fst (andThen (from_io (socket_call (\<lambda>s. s\<lparr>tcp_nodelay := True\<rparr>) sock)) (\<lambda>_ sock.
        andThen (from_io (socket_call (\<lambda>s. s) sock)) (\<lambda>_ sock.
          (Ok \<lparr>conn_reader = tcp_in sock, conn_writer = tcp_out sock, conn_stream = sock, peer_addr = peer\<rparr>,
           sock)))))"

definition on_stream :: "(tcp_stream, unit) io \<Rightarrow> connection \<Rightarrow> unit result \<times> connection" where
  "on_stream m c = (case from_io (m (conn_stream c)) of (r, s) \<Rightarrow> (r, c\<lparr>conn_stream := s\<rparr>))"

definition set_timeouts :: "u64 \<Rightarrow> u64 \<Rightarrow> connection \<Rightarrow> unit result \<times> connection" where
  "set_timeouts read_ms write_ms c =
     andThen (if read_ms > 0 then on_stream (socket_call (\<lambda>s. s\<lparr>tcp_read_timeout := Some read_ms\<rparr>)) c else (Ok (), c))
     (\<lambda>_ c. andThen (if write_ms > 0 then on_stream (socket_call (\<lambda>s. s\<lparr>tcp_write_timeout := Some write_ms\<rparr>)) c
        else (Ok (), c))
     (\<lambda>_ c. (Ok (), c)))"

text \<open>\<open>execute_command\<close> turns every error into a response; only a panic of the engine is left.\<close>

definition execute_command :: "'h libs \<Rightarrow> command \<Rightarrow> engine \<times> world \<Rightarrow> response result \<times> engine \<times> world" where
  "execute_command L c s = (case execute L c s of
     (Ok (Some v), s) \<Rightarrow> (Ok (response_ok (Some v)), s)
   | (Ok None, s) \<Rightarrow> (Ok (response_ok None), s)
   | (Err e, s) \<Rightarrow> (Ok (if e = KeyNotFound then response_not_found else response_error (display e)), s)
   | (Panic, s) \<Rightarrow> (Panic, s))"

definition send_response :: "response \<Rightarrow> connection \<Rightarrow> unit result \<times> connection" where
  "send_response r c = (case write_response r (conn_writer c) of (x, s) \<Rightarrow> (x, c\<lparr>conn_writer := s\<rparr>))"

definition connection_peer_addr :: "connection \<Rightarrow> string" where
  "connection_peer_addr c = peer_addr c"

definition disconnect_kinds :: "error_kind list" where
  "disconnect_kinds = [UnexpectedEof, ConnectionReset, ConnectionAborted, WouldBlock, TimedOut]"

definition broken_kinds :: "error_kind list" where
  "broken_kinds = [ConnectionAborted, ConnectionReset, BrokenPipe]"

fun io_kind_in :: "error_kind list \<Rightarrow> atlas_error \<Rightarrow> bool" where
  "io_kind_in ks (Io e) = (io_kind e \<in> set ks)"
| "io_kind_in ks _ = False"

text \<open>One iteration: \<open>Some r\<close> when \<open>handle\<close> returns \<open>r\<close>, \<open>None\<close> when it goes on.\<close>

definition handle_once :: "'h libs \<Rightarrow> connection \<times> engine \<times> world \<Rightarrow>
    unit result option \<times> connection \<times> engine \<times> world" where
  "handle_once L = (\<lambda>(c, e, w). case read_command (conn_reader c) of
     (Ok command, rd) \<Rightarrow>
       (let c = c\<lparr>conn_reader := rd\<rparr> in
        case execute_command L command (e, w) of
          (Ok response, e, w) \<Rightarrow>
            (case send_response response c of
               (Ok _, c) \<Rightarrow> (None, c, e, w)
             | (Err x, c) \<Rightarrow> (Some (if io_kind_in broken_kinds x then Ok () else Err x), c, e, w)
             | (Panic, c) \<Rightarrow> (Some Panic, c, e, w))
        | (Err x, e, w) \<Rightarrow> (Some (Err x), c, e, w)
        | (Panic, e, w) \<Rightarrow> (Some Panic, c, e, w))
   | (Err x, rd) \<Rightarrow>
       (let c = c\<lparr>conn_reader := rd\<rparr> in
        if io_kind_in disconnect_kinds x then (Some (Ok ()), c, e, w)
        else (Some (Err x), snd (send_response (response_error (display x)) c), e, w))
   | (Panic, rd) \<Rightarrow> (Some Panic, c\<lparr>conn_reader := rd\<rparr>, e, w))"

lemma stream_read_exact_less:
  "stream_read_exact n s = (Ok d, s') \<Longrightarrow> length (inbox s') + n = length (inbox s)"
  by (auto simp: stream_read_exact_def split: if_splits)

lemma read_command_consumes:
  assumes "read_command s = (Ok c, s')"
  shows "length (inbox s') < length (inbox s)"
proof -
  obtain h s1 where h: "stream_read_exact PROTO_HEADER_SIZE s = (Ok h, s1)"
    and rest: "(if be_field 1 h > MAX_PAYLOAD_SIZE then (Err (Protocol (''Payload too large: '' @ show_dec (be_field 1 h) @ '' bytes (max '' @
          show_dec MAX_PAYLOAD_SIZE @ '')'')), s1)
      else andThen (if be_field 1 h > 0 then from_io (stream_read_exact (be_field 1 h) s1) else (Ok [], s1))
       (\<lambda>payload s. (decode_command (h @ payload), s))) = (Ok c, s')"
    using assms unfolding read_command_def Let_def
    by (cases "stream_read_exact PROTO_HEADER_SIZE s"; cases "fst (stream_read_exact PROTO_HEADER_SIZE s)") auto
  have "length (inbox s1) < length (inbox s)"
    using stream_read_exact_less [OF h] by (simp add: PROTO_HEADER_SIZE_def)
  moreover have "length (inbox s') \<le> length (inbox s1)"
  proof (cases "be_field 1 h > 0")
    case True
    obtain r s2 where r: "stream_read_exact (be_field 1 h) s1 = (r, s2)" by fastforce
    with rest True show ?thesis using stream_read_exact_less
      by (cases r) (auto split: if_splits, fastforce)
  next
    case False
    with rest show ?thesis by (auto split: if_splits)
  qed
  ultimately show ?thesis by simp
qed

lemma send_response_reader: "conn_reader (snd (send_response r c)) = conn_reader c"
  by (simp add: send_response_def split: prod.split)

lemma handle_once_consumes:
  assumes "handle_once L (c, e, w) = (None, c', e', w')"
  shows "length (inbox (conn_reader c')) < length (inbox (conn_reader c))"
proof -
  obtain cmd rd where rd: "read_command (conn_reader c) = (Ok cmd, rd)"
    using assms by (cases "read_command (conn_reader c)"; cases "fst (read_command (conn_reader c))")
      (auto simp: handle_once_def Let_def split: if_splits)
  obtain rsp where "conn_reader c' = conn_reader (snd (send_response rsp (c\<lparr>conn_reader := rd\<rparr>)))"
    using assms rd by (auto simp: handle_once_def Let_def split: prod.splits outcome.splits) (metis snd_conv)
  with read_command_consumes [OF rd] show ?thesis by (simp add: send_response_reader)
qed

function handle :: "'h libs \<Rightarrow> connection \<times> engine \<times> world \<Rightarrow> unit result \<times> connection \<times> engine \<times> world" where
  "handle L s = (case handle_once L s of
     (Some r, s') \<Rightarrow> (r, s')
   | (None, s') \<Rightarrow> handle L s')"
  by pat_completeness auto
termination
  by (relation "measure (\<lambda>(L, c, e, w). length (inbox (conn_reader c)))") (auto dest: handle_once_consumes [OF sym])

declare handle.simps [simp del]

subsection \<open>What a client is sent\<close>

primrec serve :: "(command \<Rightarrow> 's \<Rightarrow> response result \<times> 's) \<Rightarrow> command list \<Rightarrow> 's \<Rightarrow> response result list \<times> 's" where
  "serve exec [] s = ([], s)"
| "serve exec (c # cs) s = (case exec c s of (r, s') \<Rightarrow> (case serve exec cs s' of (rs, t) \<Rightarrow> (r # rs, t)))"

definition delivered :: "bytes \<Rightarrow> bytes \<Rightarrow> connection \<Rightarrow> connection" where
  "delivered rest d c = c\<lparr>conn_reader := (conn_reader c)\<lparr>inbox := rest\<rparr>,
     conn_writer := (conn_writer c)\<lparr>outbox := outbox (conn_writer c) @ d\<rparr>\<rparr>"

lemma delivered_delivered: "delivered r2 d2 (delivered r1 d1 c) = delivered r2 (d1 @ d2) c"
  by (simp add: delivered_def)

lemma delivered_fields [simp]:
  "inbox (conn_reader (delivered rest d c)) = rest" "hangup (conn_reader (delivered rest d c)) = hangup (conn_reader c)"
  "outbox (conn_writer (delivered rest d c)) = outbox (conn_writer c) @ d"
  "out_faults (conn_writer (delivered rest d c)) = out_faults (conn_writer c)"
  by (simp_all add: delivered_def)

lemma send_response_no_faults:
  "out_faults (conn_writer c) = [] \<Longrightarrow>
   send_response r c = (Ok (), c\<lparr>conn_writer := (conn_writer c)\<lparr>outbox := outbox (conn_writer c) @ encode_response r\<rparr>\<rparr>)"
  by (simp add: send_response_def write_response_def stream_write_all_def stream_flush_def)

lemma handle_once_command:
  assumes "command_fits cmd" and "inbox (conn_reader c) = encode_command cmd @ rest" and "out_faults (conn_writer c) = []"
    and "execute_command L cmd (e, w) = (Ok rsp, e', w')"
  shows "handle_once L (c, e, w) = (None, delivered rest (encode_response rsp) c, e', w')"
  using cmds.read_encode [OF assms(1,2)] assms(3,4)
  by (simp add: handle_once_def send_response_no_faults delivered_def)

text \<open>
  Complete commands at the front of the stream are executed in their order, each before the next
  is read, and their responses are sent in that order.
\<close>

lemma handle_prefix:
  assumes "\<forall>cmd \<in> set cs. command_fits cmd" and "inbox (conn_reader c) = concat (map encode_command cs) @ rest"
    and "out_faults (conn_writer c) = []" and "serve (execute_command L) cs (e, w) = (map Ok rs, e', w')"
  shows "handle L (c, e, w) = handle L (delivered rest (concat (map encode_response rs)) c, e', w')"
  using assms
proof (induction cs arbitrary: c e w rs)
  case Nil
  then have "delivered rest (concat (map encode_response rs)) c = c" by (simp add: delivered_def)
  with Nil show ?case by simp
next
  case (Cons cmd cs)
  obtain r1 e1 w1 rs1 where x: "execute_command L cmd (e, w) = (r1, e1, w1)" and
    s: "serve (execute_command L) cs (e1, w1) = (rs1, e', w')" "map Ok rs = r1 # rs1"
    using Cons.prems(4) by (auto split: prod.splits)
  obtain rsp rs2 where rs: "rs = rsp # rs2" "r1 = Ok rsp" "rs1 = map Ok rs2" using s(2) by auto
  let ?c = "delivered (concat (map encode_command cs) @ rest) (encode_response rsp) c"
  have "handle_once L (c, e, w) = (None, ?c, e1, w1)"
    by (rule handle_once_command) (use Cons.prems x rs in simp_all)
  then have "handle L (c, e, w) = handle L (?c, e1, w1)" by (subst handle.simps) simp
  also have "\<dots> = handle L (delivered rest (concat (map encode_response rs2)) ?c, e', w')"
    by (rule Cons.IH) (use Cons.prems s rs in simp_all)
  finally show ?case by (simp add: delivered_delivered rs)
qed

subsection \<open>What a connection needs of a store\<close>

text \<open>
  The interface between the connection and the engine: a store that, while \<open>ready\<close> for a command,
  answers it as the map it holds does, and then holds the updated map.
\<close>

primrec spec_serve :: "command list \<Rightarrow> (bytes \<rightharpoonup> bytes) \<Rightarrow> response list \<times> (bytes \<rightharpoonup> bytes)" where
  "spec_serve [] m = ([], m)"
| "spec_serve (c # cs) m = (case spec_serve cs (snd (spec_exec c m)) of (rs, m') \<Rightarrow>
     (response_ok (fst (spec_exec c m)) # rs, m'))"

primrec ready_for :: "(command \<Rightarrow> 's \<Rightarrow> bool) \<Rightarrow> (command \<Rightarrow> 's \<Rightarrow> response result \<times> 's) \<Rightarrow> command list \<Rightarrow> 's \<Rightarrow> bool" where
  "ready_for ready exec [] s \<longleftrightarrow> True"
| "ready_for ready exec (c # cs) s \<longleftrightarrow> ready c s \<and> ready_for ready exec cs (snd (exec c s))"

locale map_store =
  fixes exec :: "command \<Rightarrow> 's \<Rightarrow> response result \<times> 's"
    and ready :: "command \<Rightarrow> 's \<Rightarrow> bool"
    and holds :: "'s \<Rightarrow> (bytes \<rightharpoonup> bytes) \<Rightarrow> bool"
  assumes exec_refines: "holds s m \<Longrightarrow> ready c s \<Longrightarrow>
    \<exists>s'. exec c s = (Ok (response_ok (fst (spec_exec c m))), s') \<and> holds s' (snd (spec_exec c m))"
begin

lemma serve_refines:
  assumes "holds s m" and "ready_for ready exec cs s"
  shows "\<exists>s'. serve exec cs s = (map Ok (fst (spec_serve cs m)), s') \<and> holds s' (snd (spec_serve cs m))"
  using assms
proof (induction cs arbitrary: s m)
  case (Cons c cs)
  from exec_refines [of s m c] Cons.prems obtain s1 where
    x: "exec c s = (Ok (response_ok (fst (spec_exec c m))), s1)" "holds s1 (snd (spec_exec c m))" by auto
  from Cons.IH [OF x(2)] Cons.prems(2) x(1) obtain s' where
    "serve exec cs s1 = (map Ok (fst (spec_serve cs (snd (spec_exec c m)))), s')"
    "holds s' (snd (spec_serve cs (snd (spec_exec c m))))" by auto
  with x(1) show ?case by (auto split: prod.splits)
qed simp

end

subsection \<open>A connection on a session\<close>

text \<open>No operation moves the clock, and none invents an input/output error.\<close>

lemma frame_UNIV: "frame P w w' \<Longrightarrow> frame UNIV w w'"
  by (rule frame_mono) simp_all

lemma frame_UNIV_trans: "frame UNIV u v \<Longrightarrow> frame UNIV v w \<Longrightarrow> frame UNIV u w"
  using frame_trans by fastforce

lemma with_wal_frame:
  assumes "with_wal m (e, w) = (r, e', w')" and "\<And>s. wal_keeps s (snd (m s))"
  shows "frame UNIV w w'"
  using with_wal_effect [OF assms] frame_UNIV by (auto simp: keeps_def)

lemma flush_internal_frame:
  assumes ok: "engine_ok ls e w" and free: "next_free (eng_storage e)" and fit: "entries_fit (memtable_iter (eng_memtable e))"
    and run: "flush_internal L (e, w) = (r, e', w')"
  shows "frame UNIV w w'"
proof (cases "memtable_is_empty (eng_memtable e)")
  case True
  with run show ?thesis by (simp add: flush_internal_def)
next
  case False
  obtain r1 sm w1 where s1: "storage_flush L (eng_memtable e) (eng_storage e, w) = (r1, sm, w1)" by (metis prod_cases3)
  from ok have "storage_holds ls (eng_storage e) w" "mem_inv (eng_memtable e)" by (simp_all add: engine_ok_def)
  note f1 = frame_UNIV [OF storage_flush_effect(1) [OF this(1) free this(2) fit False s1]]
  show ?thesis
  proof (cases r1)
    case (Ok t)
    then have "with_wal wal_truncate (e\<lparr>eng_storage := sm, eng_memtable := memtable_clear (eng_memtable e)\<rparr>, w1) = (r, e', w')"
      using run False s1 by (simp add: flush_internal_def on_storage_def zoom_def)
    from frame_UNIV_trans [OF f1 with_wal_frame [OF this wal_truncate_keeps]] show ?thesis .
  qed (use run False s1 f1 in \<open>simp_all add: flush_internal_def on_storage_def zoom_def\<close>)
qed

lemma engine_write_frame:
  assumes ok: "engine_ok ls e w" and free: "next_free (eng_storage e)"
    and fit: "entries_fit (memtable_iter (snd (memtable_apply op (eng_memtable e))))"
    and run: "engine_write L op (e, w) = (Ok (), e', w')"
  shows "frame UNIV w w'"
proof -
  obtain n e1 w1 where s1: "with_wal (wal_append L op) (e, w) = (Ok n, e1, w1)"
    and s2: "after_write L (memtable_apply op (eng_memtable e1)) (e1, w1) = (Ok (), e', w')"
    using with_write_lock_Ok [OF run [unfolded engine_write_def]] by (auto elim!: andThen.elims)
  let ?e = "e1\<lparr>eng_memtable := snd (memtable_apply op (eng_memtable e1))\<rparr>"
  note k = with_wal_ok [OF ok s1 wal_append_keeps]
  note f1 = with_wal_frame [OF s1 wal_append_keeps]
  have "mem_inv (eng_memtable e1)" using k(1) by (simp add: engine_ok_def)
  then have ok1: "engine_ok ls ?e w1" using k(1) memtable_apply_inv by (simp add: engine_ok_def)
  have pre: "next_free (eng_storage ?e)" "entries_fit (memtable_iter (eng_memtable ?e))" using free fit k(3,4) by simp_all
  show ?thesis
  proof (cases "memtable_size_limit (eng_config e1) \<le> fst (memtable_apply op (eng_memtable e1))")
    case True
    then have "flush_internal L (?e, w1) = (Ok (), e', w')" using s2 by (simp add: after_write_def case_prod_beta Let_def)
    from frame_UNIV_trans [OF f1 flush_internal_frame [OF ok1 pre this]] show ?thesis .
  next
    case False
    then show ?thesis using s2 f1 by (simp add: after_write_def case_prod_beta Let_def)
  qed
qed

lemma engine_get_frame: "engine_get key (e, w) = (r, e', w') \<Longrightarrow> engine_ok ls e w \<Longrightarrow> frame UNIV w w'"
proof -
  assume run: "engine_get key (e, w) = (r, e', w')" and ok: "engine_ok ls e w"
  show "frame UNIV w w'"
  proof (cases "memtable_get (eng_memtable e) key")
    case None
    obtain sm where s: "storage_get key (eng_storage e, w) = (r, sm, w')"
      using run None by (auto simp: engine_get_def on_storage_def zoom_def split: prod.splits)
    have "storage_holds ls (eng_storage e) w" using ok by (simp add: engine_ok_def)
    from storage_get_answer [OF this, of key, unfolded s] have "quiet w w'" by (cases r) auto
    then show ?thesis by (auto simp: quiet_def frame_def)
  next
    case (Some x)
    with run show ?thesis by (cases x) (auto simp: engine_get_def)
  qed
qed

lemma execute_frame:
  assumes st: "durable_state L d ls es e w" and room: "room_for L c e" and run: "execute L c (e, w) = (Ok x, e', w')"
  shows "frame UNIV w w'"
proof (cases c)
  case (Get key)
  with run engine_get_frame [OF _ durable_state_ok [OF st]] show ?thesis by simp
next
  case (Put key val)
  with run have "engine_write L (OpPut key val) (e, w) = (Ok (), e', w')" by (auto simp: engine_write_eq elim!: andThen.elims)
  from engine_write_frame [OF durable_state_ok [OF st] _ _ this] room Put show ?thesis by (simp add: has_room_def)
next
  case (Delete key)
  with run have "engine_write L (OpDelete key) (e, w) = (Ok (), e', w')" by (auto simp: engine_write_eq elim!: andThen.elims)
  from engine_write_frame [OF durable_state_ok [OF st] _ _ this] room Delete show ?thesis by (simp add: has_room_def)
next
  case Ping
  with run show ?thesis by simp
qed

text \<open>The engine is such a store on every session that syncs its writes.\<close>

definition session_holds :: "'h libs \<Rightarrow> config \<Rightarrow> engine \<times> world \<Rightarrow> (bytes \<rightharpoonup> bytes) \<Rightarrow> bool" where
  "session_holds L cfg = (\<lambda>(e, w) m. session L cfg e w m \<and> bincode_roundtrip L \<and> sync_strategy_of cfg = EveryWrite \<and>
     faults w = [] \<and> now w \<noteq> None)"

definition engine_ready :: "'h libs \<Rightarrow> command \<Rightarrow> engine \<times> world \<Rightarrow> bool" where
  "engine_ready L c s = room_for L c (fst s)"

lemma execute_command_refines:
  assumes "session_holds L cfg s m" and "engine_ready L c s"
  shows "\<exists>s'. execute_command L c s = (Ok (response_ok (fst (spec_exec c m))), s') \<and>
    session_holds L cfg s' (snd (spec_exec c m))"
proof -
  obtain e w where s: "s = (e, w)" by fastforce
  with assms have ses: "session L cfg e w m" and rt: "bincode_roundtrip L" and ew: "sync_strategy_of cfg = EveryWrite"
    and env: "faults w = []" "now w \<noteq> None" and room: "room_for L c e" by (simp_all add: session_holds_def engine_ready_def)
  from session_invariant [OF ses rt ew] obtain ls es where
    st: "durable_state L (data_dir cfg) ls es e w" "m = view ls e" "healthy e" by (auto simp: session_state_def)
  from execute_available [OF st(1,3) room env] obtain x e1 w1 where
    x: "execute L c (e, w) = (Ok x, e1, w1)" by blast
  from durable_execute [OF rt st(1,3) room x] st(2) have val: "x = fst (spec_exec c m)" by (metis fst_conv)
  have "frame UNIV w w1" by (rule execute_frame [OF st(1) room x])
  then have env1: "faults w1 = []" "now w1 \<noteq> None" using env by (simp_all add: frame_def)
  have "execute_command L c (e, w) = (Ok (response_ok (fst (spec_exec c m))), e1, w1)"
    using x unfolding val by (simp add: execute_command_def split: option.split)
  with session_execute [OF ses room x] rt ew env1 show ?thesis by (auto simp: s session_holds_def)
qed

interpretation es: map_store "execute_command L" "engine_ready L" "session_holds L cfg" for L :: "'h libs" and cfg
  by unfold_locales (rule execute_command_refines)

text \<open>The pipelined commands of a client on a session, up to the disconnect.\<close>

lemma handle_session:
  assumes "session L cfg e w m" and "bincode_roundtrip L" and "sync_strategy_of cfg = EveryWrite"
    and "\<forall>c \<in> set cs. command_fits c" and "ready_for (engine_ready L) (execute_command L) cs (e, w)" and "faults w = []" and "now w \<noteq> None"
    and "command_fits torn" and "k < length (encode_command torn)"
    and "inbox (conn_reader conn) = concat (map encode_command cs) @ take k (encode_command torn)"
    and "io_kind (hangup (conn_reader conn)) \<in> set disconnect_kinds" and "out_faults (conn_writer conn) = []"
  shows "\<exists>conn' e' w'. handle L (conn, e, w) = (Ok (), conn', e', w') \<and>
    outbox (conn_writer conn') = outbox (conn_writer conn) @ concat (map encode_response (fst (spec_serve cs m))) \<and>
    session L cfg e' w' (snd (spec_serve cs m))"
proof -
  have "session_holds L cfg (e, w) m" using assms(1-3,6,7) by (simp add: session_holds_def)
  from es.serve_refines [OF this assms(5)] obtain e' w' where
    sv: "serve (execute_command L) cs (e, w) = (map Ok (fst (spec_serve cs m)), e', w')" "session L cfg e' w' (snd (spec_serve cs m))"
    by (auto simp: session_holds_def)
  let ?c = "delivered (take k (encode_command torn)) (concat (map encode_response (fst (spec_serve cs m)))) conn"
  have "fst (read_command (conn_reader ?c)) = Err (Io (hangup (conn_reader conn)))"
    using cmds.read_short [OF assms(8) _ assms(9), of "conn_reader ?c"] by simp
  then obtain rd where "read_command (conn_reader ?c) = (Err (Io (hangup (conn_reader conn))), rd)" by (metis prod.collapse)
  then have "handle_once L (?c, e', w') = (Some (Ok ()), ?c\<lparr>conn_reader := rd\<rparr>, e', w')"
    using assms(11) by (simp add: handle_once_def)
  then have "handle L (?c, e', w') = (Ok (), ?c\<lparr>conn_reader := rd\<rparr>, e', w')" by (subst handle.simps) simp
  with handle_prefix [OF assms(4,10,12) sv(1)] sv(2) show ?thesis by auto
qed

subsection \<open>Properties\<close>

text \<open>A client that sends one command and closes, for the witnesses.\<close>

definition demo_connection :: "bytes \<Rightarrow> connection" where
  "demo_connection d = (let s = \<lparr>tcp_in = \<lparr>inbox = d, hangup = eof_error\<rparr>, tcp_out = \<lparr>outbox = [], out_faults = []\<rparr>,
       tcp_peer = None, tcp_nodelay = False, tcp_read_timeout = None, tcp_write_timeout = None, tcp_faults = []\<rparr> in
     \<lparr>conn_reader = tcp_in s, conn_writer = tcp_out s, conn_stream = s, peer_addr = ''unknown''\<rparr>)"

lemma demo_connection_fields [simp]:
  "inbox (conn_reader (demo_connection d)) = d" "hangup (conn_reader (demo_connection d)) = eof_error"
  "outbox (conn_writer (demo_connection d)) = []" "out_faults (conn_writer (demo_connection d)) = []"
  by (simp_all add: demo_connection_def Let_def)

text \<open>C9: From the bytes a client sends to the bytes it receives: on a session whose contents are the map
  \<open>m\<close>, a connection answers the pipelined commands with the responses the map gives, in their
  order, ignores a command that was cut off by the disconnect, ends without an error, and the
  session goes on with the updated map.\<close>

theorem connection_refines_map:
  assumes "session L cfg e w m" and "bincode_roundtrip L" and "sync_strategy_of cfg = EveryWrite"
    and "\<forall>c \<in> set cs. command_fits c" and "ready_for (engine_ready L) (execute_command L) cs (e, w)" and "faults w = []" and "now w \<noteq> None"
    and "command_fits torn" and "k < length (encode_command torn)"
    and "inbox (conn_reader conn) = concat (map encode_command cs) @ take k (encode_command torn)"
    and "io_kind (hangup (conn_reader conn)) \<in> set disconnect_kinds" and "out_faults (conn_writer conn) = []"
  shows "\<exists>conn' e' w'. handle L (conn, e, w) = (Ok (), conn', e', w') \<and>
    outbox (conn_writer conn') = outbox (conn_writer conn) @ concat (map encode_response (fst (spec_serve cs m))) \<and>
    session L cfg e' w' (snd (spec_serve cs m))"
  by (rule handle_session [OF assms])

theorem connection_refines_map_witness:
  "\<exists>c e w. handle ref_libs (demo_connection (encode_command (Put [1] [2])), demo_engine, demo_opened) = (Ok (), c, e, w) \<and>
     outbox (conn_writer c) = encode_response (response_ok None)"
proof -
  have "\<exists>c' e' w'. handle ref_libs (demo_connection (encode_command (Put [1] [2])), demo_engine, demo_opened) = (Ok (), c', e', w') \<and>
    outbox (conn_writer c') = outbox (conn_writer (demo_connection (encode_command (Put [1] [2])))) @
      concat (map encode_response (fst (spec_serve [Put [1] [2]] Map.empty))) \<and>
    session ref_libs demo_config e' w' (snd (spec_serve [Put [1] [2]] Map.empty))"
    using demo_room
    by (intro connection_refines_map [where k = 0 and torn = Ping, OF demo_session ref_libs_ok(1) demo_every_write])
      (simp_all add: command_fits_def MAX_PAYLOAD_SIZE_def demo_opened_def disconnect_kinds_def eof_error_def
        encode_command_def engine_ready_def)
  then show ?thesis by auto
qed

text \<open>C29: A malformed or oversized command gets one error response with the text of the error, after the
  responses to the complete commands before it; nothing behind it is executed and the connection
  ends with that error.\<close>

theorem connection_rejects_malformed:
  assumes "\<forall>c \<in> set cs. command_fits c" and "serve (execute_command L) cs (e, w) = (map Ok rs, e', w')"
    and "inbox (conn_reader conn) = concat (map encode_command cs) @ bad" and "out_faults (conn_writer conn) = []"
    and "fst (read_command ((conn_reader conn)\<lparr>inbox := bad\<rparr>)) = Err (Protocol msg)"
  shows "\<exists>conn'. handle L (conn, e, w) = (Err (Protocol msg), conn', e', w') \<and>
    outbox (conn_writer conn') = outbox (conn_writer conn) @ concat (map encode_response rs) @
      encode_response (response_error (''Protocol error: '' @ msg))"
proof -
  let ?c = "delivered bad (concat (map encode_response rs)) conn"
  obtain rd where "read_command (conn_reader ?c) = (Err (Protocol msg), rd)"
    using assms(5) by (cases "read_command (conn_reader ?c)") (simp add: delivered_def)
  then have "handle_once L (?c, e', w') =
      (Some (Err (Protocol msg)), snd (send_response (response_error (''Protocol error: '' @ msg)) (?c\<lparr>conn_reader := rd\<rparr>)), e', w')"
    by (simp add: handle_once_def)
  then have "handle L (?c, e', w') =
      (Err (Protocol msg), snd (send_response (response_error (''Protocol error: '' @ msg)) (?c\<lparr>conn_reader := rd\<rparr>)), e', w')"
    by (subst handle.simps) simp
  with handle_prefix [OF assms(1,3,4,2)] assms(4) show ?thesis by (simp add: send_response_no_faults)
qed

theorem connection_rejects_malformed_witness:
  "\<exists>c. handle ref_libs (demo_connection [9, 0, 0, 0, 0], demo_engine, demo_opened) =
     (Err (Protocol (''Unknown command type: '' @ hex2 9)), c, demo_engine, demo_opened)"
proof -
  have "fst (read_command ((conn_reader (demo_connection [9, 0, 0, 0, 0]))\<lparr>inbox := [9, 0, 0, 0, 0]\<rparr>)) =
      Err (Protocol (''Unknown command type: '' @ hex2 9))"
    by (simp add: read_command_def stream_read_exact_def decode_command_def PROTO_HEADER_SIZE_def MAX_PAYLOAD_SIZE_def
        be_field_def slice_def from_be_bytes_def from_le_bytes_def Let_def)
  with connection_rejects_malformed [of "[]" ref_libs demo_engine demo_opened "[]" demo_engine demo_opened
      "demo_connection [9, 0, 0, 0, 0]"] show ?thesis by auto
qed

text \<open>A key without a value, deleted or never written, is answered with status OK and no payload, never
  with NOT_FOUND: the engine maps a missing key to \<open>Ok(None)\<close> before the connection sees it.\<close>

lemma missing_key_is_ok:
  assumes "engine_ok ls e w" and "faults w = []" and "view ls e key = None"
  shows "fst (execute_command L (Get key) (e, w)) = Ok (response_ok None)"
proof -
  obtain r e' w' where run: "engine_get key (e, w) = (r, e', w')" by (metis prod_cases3)
  from engine_get_ok(4) [OF assms(1) run] assms(2,3) have "r = Ok None" by simp
  with run show ?thesis by (simp add: execute_command_def)
qed

end
