(* ===== verification/Cli.thy ===== *)
theory Cli
  imports Connection
begin

section \<open>The command line client (src/src/bin/cli.rs)\<close>

text \<open>
  The client after its arguments have been parsed (\<open>clap\<close> does that): the translation to a
  protocol command, the exchange over one socket, and the text and exit code of the response. A
  Rust \<open>String\<close> is its UTF-8 bytes. \<open>String::from_utf8\<close> accepts the well-formed byte sequences of the
  Unicode standard (its table 3-7), which \<open>valid_utf8\<close> spells out.
\<close>

fun valid_utf8 :: "bytes \<Rightarrow> bool" where
  "valid_utf8 [] = True"
| "valid_utf8 (b0 # bs) =
    (if b0 < 0x80 then valid_utf8 bs
     else if 0xC2 \<le> b0 \<and> b0 \<le> 0xDF then
       (case bs of b1 # rest \<Rightarrow> 0x80 \<le> b1 \<and> b1 \<le> 0xBF \<and> valid_utf8 rest | _ \<Rightarrow> False)
     else if 0xE0 \<le> b0 \<and> b0 \<le> 0xEF then
       (case bs of b1 # b2 # rest \<Rightarrow>
          (if b0 = 0xE0 then 0xA0 else 0x80) \<le> b1 \<and> b1 \<le> (if b0 = 0xED then 0x9F else 0xBF) \<and>
          0x80 \<le> b2 \<and> b2 \<le> 0xBF \<and> valid_utf8 rest
        | _ \<Rightarrow> False)
     else if 0xF0 \<le> b0 \<and> b0 \<le> 0xF4 then
       (case bs of b1 # b2 # b3 # rest \<Rightarrow>
          (if b0 = 0xF0 then 0x90 else 0x80) \<le> b1 \<and> b1 \<le> (if b0 = 0xF4 then 0x8F else 0xBF) \<and>
          0x80 \<le> b2 \<and> b2 \<le> 0xBF \<and> 0x80 \<le> b3 \<and> b3 \<le> 0xBF \<and> valid_utf8 rest
        | _ \<Rightarrow> False)
     else False)"

definition from_utf8 :: "bytes \<Rightarrow> bytes option" where
  "from_utf8 bs = (if valid_utf8 bs then Some bs else None)"

subsection \<open>Arguments and output\<close>

datatype cli_commands = CliGet bytes | CliSet bytes bytes | CliDel bytes | CliPing

record cli_args =
  cli_server :: bytes
  cli_timeout :: u64
  cli_command :: cli_commands

text \<open>The end of the process: its exit code and what it has written to the two streams.\<close>

record exit_state =
  exit_code :: nat
  stdout :: bytes
  stderr :: bytes

definition newline :: bytes where
  "newline = [10]"

definition exit_printing :: "bytes \<Rightarrow> exit_state" where
  "exit_printing line = \<lparr>exit_code = 0, stdout = line @ newline, stderr = []\<rparr>"

definition exit_failing :: "bytes \<Rightarrow> exit_state" where
  "exit_failing line = \<lparr>exit_code = 1, stdout = [], stderr = line @ newline\<rparr>"

fun to_command :: "cli_commands \<Rightarrow> command" where
  "to_command (CliGet key) = Get key"
| "to_command (CliSet key val) = Put key val"
| "to_command (CliDel key) = Delete key"
| "to_command CliPing = Ping"

fun handle_ok :: "cli_commands \<Rightarrow> bytes option \<Rightarrow> bytes" where
  "handle_ok (CliGet key) (Some v) = (case from_utf8 v of Some s \<Rightarrow> s | None \<Rightarrow> str_bytes (show_bytes v))"
| "handle_ok (CliGet key) None = str_bytes ''(nil)''"
| "handle_ok (CliSet key val) _ = str_bytes ''OK''"
| "handle_ok (CliDel key) _ = str_bytes ''OK''"
| "handle_ok CliPing (Some v) = (case from_utf8 v of Some s \<Rightarrow> s | None \<Rightarrow> str_bytes ''PONG'')"
| "handle_ok CliPing None = str_bytes ''PONG''"

definition handle_response :: "cli_commands \<Rightarrow> response \<Rightarrow> exit_state" where
  "handle_response cmd r = (case rsp_status r of
     SOk \<Rightarrow> exit_printing (handle_ok cmd (rsp_payload r))
   | SNotFound \<Rightarrow> exit_printing (str_bytes ''(nil)'')
   | SError \<Rightarrow> (case rsp_payload r of
       Some p \<Rightarrow> (case from_utf8 p of
           Some msg \<Rightarrow> exit_failing (str_bytes ''ERROR: '' @ msg)
         | None \<Rightarrow> exit_failing (str_bytes ''ERROR: (unknown error)''))
     | None \<Rightarrow> exit_failing (str_bytes ''ERROR: (unknown error)'')))"

subsection \<open>The exchange\<close>

text \<open>
  The three options of the socket; their errors are ignored, also the one the standard library
  reports for a timeout of zero.
\<close>

definition cli_options :: "u64 \<Rightarrow> tcp_stream \<Rightarrow> tcp_stream" where
  "cli_options ms s =
     (let s = (if ms = 0 then s else snd (socket_call (\<lambda>s. s\<lparr>tcp_read_timeout := Some ms\<rparr>) s));
          s = (if ms = 0 then s else snd (socket_call (\<lambda>s. s\<lparr>tcp_write_timeout := Some ms\<rparr>) s))
      in snd (socket_call (\<lambda>s. s\<lparr>tcp_nodelay := True\<rparr>) s))"

text \<open>\<open>Err x\<close>: the process has exited with \<open>x\<close>.\<close>

definition cli_send :: "command \<Rightarrow> tcp_stream \<Rightarrow> (exit_state, tcp_stream) outcome" where
  "cli_send c s = (case stream_write_all (encode_command c) (tcp_out s) of
     (Ok _, out) \<Rightarrow> (case stream_flush out of
         (Ok _, out) \<Rightarrow> Ok (s\<lparr>tcp_out := out\<rparr>)
       | (Err e, out) \<Rightarrow> Err (exit_failing (str_bytes (''Failed to flush command: '' @ io_message e)))
       | (Panic, out) \<Rightarrow> Panic)
   | (Err e, out) \<Rightarrow> Err (exit_failing (str_bytes (''Failed to send command: '' @ io_message e)))
   | (Panic, out) \<Rightarrow> Panic)"

definition cli_receive :: "tcp_stream \<Rightarrow> (exit_state, response) outcome" where
  "cli_receive s = (case fst (read_response (tcp_in s)) of
     Ok r \<Rightarrow> Ok r
   | Err e \<Rightarrow> Err (exit_failing (str_bytes (''Failed to read response: '' @ display e)))
   | Panic \<Rightarrow> Panic)"

text \<open>
  \<open>connected\<close> is what parsing the address and connecting to it gave: a socket, the error of the
  operating system, or the panic of \<open>expect("Invalid server address")\<close>, which is \<open>None\<close>.
\<close>

definition cli_main :: "cli_args \<Rightarrow> (io_error, tcp_stream) outcome \<Rightarrow> exit_state option" where
  "cli_main args connected = (case connected of
     Ok s \<Rightarrow> (case cli_send (to_command (cli_command args)) (cli_options (cli_timeout args) s) of
         Ok s \<Rightarrow> (case cli_receive s of
             Ok r \<Rightarrow> Some (handle_response (cli_command args) r)
           | Err x \<Rightarrow> Some x
           | Panic \<Rightarrow> None)
       | Err x \<Rightarrow> Some x
       | Panic \<Rightarrow> None)
   | Err e \<Rightarrow> Some (exit_failing (str_bytes ''Failed to connect to '' @ cli_server args @ str_bytes ('': '' @ io_message e)))
   | Panic \<Rightarrow> None)"

subsection \<open>Properties\<close>

lemma cli_options_streams [simp]: "tcp_in (cli_options ms s) = tcp_in s" "tcp_out (cli_options ms s) = tcp_out s"
proof -
  have keep: "tcp_in (snd (socket_call f s)) = tcp_in s \<and> tcp_out (snd (socket_call f s)) = tcp_out s"
    if "\<And>s. tcp_in (f s) = tcp_in s \<and> tcp_out (f s) = tcp_out s" for f s
    using that by (auto split: list.split option.split)
  show "tcp_in (cli_options ms s) = tcp_in s" "tcp_out (cli_options ms s) = tcp_out s"
    unfolding cli_options_def Let_def by (simp_all add: keep del: socket_call.simps)
qed

lemma cli_send_cases:
  "cli_send c s = Ok s' \<Longrightarrow> outbox (tcp_out s') = outbox (tcp_out s) @ encode_command c \<and> tcp_in s' = tcp_in s"
  "cli_send c s \<noteq> Panic"
  "cli_send c s = Err x \<Longrightarrow> \<exists>line. line \<noteq> [] \<and> x = exit_failing line"
  "out_faults (tcp_out s) = [] \<Longrightarrow> \<exists>s'. cli_send c s = Ok s'"
  by (auto simp: cli_send_def stream_write_all_def stream_flush_def str_bytes_def
      split: list.splits option.splits fault.splits)

lemma read_response_no_panic: "fst (read_response s) \<noteq> Panic"
proof -
  have "decode_response d \<noteq> Panic" for d
    by (auto simp: decode_response_def Let_def split: option.splits)
  then show ?thesis
    by (auto simp: read_response_def stream_read_exact_def Let_def)
qed

lemma cli_receive_cases:
  "cli_receive s \<noteq> Panic" "cli_receive s = Err x \<Longrightarrow> \<exists>line. line \<noteq> [] \<and> x = exit_failing line"
  "cli_receive s = Ok r \<longleftrightarrow> fst (read_response (tcp_in s)) = Ok r"
  using read_response_no_panic [of "tcp_in s"]
  by (auto simp: cli_receive_def str_bytes_def split: outcome.splits)

text \<open>What the client prints when the contents of the store are the map \<open>m\<close>.\<close>

fun spec_output :: "cli_commands \<Rightarrow> (bytes \<rightharpoonup> bytes) \<Rightarrow> bytes" where
  "spec_output (CliGet key) m = (case m key of
     None \<Rightarrow> str_bytes ''(nil)''
   | Some v \<Rightarrow> if v = [] then str_bytes ''(nil)'' else if valid_utf8 v then v else str_bytes (show_bytes v))"
| "spec_output (CliSet key val) m = str_bytes ''OK''"
| "spec_output (CliDel key) m = str_bytes ''OK''"
| "spec_output CliPing m = str_bytes ''PONG''"

lemma handle_spec_response:
  "handle_response cmd (wire_view (response_ok (fst (spec_exec (to_command cmd) m)))) = exit_printing (spec_output cmd m)"
  by (cases cmd) (auto simp: handle_response_def wire_view_def response_ok_def from_utf8_def PONG_def str_bytes_def split: option.split)

text \<open>C8: End to end, from the command line to the files and back: the client sends its command over a socket
  that a connection of the server reads, and the bytes the connection answers are what the client
  reads. On a session whose contents are the map \<open>m\<close> the client exits with code 0 and prints what
  the map says, and the session goes on with the updated map. An empty value is printed as
  \<open>(nil)\<close>, like a missing one.\<close>

theorem cli_end_to_end:
  assumes "session L cfg e w m" and "bincode_roundtrip L" and "sync_strategy_of cfg = EveryWrite"
    and "command_fits (to_command (cli_command args))" and "room_for L (to_command (cli_command args)) e"
    and "faults w = []" and "now w \<noteq> None"
    and "\<forall>v. fst (spec_exec (to_command (cli_command args)) m) = Some v \<longrightarrow> length v \<le> MAX_PAYLOAD_SIZE"
    and "outbox (tcp_out s) = []"
    and "cli_send (to_command (cli_command args)) (cli_options (cli_timeout args) s) = Ok sent"
    and "inbox (conn_reader conn) = outbox (tcp_out sent)"
    and "io_kind (hangup (conn_reader conn)) \<in> set disconnect_kinds"
    and "outbox (conn_writer conn) = []" and "out_faults (conn_writer conn) = []"
    and "handle L (conn, e, w) = (r, conn', e', w')" and "inbox (tcp_in s) = outbox (conn_writer conn')"
  shows "cli_main args (Ok s) = Some (exit_printing (spec_output (cli_command args) m)) \<and>
    r = Ok () \<and> session L cfg e' w' (snd (spec_exec (to_command (cli_command args)) m))"
proof -
  let ?c = "to_command (cli_command args)"
  let ?rsp = "response_ok (fst (spec_exec ?c m))"
  note sent = cli_send_cases(1) [OF assms(10)]
  have "\<exists>conn' e' w'. handle L (conn, e, w) = (Ok (), conn', e', w') \<and>
    outbox (conn_writer conn') = outbox (conn_writer conn) @ concat (map encode_response (fst (spec_serve [?c] m))) \<and>
    session L cfg e' w' (snd (spec_serve [?c] m))"
    by (rule handle_session [OF assms(1-3) _ _ assms(6,7), where k = 0 and torn = Ping])
      (use assms sent in \<open>simp_all add: command_fits_def MAX_PAYLOAD_SIZE_def encode_command_def engine_ready_def\<close>)
  with assms(13,15,16) have answer: "inbox (tcp_in s) = encode_response ?rsp" and served: "r = Ok ()"
    "session L cfg e' w' (snd (spec_exec ?c m))" by auto
  have "response_fits ?rsp" using assms(8) by (auto simp: response_fits_def response_ok_def split: option.split)
  from rsps.read_encode [OF this, of "tcp_in s" "[]"] answer
  have "cli_receive sent = Ok (wire_view ?rsp)" using sent by (simp add: cli_receive_cases)
  with assms(10) have "cli_main args (Ok s) = Some (exit_printing (spec_output (cli_command args) m))"
    by (simp add: cli_main_def handle_spec_response)
  with served show ?thesis by simp
qed

definition demo_socket :: "bytes \<Rightarrow> tcp_stream" where
  "demo_socket d = \<lparr>tcp_in = \<lparr>inbox = d, hangup = eof_error\<rparr>, tcp_out = \<lparr>outbox = [], out_faults = []\<rparr>,
     tcp_peer = None, tcp_nodelay = False, tcp_read_timeout = None, tcp_write_timeout = None, tcp_faults = []\<rparr>"

definition demo_args :: cli_args where
  "demo_args = \<lparr>cli_server = str_bytes ''127.0.0.1:6379'', cli_timeout = 5000, cli_command = CliSet [1] [2]\<rparr>"

theorem cli_end_to_end_witness:
  "\<exists>d. cli_main demo_args (Ok (demo_socket d)) = Some (exit_printing (str_bytes ''OK''))"
proof -
  obtain r conn e w where h: "handle ref_libs (demo_connection (encode_command (Put [1] [2])), demo_engine, demo_opened) = (r, conn, e, w)"
    by (metis prod_cases4)
  let ?s = "demo_socket (outbox (conn_writer conn))"
  obtain sent where sent: "cli_send (to_command (cli_command demo_args)) (cli_options (cli_timeout demo_args) ?s) = Ok sent"
    using cli_send_cases(4) by (fastforce simp: demo_socket_def)
  have "cli_main demo_args (Ok ?s) = Some (exit_printing (spec_output (cli_command demo_args) Map.empty)) \<and>
    r = Ok () \<and> session ref_libs demo_config e w (snd (spec_exec (to_command (cli_command demo_args)) Map.empty))"
    by (rule cli_end_to_end [OF demo_session ref_libs_ok(1) demo_every_write _ _ _ _ _ _ sent _ _ _ _ h])
      (use demo_room cli_send_cases(1) [OF sent] in \<open>simp_all add: demo_args_def demo_socket_def command_fits_def
        MAX_PAYLOAD_SIZE_def demo_opened_def disconnect_kinds_def eof_error_def\<close>)
  then show ?thesis by (auto simp: demo_args_def)
qed

lemma exit_fields [simp]:
  "exit_code (exit_printing line) = 0" "stdout (exit_printing line) = line @ newline" "stderr (exit_printing line) = []"
  "exit_code (exit_failing line) = 1" "stdout (exit_failing line) = []" "stderr (exit_failing line) = line @ newline"
  by (simp_all add: exit_printing_def exit_failing_def)

lemma newline_not_Nil [simp]: "newline \<noteq> []"
  by (simp add: newline_def)

lemma handle_response_exit:
  "rsp_status r \<noteq> SError \<Longrightarrow> \<exists>line. handle_response cmd r = exit_printing line"
  "rsp_status r = SError \<Longrightarrow> \<exists>line. line \<noteq> [] \<and> handle_response cmd r = exit_failing line"
  by (cases "rsp_status r"; auto simp: handle_response_def str_bytes_def split: option.split)+

text \<open>C30: Whatever the server or the network does, a client with a valid address ends without a panic: with
  code 0, a line on standard output and nothing on standard error, which means that a whole
  response without the error status was read, or with code 1, a line that is not empty on standard
  error and nothing on standard output.\<close>

theorem cli_exit:
  shows "case cli_main args connected of
     None \<Rightarrow> connected = Panic
   | Some x \<Rightarrow>
       exit_code x = 0 \<and> stderr x = [] \<and> stdout x \<noteq> [] \<and>
         (\<exists>s r. connected = Ok s \<and> fst (read_response (tcp_in s)) = Ok r \<and> rsp_status r \<noteq> SError) \<or>
       exit_code x = 1 \<and> stdout x = [] \<and> length newline < length (stderr x)"
proof (cases connected)
  case conn: (Ok s)
  show ?thesis
  proof (cases "cli_send (to_command (cli_command args)) (cli_options (cli_timeout args) s)")
    case sent: (Ok t)
    have same: "tcp_in t = tcp_in s" using cli_send_cases(1) [OF sent] by simp
    show ?thesis
    proof (cases "cli_receive t")
      case got: (Ok r)
      then have "fst (read_response (tcp_in s)) = Ok r" by (simp add: cli_receive_cases same)
      with conn sent got handle_response_exit [of r "cli_command args"] show ?thesis
        by (cases "rsp_status r = SError") (auto simp: cli_main_def)
    qed (use conn sent cli_receive_cases(1,2) [of t] in \<open>fastforce simp: cli_main_def\<close>)+
  qed (use conn cli_send_cases(2,3) in \<open>fastforce simp: cli_main_def\<close>)+
qed (simp_all add: cli_main_def str_bytes_def)

end
