(* ===== verification/Server.thy ===== *)
theory Server
  imports Connection
begin

section \<open>The server (src/src/network/server.rs)\<close>

text \<open>
  The accept loop, the bounded channel and the pool of workers as a step relation. A step is what
  one thread does between two points where the others can see a difference: a poll of the
  listener, a send to the channel, a receive, the set-up of a connection, one iteration of
  \<open>Connection::handle\<close>. The threads are interleaved in every possible way. \<open>crossbeam\<close>'s channel is a
  queue whose send waits while it is full; with capacity 0 a send waits for a receiver.
\<close>

datatype worker_message = NewConnection tcp_stream | ShutdownWorker

datatype worker_state =
    Waiting
  | Starting tcp_stream
  | Serving connection
  | Stopped
  | Crashed

datatype server_phase =
    NotRunning
  | Accepting
  | Polling
  | Dispatching tcp_stream
  | Cleaning nat
  | Joining
  | Finished

record server =
  srv_config :: config
  srv_engine :: engine
  srv_world :: world
  work_queue :: "worker_message list"
  workers :: "worker_state list"
  shutdown_flag :: bool
  active_count :: usize
  srv_phase :: server_phase

definition server_new :: "config \<Rightarrow> engine \<times> world \<Rightarrow> server" where
  "server_new cfg ew = \<lparr>srv_config = cfg, srv_engine = fst ew, srv_world = snd ew, work_queue = [], workers = [],
     shutdown_flag = False, active_count = 0, srv_phase = NotRunning\<rparr>"

subsection \<open>Starting\<close>

definition num_cpus :: "nat option \<Rightarrow> nat" where
  "num_cpus available = (case available of Some n \<Rightarrow> n | None \<Rightarrow> 4)"

text \<open>\<open>spawned\<close>: what the operating system answers when the threads are created, one answer for each.\<close>

fun spawn_workers :: "io_error option list \<Rightarrow> server \<Rightarrow> unit result \<times> server" where
  "spawn_workers [] s = (Ok (), s)"
| "spawn_workers (Some e # rest) s = (Err (Network (''Failed to spawn worker: '' @ io_message e)), s)"
| "spawn_workers (None # rest) s = spawn_workers rest (s\<lparr>workers := workers s @ [Waiting]\<rparr>)"

definition server_start :: "(io_error, unit) outcome \<Rightarrow> (io_error, unit) outcome \<Rightarrow> nat option \<Rightarrow> (nat \<Rightarrow> io_error option) \<Rightarrow>
    server \<Rightarrow> unit result \<times> server" where
  "server_start bound nonblocking available spawned s =
     andThen (case bound of
         Err e \<Rightarrow> (Err (Network (''Failed to bind to '' @ listen_addr (srv_config s) @ '': '' @ io_message e)), s)
       | Ok _ \<Rightarrow> (Ok (), s) | Panic \<Rightarrow> (Panic, s)) (\<lambda>_ s.
     andThen (from_io (nonblocking, s)) (\<lambda>_ s.
     andThen (spawn_workers (map spawned [0..<num_cpus available]) s) (\<lambda>_ s.
       (Ok (), s\<lparr>srv_phase := Accepting\<rparr>))))"

subsection \<open>The accept loop\<close>

definition accept_connection :: "tcp_stream \<Rightarrow> server \<Rightarrow> server" where
  "accept_connection sock s =
     (if max_connections (srv_config s) \<le> active_count s then s\<lparr>srv_phase := Accepting\<rparr>
      else s\<lparr>srv_phase := Dispatching sock\<rparr>)"

definition send_message :: "worker_message \<Rightarrow> server \<Rightarrow> server" where
  "send_message msg s = s\<lparr>work_queue := work_queue s @ [msg]\<rparr>"

definition channel_full :: "server \<Rightarrow> bool" where
  "channel_full s = (unat (max_connections (srv_config s)) \<le> length (work_queue s))"

definition shutdown :: "server \<Rightarrow> server" where
  "shutdown s = s\<lparr>shutdown_flag := True\<rparr>"

definition is_running :: "server \<Rightarrow> bool" where
  "is_running s = (\<not> shutdown_flag s)"

definition active_connections :: "server \<Rightarrow> usize" where
  "active_connections s = active_count s"

subsection \<open>The workers\<close>

definition set_worker :: "nat \<Rightarrow> worker_state \<Rightarrow> server \<Rightarrow> server" where
  "set_worker i ws s = s\<lparr>workers := (workers s)[i := ws]\<rparr>"

text \<open>\<open>Worker::run\<close> receives a message; \<open>handle_connection\<close> counts the connection first.\<close>

fun worker_receive :: "nat \<Rightarrow> worker_message \<Rightarrow> server \<Rightarrow> server" where
  "worker_receive i (NewConnection sock) s =
     set_worker i (Starting sock) (s\<lparr>active_count := active_count s + 1\<rparr>)"
| "worker_receive i ShutdownWorker s = set_worker i Stopped s"

definition worker_connect :: "nat \<Rightarrow> tcp_stream \<Rightarrow> server \<Rightarrow> server" where
  "worker_connect i sock s = (case connection_new sock of
     Ok c \<Rightarrow> set_worker i (Serving (snd (set_timeouts (read_timeout_ms (srv_config s)) (write_timeout_ms (srv_config s)) c))) s
   | Err e \<Rightarrow> set_worker i Waiting (s\<lparr>active_count := active_count s - 1\<rparr>)
   | Panic \<Rightarrow> set_worker i Crashed s)"

definition worker_turn :: "'h libs \<Rightarrow> nat \<Rightarrow> connection \<Rightarrow> server \<Rightarrow> server" where
  "worker_turn L i c s = (case handle_once L (c, srv_engine s, srv_world s) of (r, c', e, w) \<Rightarrow>
     let s = s\<lparr>srv_engine := e, srv_world := w\<rparr> in
     case r of
       None \<Rightarrow> set_worker i (Serving c') s
     | Some Panic \<Rightarrow> set_worker i Crashed s
     | Some _ \<Rightarrow> set_worker i Waiting (s\<lparr>active_count := active_count s - 1\<rparr>))"

fun has_ended :: "worker_state \<Rightarrow> bool" where
  "has_ended Stopped = True"
| "has_ended Crashed = True"
| "has_ended _ = False"

inductive server_step :: "'h libs \<Rightarrow> server \<Rightarrow> server \<Rightarrow> bool" for L where
  poll: "srv_phase s = Accepting \<Longrightarrow> \<not> shutdown_flag s \<Longrightarrow> server_step L s (s\<lparr>srv_phase := Polling\<rparr>)"
| no_client: "srv_phase s = Polling \<Longrightarrow> server_step L s (s\<lparr>srv_phase := Accepting\<rparr>)"
| client: "srv_phase s = Polling \<Longrightarrow> server_step L s (accept_connection sock s)"
| dispatch: "srv_phase s = Dispatching sock \<Longrightarrow> \<not> channel_full s \<Longrightarrow>
     server_step L s (send_message (NewConnection sock) (s\<lparr>srv_phase := Accepting\<rparr>))"
| leave: "srv_phase s = Accepting \<Longrightarrow> shutdown_flag s \<Longrightarrow> server_step L s (s\<lparr>srv_phase := Cleaning (length (workers s))\<rparr>)"
| clean: "srv_phase s = Cleaning (Suc n) \<Longrightarrow> \<not> channel_full s \<Longrightarrow>
     server_step L s (send_message ShutdownWorker (s\<lparr>srv_phase := Cleaning n\<rparr>))"
| hand_over: "srv_phase s = Cleaning (Suc n) \<Longrightarrow> max_connections (srv_config s) = 0 \<Longrightarrow> i < length (workers s) \<Longrightarrow>
     workers s ! i = Waiting \<Longrightarrow> work_queue s = [] \<Longrightarrow>
     server_step L s (worker_receive i ShutdownWorker (s\<lparr>srv_phase := Cleaning n\<rparr>))"
| cleaned: "srv_phase s = Cleaning 0 \<Longrightarrow> server_step L s (s\<lparr>srv_phase := Joining\<rparr>)"
| joined: "srv_phase s = Joining \<Longrightarrow> list_all has_ended (workers s) \<Longrightarrow> server_step L s (s\<lparr>srv_phase := Finished\<rparr>)"
| signal: "server_step L s (shutdown s)"
| receive: "i < length (workers s) \<Longrightarrow> workers s ! i = Waiting \<Longrightarrow> work_queue s = msg # rest \<Longrightarrow>
     server_step L s (worker_receive i msg (s\<lparr>work_queue := rest\<rparr>))"
| connect: "i < length (workers s) \<Longrightarrow> workers s ! i = Starting sock \<Longrightarrow> server_step L s (worker_connect i sock s)"
| turn: "i < length (workers s) \<Longrightarrow> workers s ! i = Serving c \<Longrightarrow> server_step L s (worker_turn L i c s)"
| environment: "server_step L s (s\<lparr>srv_world := (srv_world s)\<lparr>faults := f, now := t\<rparr>\<rparr>)"

text \<open>
  Histories: the connections that were accepted (and not rejected at the limit) and the
  connections a worker has received, both in their order.
\<close>

fun newly_accepted :: "server \<Rightarrow> server \<Rightarrow> tcp_stream list" where
  "newly_accepted s s' = (case (srv_phase s, srv_phase s') of (Polling, Dispatching sock) \<Rightarrow> [sock] | _ \<Rightarrow> [])"

fun connections_of :: "worker_message list \<Rightarrow> tcp_stream list" where
  "connections_of [] = []"
| "connections_of (NewConnection sock # q) = sock # connections_of q"
| "connections_of (ShutdownWorker # q) = connections_of q"

definition newly_started :: "server \<Rightarrow> server \<Rightarrow> tcp_stream list" where
  "newly_started s s' = (if length (work_queue s') < length (work_queue s) then connections_of [hd (work_queue s)] else [])"

inductive server_runs :: "'h libs \<Rightarrow> server \<Rightarrow> tcp_stream list \<Rightarrow> tcp_stream list \<Rightarrow> bool" for L where
  started: "server_start bound nonblocking available spawned (server_new cfg ew) = (Ok (), s) \<Longrightarrow>
     num_cpus available < 2 ^ 64 \<Longrightarrow> server_runs L s [] []"
| stepped: "server_runs L s acc st \<Longrightarrow> server_step L s s' \<Longrightarrow>
     server_runs L s' (acc @ newly_accepted s s') (st @ newly_started s s')"

subsection \<open>The invariant\<close>

fun busy :: "worker_state \<Rightarrow> bool" where
  "busy (Starting sock) = True"
| "busy (Serving c) = True"
| "busy Crashed = True"
| "busy _ = False"

fun pending :: "server_phase \<Rightarrow> tcp_stream list" where
  "pending (Dispatching sock) = [sock]"
| "pending _ = []"

fun signals_left :: "server_phase \<Rightarrow> nat" where
  "signals_left (Cleaning n) = n"
| "signals_left _ = 0"

fun closing :: "server_phase \<Rightarrow> bool" where
  "closing (Cleaning n) = True"
| "closing Joining = True"
| "closing Finished = True"
| "closing _ = False"

definition stopped_count :: "server \<Rightarrow> nat" where
  "stopped_count s = length (filter (\<lambda>ws. ws = Stopped) (workers s))"

definition busy_count :: "server \<Rightarrow> nat" where
  "busy_count s = length (filter busy (workers s))"

definition queue_ok :: "server \<Rightarrow> bool" where
  "queue_ok s \<longleftrightarrow> (\<exists>cs k. work_queue s = map NewConnection cs @ replicate k ShutdownWorker \<and>
     k + stopped_count s + signals_left (srv_phase s) = (if closing (srv_phase s) then length (workers s) else 0) \<and>
     (stopped_count s = 0 \<or> cs = []))"

definition counts_ok :: "server \<Rightarrow> bool" where
  "counts_ok s \<longleftrightarrow> length (workers s) < 2 ^ 64 \<and> unat (active_count s) = busy_count s \<and>
     length (work_queue s) \<le> unat (max_connections (srv_config s)) \<and>
     (closing (srv_phase s) \<longrightarrow> shutdown_flag s) \<and> (srv_phase s = Finished \<longrightarrow> list_all has_ended (workers s)) \<and>
     srv_phase s \<noteq> NotRunning"

lemma filter_update_length:
  "i < length xs \<Longrightarrow> length (filter P (xs[i := x])) + (if P (xs ! i) then 1 else 0) =
   length (filter P xs) + (if P x then 1 else 0)"
proof (induction xs arbitrary: i)
  case (Cons y ys)
  then show ?case by (cases i) auto
qed simp

lemma set_worker_counts:
  assumes "i < length (workers s)"
  shows "busy_count (set_worker i ws s) + (if busy (workers s ! i) then 1 else 0) = busy_count s + (if busy ws then 1 else 0)"
    and "stopped_count (set_worker i ws s) + (if workers s ! i = Stopped then 1 else 0) =
      stopped_count s + (if ws = Stopped then 1 else 0)"
  using filter_update_length [OF assms, of busy ws] filter_update_length [OF assms, of "\<lambda>ws. ws = Stopped" ws]
  by (simp_all add: busy_count_def stopped_count_def set_worker_def)

lemma set_worker_fields [simp]:
  "srv_phase (set_worker i ws s) = srv_phase s" "work_queue (set_worker i ws s) = work_queue s"
  "active_count (set_worker i ws s) = active_count s" "shutdown_flag (set_worker i ws s) = shutdown_flag s"
  "srv_config (set_worker i ws s) = srv_config s" "length (workers (set_worker i ws s)) = length (workers s)"
  by (simp_all add: set_worker_def)

lemma counts_cong [simp]:
  "busy_count (s\<lparr>srv_phase := ph\<rparr>) = busy_count s" "stopped_count (s\<lparr>srv_phase := ph\<rparr>) = stopped_count s"
  "busy_count (s\<lparr>work_queue := q\<rparr>) = busy_count s" "stopped_count (s\<lparr>work_queue := q\<rparr>) = stopped_count s"
  "busy_count (s\<lparr>active_count := a\<rparr>) = busy_count s" "stopped_count (s\<lparr>active_count := a\<rparr>) = stopped_count s"
  "busy_count (s\<lparr>shutdown_flag := b\<rparr>) = busy_count s" "stopped_count (s\<lparr>shutdown_flag := b\<rparr>) = stopped_count s"
  "busy_count (s\<lparr>srv_engine := e\<rparr>) = busy_count s" "stopped_count (s\<lparr>srv_engine := e\<rparr>) = stopped_count s"
  "busy_count (s\<lparr>srv_world := w\<rparr>) = busy_count s" "stopped_count (s\<lparr>srv_world := w\<rparr>) = stopped_count s"
  by (simp_all add: busy_count_def stopped_count_def)

lemma busy_count_le: "busy_count s \<le> length (workers s)"
  by (simp add: busy_count_def)

text \<open>A worker that goes from one state to another, with the counter moved by the same amount.\<close>

lemma worker_change_counts:
  assumes ok: "counts_ok s" and i: "i < length (workers s)" and live: "\<not> has_ended (workers s ! i)"
    and cnt: "unat n + (if busy (workers s ! i) then 1 else 0) = unat (active_count s) + (if busy ws then 1 else 0)"
  shows "counts_ok (set_worker i ws (s\<lparr>active_count := n\<rparr>))"
proof -
  have "busy_count (set_worker i ws (s\<lparr>active_count := n\<rparr>)) + (if busy (workers s ! i) then 1 else 0) =
      busy_count s + (if busy ws then 1 else 0)"
    using set_worker_counts(1) [of i "s\<lparr>active_count := n\<rparr>" ws] i by simp
  moreover have "srv_phase s \<noteq> Finished" using ok i live by (auto simp: counts_ok_def list_all_length)
  ultimately show ?thesis using ok cnt by (simp add: counts_ok_def)
qed

lemma worker_change_queue:
  assumes ok: "queue_ok s" and i: "i < length (workers s)" and "workers s ! i \<noteq> Stopped" and "ws \<noteq> Stopped"
  shows "queue_ok (set_worker i ws s)"
proof -
  have "stopped_count (set_worker i ws s) = stopped_count s" using set_worker_counts(2) [OF i, of ws] assms(3,4) by simp
  then show ?thesis using ok unfolding queue_ok_def set_worker_fields by simp
qed

lemma queue_ok_cong:
  assumes "work_queue t = work_queue s" and "stopped_count t = stopped_count s"
    and "signals_left (srv_phase t) = signals_left (srv_phase s)" and "closing (srv_phase t) = closing (srv_phase s)"
    and "length (workers t) = length (workers s)"
  shows "queue_ok t = queue_ok s"
  unfolding queue_ok_def assms ..

lemma word_pred_succ: "0 < unat (n :: 64 word) \<Longrightarrow> unat (n - 1) + 1 = unat n"
  by (simp add: unat_sub word_le_nat_alt unat_gt_0 Suc_leI)

lemma word_succ_unat: "unat (n :: 64 word) < k \<Longrightarrow> k < 2 ^ 64 \<Longrightarrow> unat (n + 1) = unat n + 1"
  by (simp add: unat_word_ariths)

text \<open>Every step keeps the counts.\<close>

lemma receive_counts:
  assumes ok: "counts_ok s" and i: "i < length (workers s)" "workers s ! i = Waiting"
  shows "counts_ok (worker_receive i msg s)"
proof (cases msg)
  case (NewConnection sock)
  have "busy_count s < length (workers s)"
    using set_worker_counts(1) [OF i(1), of Crashed] i(2) busy_count_le [of "set_worker i Crashed s"] by simp
  then have "unat (active_count s + 1) = unat (active_count s) + 1"
    using ok word_succ_unat [of "active_count s" "length (workers s)"] unfolding counts_ok_def by metis
  with worker_change_counts [OF ok i(1), of "active_count s + 1" "Starting sock"] NewConnection i(2) show ?thesis by simp
next
  case ShutdownWorker
  with worker_change_counts [OF ok i(1), of "active_count s" Stopped] i(2) show ?thesis by simp
qed

lemma busy_positive:
  assumes "counts_ok s" and "i < length (workers s)" and "busy (workers s ! i)"
  shows "0 < unat (active_count s)"
  using assms set_worker_counts(1) [OF assms(2), of Waiting] by (simp add: counts_ok_def)

lemma connect_counts:
  assumes ok: "counts_ok s" and i: "i < length (workers s)" "workers s ! i = Starting sock"
  shows "counts_ok (worker_connect i sock s)"
proof -
  note pos = word_pred_succ [OF busy_positive [OF ok i(1)]]
  show ?thesis
    using worker_change_counts [OF ok i(1), of "active_count s"] worker_change_counts [OF ok i(1), of "active_count s - 1" Waiting]
      pos i(2) by (simp add: worker_connect_def split: outcome.split)
qed

lemma turn_counts:
  assumes ok: "counts_ok s" and i: "i < length (workers s)" "workers s ! i = Serving c"
  shows "counts_ok (worker_turn L i c s)"
proof -
  obtain r c' e w where h: "handle_once L (c, srv_engine s, srv_world s) = (r, c', e, w)" by (metis prod_cases4)
  let ?s = "s\<lparr>srv_engine := e, srv_world := w\<rparr>"
  have ok': "counts_ok ?s" using ok by (simp add: counts_ok_def)
  have i': "i < length (workers ?s)" "workers ?s ! i = Serving c" using i by simp_all
  note pos = word_pred_succ [OF busy_positive [OF ok' i'(1)]]
  show ?thesis
    using worker_change_counts [OF ok' i'(1), of "active_count ?s"] worker_change_counts [OF ok' i'(1), of "active_count ?s - 1" Waiting]
      pos i'(2) by (simp add: worker_turn_def h Let_def split: option.split outcome.split)
qed

lemma step_counts: "server_step L s s' \<Longrightarrow> counts_ok s \<Longrightarrow> counts_ok s'"
proof (induction rule: server_step.induct)
  case (hand_over s n i)
  have "counts_ok (s\<lparr>srv_phase := Cleaning n\<rparr>)" using hand_over by (simp add: counts_ok_def)
  with receive_counts [of "s\<lparr>srv_phase := Cleaning n\<rparr>" i ShutdownWorker] hand_over show ?case by simp
next
  case (receive i s msg rest)
  have "counts_ok (s\<lparr>work_queue := rest\<rparr>)" using receive by (simp add: counts_ok_def)
  with receive_counts [of "s\<lparr>work_queue := rest\<rparr>" i msg] receive show ?case by simp
next
  case (connect i s sock)
  then show ?case by (simp add: connect_counts)
next
  case (turn i s c)
  then show ?case by (simp add: turn_counts)
qed (auto simp: counts_ok_def accept_connection_def send_message_def channel_full_def shutdown_def)

text \<open>Every step keeps the shape of the queue: connections first, then the signals of the cleanup.\<close>

lemma receive_queue:
  assumes ok: "queue_ok s" and i: "i < length (workers s)" "workers s ! i = Waiting" and q: "work_queue s = msg # rest"
  shows "queue_ok (worker_receive i msg (s\<lparr>work_queue := rest\<rparr>))"
proof -
  from ok obtain cs k where cs: "work_queue s = map NewConnection cs @ replicate k ShutdownWorker"
    and k: "k + stopped_count s + signals_left (srv_phase s) = (if closing (srv_phase s) then length (workers s) else 0)"
    and st: "stopped_count s = 0 \<or> cs = []" by (auto simp: queue_ok_def)
  show ?thesis
  proof (cases cs)
    case Nil
    then obtain k' where k': "k = Suc k'" "msg = ShutdownWorker" "rest = replicate k' ShutdownWorker"
      using cs q by (cases k) auto
    have "stopped_count (set_worker i Stopped (s\<lparr>work_queue := rest\<rparr>)) = Suc (stopped_count s)"
      using set_worker_counts(2) [of i "s\<lparr>work_queue := rest\<rparr>" Stopped] i by simp
    then show ?thesis unfolding queue_ok_def using k k' by (intro exI [of _ "[]"] exI [of _ k']) simp
  next
    case (Cons sock cs')
    then have m: "msg = NewConnection sock" "rest = map NewConnection cs' @ replicate k ShutdownWorker" using cs q by auto
    have "stopped_count (set_worker i (Starting sock) (s\<lparr>work_queue := rest, active_count := active_count s + 1\<rparr>)) = stopped_count s"
      using set_worker_counts(2) [of i "s\<lparr>work_queue := rest, active_count := active_count s + 1\<rparr>" "Starting sock"] i by simp
    then show ?thesis unfolding queue_ok_def m using k st Cons by (intro exI [of _ cs'] exI [of _ k]) simp
  qed
qed

lemma send_queue:
  assumes ok: "queue_ok s"
  shows "srv_phase s = Dispatching sock \<Longrightarrow> queue_ok (send_message (NewConnection sock) (s\<lparr>srv_phase := Accepting\<rparr>))"
    and "srv_phase s = Cleaning (Suc n) \<Longrightarrow> queue_ok (send_message ShutdownWorker (s\<lparr>srv_phase := Cleaning n\<rparr>))"
proof -
  from ok obtain cs k where cs: "work_queue s = map NewConnection cs @ replicate k ShutdownWorker"
    and k: "k + stopped_count s + signals_left (srv_phase s) = (if closing (srv_phase s) then length (workers s) else 0)"
    and st: "stopped_count s = 0 \<or> cs = []" by (auto simp: queue_ok_def)
  show "queue_ok (send_message (NewConnection sock) (s\<lparr>srv_phase := Accepting\<rparr>))" if "srv_phase s = Dispatching sock"
    unfolding queue_ok_def using cs k st that by (intro exI [of _ "cs @ [sock]"] exI [of _ k]) (simp add: send_message_def)
  show "queue_ok (send_message ShutdownWorker (s\<lparr>srv_phase := Cleaning n\<rparr>))" if "srv_phase s = Cleaning (Suc n)"
    unfolding queue_ok_def using cs k st that
    by (intro exI [of _ cs] exI [of _ "Suc k"]) (simp add: send_message_def replicate_append_same)
qed

lemma connect_turn_queue:
  assumes "queue_ok s" and "i < length (workers s)"
  shows "workers s ! i = Starting sock \<Longrightarrow> queue_ok (worker_connect i sock s)"
    and "workers s ! i = Serving c \<Longrightarrow> queue_ok (worker_turn L i c s)"
proof -
  have upd: "queue_ok (set_worker i ws t)"
    if "workers s ! i \<noteq> Stopped" "ws \<noteq> Stopped" "work_queue t = work_queue s" "srv_phase t = srv_phase s" "workers t = workers s" for t ws
    using that assms queue_ok_cong [of t s] worker_change_queue [of t i ws] by (simp add: stopped_count_def)
  show "queue_ok (worker_connect i sock s)" if "workers s ! i = Starting sock"
    using that by (auto simp: worker_connect_def intro: upd split: outcome.split)
  show "queue_ok (worker_turn L i c s)" if "workers s ! i = Serving c"
    using that by (auto simp: worker_turn_def Let_def intro!: upd split: prod.split option.split outcome.split)
qed

lemma step_queue: "server_step L s s' \<Longrightarrow> queue_ok s \<Longrightarrow> queue_ok s'"
proof (induction rule: server_step.induct)
  case (poll s)
  then show ?case using queue_ok_cong [of "s\<lparr>srv_phase := Polling\<rparr>" s] by simp
next
  case (no_client s)
  then show ?case using queue_ok_cong [of "s\<lparr>srv_phase := Accepting\<rparr>" s] by simp
next
  case (client s sock)
  then show ?case using queue_ok_cong [of "accept_connection sock s" s] by (simp add: accept_connection_def)
next
  case (leave s)
  then show ?case by (auto simp: queue_ok_def)
next
  case (hand_over s n i)
  have "stopped_count (set_worker i Stopped (s\<lparr>srv_phase := Cleaning n\<rparr>)) = Suc (stopped_count s)"
    using set_worker_counts(2) [of i "s\<lparr>srv_phase := Cleaning n\<rparr>" Stopped] hand_over by simp
  with hand_over show ?case by (auto simp: queue_ok_def)
next
  case (cleaned s)
  then show ?case using queue_ok_cong [of "s\<lparr>srv_phase := Joining\<rparr>" s] by simp
next
  case (joined s)
  then show ?case using queue_ok_cong [of "s\<lparr>srv_phase := Finished\<rparr>" s] by simp
next
  case (signal s)
  then show ?case using queue_ok_cong [of "shutdown s" s] by (simp add: shutdown_def)
next
  case (environment s t f)
  then show ?case using queue_ok_cong [of "s\<lparr>srv_world := (srv_world s)\<lparr>faults := f, now := t\<rparr>\<rparr>" s] by simp
qed (simp_all add: send_queue receive_queue connect_turn_queue)

subsection \<open>Connections are neither lost nor reordered\<close>

lemma connections_of_append [simp]: "connections_of (p @ q) = connections_of p @ connections_of q"
  by (induction p rule: connections_of.induct) simp_all

lemma connections_of_split: "connections_of [m] @ connections_of q = connections_of (m # q)"
  by (cases m) simp_all

lemma worker_effects [simp]:
  "work_queue (worker_receive i msg s) = work_queue s" "srv_phase (worker_receive i msg s) = srv_phase s"
  "work_queue (worker_connect i sock s) = work_queue s" "srv_phase (worker_connect i sock s) = srv_phase s"
  "work_queue (worker_turn L i c s) = work_queue s" "srv_phase (worker_turn L i c s) = srv_phase s"
  by (cases msg; simp add: worker_connect_def worker_turn_def Let_def split: outcome.split prod.split option.split)+

lemma step_history:
  assumes "server_step L s s'"
  shows "connections_of (work_queue s) @ pending (srv_phase s) @ newly_accepted s s' =
    newly_started s s' @ connections_of (work_queue s') @ pending (srv_phase s')"
  using assms
  by (induction rule: server_step.induct)
    (auto simp: newly_started_def accept_connection_def send_message_def shutdown_def connections_of_split split: server_phase.split)

lemma spawn_workers_effect:
  "spawn_workers ns s = (Ok (), s') \<Longrightarrow> s' = s\<lparr>workers := workers s @ replicate (length ns) Waiting\<rparr>"
  by (induction ns s rule: spawn_workers.induct) simp_all

lemma started_ok:
  assumes "server_start bound nonblocking available spawned (server_new cfg ew) = (Ok (), s)" and "num_cpus available < 2 ^ 64"
  shows "counts_ok s" and "queue_ok s" and "work_queue s = []" and "srv_phase s = Accepting"
    and "length (workers s) = num_cpus available"
proof -
  obtain s1 where s1: "spawn_workers (map spawned [0..<num_cpus available]) (server_new cfg ew) = (Ok (), s1)"
    and s: "s = s1\<lparr>srv_phase := Accepting\<rparr>"
    using assms(1)
    by (cases "spawn_workers (map spawned [0..<num_cpus available]) (server_new cfg ew)";
        cases "fst (spawn_workers (map spawned [0..<num_cpus available]) (server_new cfg ew))")
      (auto simp: server_start_def from_io_def split: outcome.splits elim!: andThen.elims)
  from spawn_workers_effect [OF s1] have "s = (server_new cfg ew)\<lparr>workers := replicate (num_cpus available) Waiting, srv_phase := Accepting\<rparr>"
    by (simp add: s server_new_def)
  then show "counts_ok s" "queue_ok s" "work_queue s = []" "srv_phase s = Accepting" "length (workers s) = num_cpus available"
    using assms(2) by (simp_all add: counts_ok_def queue_ok_def busy_count_def stopped_count_def server_new_def)
qed

lemma server_invariant:
  assumes "server_runs L s acc st"
  shows "counts_ok s" and "queue_ok s" and "acc = st @ connections_of (work_queue s) @ pending (srv_phase s)"
proof -
  from assms have "counts_ok s \<and> queue_ok s \<and> acc = st @ connections_of (work_queue s) @ pending (srv_phase s)"
  proof (induction rule: server_runs.induct)
    case (started bound nonblocking available spawned cfg ew s)
    with started_ok [OF started] show ?case by simp
  next
    case (stepped s acc st s')
    with step_history [OF stepped(2)] step_counts [OF stepped(2)] step_queue [OF stepped(2)] show ?case by simp
  qed
  then show "counts_ok s" "queue_ok s" "acc = st @ connections_of (work_queue s) @ pending (srv_phase s)" by simp_all
qed

subsection \<open>The shutdown comes to an end\<close>

text \<open>
  \<open>work_left\<close> bounds what is left to do in a shutdown: signals to send, messages to receive,
  bytes of the clients' streams to read.
\<close>

fun message_work :: "worker_message \<Rightarrow> nat" where
  "message_work (NewConnection sock) = length (inbox (tcp_in sock)) + 3"
| "message_work ShutdownWorker = 1"

fun worker_work :: "worker_state \<Rightarrow> nat" where
  "worker_work Waiting = 1"
| "worker_work (Starting sock) = length (inbox (tcp_in sock)) + 3"
| "worker_work (Serving c) = length (inbox (conn_reader c)) + 2"
| "worker_work _ = 0"

fun phase_work :: "server_phase \<Rightarrow> nat" where
  "phase_work (Cleaning n) = 2 * n + 2"
| "phase_work Joining = 1"
| "phase_work _ = 0"

definition work_left :: "server \<Rightarrow> nat" where
  "work_left s = sum_list (map message_work (work_queue s)) + sum_list (map worker_work (workers s)) + phase_work (srv_phase s)"

lemma sum_list_update_nat:
  "i < length xs \<Longrightarrow> sum_list (map f (xs[i := x])) + f (xs ! i) = sum_list (map f xs) + (f x :: nat)"
proof (induction xs arbitrary: i)
  case (Cons y ys)
  then show ?case by (cases i) auto
qed simp

lemma set_worker_work:
  assumes "i < length (workers s)" and "worker_work ws < worker_work (workers s ! i)"
  shows "work_left (set_worker i ws s) < work_left s"
  using sum_list_update_nat [OF assms(1), of worker_work ws] assms(2) by (simp add: work_left_def set_worker_def)

lemma socket_call_in: "tcp_in (f s) = tcp_in s \<Longrightarrow> (\<And>r. tcp_in (f (s\<lparr>tcp_faults := r\<rparr>)) = tcp_in s) \<Longrightarrow> tcp_in (snd (socket_call f s)) = tcp_in s"
  by (auto split: list.split option.split)

lemma connection_new_reader: "connection_new sock = Ok c \<Longrightarrow> conn_reader c = tcp_in sock"
  by (auto simp: connection_new_def Let_def split: list.splits option.splits elim!: andThen.elims)

interpretation same_reader: effect_order "\<lambda>c c'. conn_reader c' = conn_reader (c :: connection)"
  by unfold_locales simp_all

lemma set_timeouts_reader: "conn_reader (snd (set_timeouts r w c)) = conn_reader c"
  unfolding set_timeouts_def by (intro same_reader.keeps_intros) (simp_all add: on_stream_def split: prod.split)

lemma connect_work:
  assumes "i < length (workers s)" and "workers s ! i = Starting sock"
  shows "work_left (worker_connect i sock s) < work_left s"
  using set_worker_work [of i s] set_worker_work [of i "s\<lparr>active_count := active_count s - 1\<rparr>" Waiting] assms
  by (auto simp: worker_connect_def set_timeouts_reader connection_new_reader work_left_def split: outcome.split)

lemma turn_work:
  assumes i: "i < length (workers s)" "workers s ! i = Serving c"
  shows "work_left (worker_turn L i c s) < work_left s"
proof -
  obtain r c' e w where h: "handle_once L (c, srv_engine s, srv_world s) = (r, c', e, w)" by (metis prod_cases4)
  let ?s = "s\<lparr>srv_engine := e, srv_world := w\<rparr>"
  have same: "work_left ?s = work_left s" "work_left (?s\<lparr>active_count := n\<rparr>) = work_left s" for n by (simp_all add: work_left_def)
  have "worker_work (Serving c') < worker_work (Serving c)" if "r = None" using handle_once_consumes h that by simp
  then show ?thesis
    using set_worker_work [of i ?s "Serving c'"] set_worker_work [of i ?s Crashed]
      set_worker_work [of i "?s\<lparr>active_count := active_count s - 1\<rparr>" Waiting] i same
    by (auto simp: worker_turn_def h Let_def split: option.split outcome.split)
qed

lemma receive_work:
  assumes "i < length (workers s)" and "workers s ! i = Waiting"
  shows "work_left (worker_receive i msg s) + 1 = work_left s + (if msg = ShutdownWorker then 0 else message_work msg)"
proof (cases msg)
  case (NewConnection sock)
  with sum_list_update_nat [OF assms(1), of worker_work "Starting sock"] assms(2) show ?thesis
    by (simp add: work_left_def set_worker_def)
next
  case ShutdownWorker
  with sum_list_update_nat [OF assms(1), of worker_work Stopped] assms(2) show ?thesis
    by (simp add: work_left_def set_worker_def)
qed

text \<open>The steps that are not the outside world's.\<close>

definition outside_step :: "server \<Rightarrow> server \<Rightarrow> bool" where
  "outside_step s s' \<longleftrightarrow> s' = shutdown s \<or> (\<exists>f t. s' = s\<lparr>srv_world := (srv_world s)\<lparr>faults := f, now := t\<rparr>\<rparr>)"

lemma step_work:
  assumes "server_step L s s'" and "closing (srv_phase s)"
  shows "work_left s' < work_left s \<or> outside_step s s'"
  using assms
proof (induction rule: server_step.induct)
  case (clean s n)
  then show ?case by (simp add: work_left_def send_message_def)
next
  case (hand_over s n i)
  then show ?case using receive_work [of i "s\<lparr>srv_phase := Cleaning n\<rparr>" ShutdownWorker] by (simp add: work_left_def)
next
  case (receive i s msg rest)
  then show ?case using receive_work [of i "s\<lparr>work_queue := rest\<rparr>" msg] by (cases msg) (simp_all add: work_left_def)
next
  case (connect i s sock)
  then show ?case by (simp add: connect_work)
next
  case (turn i s c)
  then show ?case by (simp add: turn_work)
qed (auto simp: work_left_def outside_step_def)

lemma live_worker_steps:
  assumes "i < length (workers s)" and "\<not> has_ended (workers s ! i)" and "workers s ! i = Waiting \<Longrightarrow> work_queue s \<noteq> []"
    and "closing (srv_phase s)"
  shows "\<exists>s'. server_step L s s' \<and> work_left s' < work_left s"
proof (cases "workers s ! i")
  case Waiting
  then obtain msg rest where "work_queue s = msg # rest" using assms(3) by (cases "work_queue s") auto
  from server_step.receive [OF assms(1) Waiting this] receive_work [of i "s\<lparr>work_queue := rest\<rparr>" msg] assms(1) Waiting this
  show ?thesis by (cases msg) (fastforce simp: work_left_def)+
next
  case (Starting sock)
  from server_step.connect [OF assms(1) this] connect_work [OF assms(1) this] show ?thesis by blast
next
  case (Serving c)
  from server_step.turn [OF assms(1) this] turn_work [OF assms(1) this] show ?thesis by blast
qed (use assms(2) in simp_all)

lemma not_all_stopped:
  assumes "stopped_count s < length (workers s)" and "Crashed \<notin> set (workers s)"
  obtains i where "i < length (workers s)" and "\<not> has_ended (workers s ! i)"
proof -
  have "\<not> list_all has_ended (workers s)"
  proof
    assume "list_all has_ended (workers s)"
    then have "\<forall>ws \<in> set (workers s). ws = Stopped" using assms(2) by (auto simp: list_all_iff elim: has_ended.elims)
    then show False using assms(1) by (simp add: stopped_count_def)
  qed
  then show ?thesis using that by (auto simp: list_all_length)
qed

lemma closing_progress:
  assumes counts: "counts_ok s" and queue: "queue_ok s" and cl: "closing (srv_phase s)" and run: "srv_phase s \<noteq> Finished"
    and alive: "Crashed \<notin> set (workers s)"
  shows "\<exists>s'. server_step L s s' \<and> work_left s' < work_left s"
proof -
  from queue cl obtain cs k where q: "work_queue s = map NewConnection cs @ replicate k ShutdownWorker"
    and k: "k + stopped_count s + signals_left (srv_phase s) = length (workers s)" by (auto simp: queue_ok_def)
  consider (sent) "srv_phase s = Cleaning 0" | (more) n where "srv_phase s = Cleaning (Suc n)" | (join) "srv_phase s = Joining"
    using cl run by (cases "srv_phase s" rule: closing.cases) (auto, metis not0_implies_Suc)
  then show ?thesis
  proof cases
    case sent
    with server_step.cleaned show ?thesis by (fastforce simp: work_left_def)
  next
    case more
    then obtain i where i: "i < length (workers s)" "\<not> has_ended (workers s ! i)" using k not_all_stopped [OF _ alive] by auto
    show ?thesis
    proof (cases "channel_full s")
      case False
      from server_step.clean [OF more this] more show ?thesis by (fastforce simp: work_left_def send_message_def)
    next
      case True
      show ?thesis
      proof (cases "max_connections (srv_config s) = 0 \<and> workers s ! i = Waiting")
        case zero: True
        then have "work_queue s = []" using counts by (simp add: counts_ok_def)
        from server_step.hand_over [OF more _ i(1) _ this] zero receive_work [of i "s\<lparr>srv_phase := Cleaning n\<rparr>" ShutdownWorker] i more
        show ?thesis by (fastforce simp: work_left_def)
      next
        case pos: False
        have "work_queue s \<noteq> []" if "workers s ! i = Waiting"
          using True pos that by (auto simp: channel_full_def unat_eq_0)
        then show ?thesis by (rule live_worker_steps [OF i _ cl])
      qed
    qed
  next
    case join
    show ?thesis
    proof (cases "list_all has_ended (workers s)")
      case True
      from server_step.joined [OF join this] join show ?thesis by (fastforce simp: work_left_def)
    next
      case False
      then obtain i where i: "i < length (workers s)" "\<not> has_ended (workers s ! i)" by (auto simp: list_all_length)
      have "workers s ! i \<noteq> Stopped" using i(2) by auto
      then have "stopped_count s < length (workers s)"
        using filter_update_length [OF i(1), of "\<lambda>ws. ws = Stopped" Stopped]
          length_filter_le [of "\<lambda>ws. ws = Stopped" "(workers s)[i := Stopped]"] by (simp add: stopped_count_def)
      then have "work_queue s \<noteq> []" using q k join by auto
      then show ?thesis by (intro live_worker_steps [OF i _ cl])
    qed
  qed
qed

subsection \<open>Properties\<close>

text \<open>A server with two workers, for the witnesses.\<close>

definition demo_server :: server where
  "demo_server = (server_new demo_config (demo_engine, demo_opened))\<lparr>workers := [Waiting, Waiting], srv_phase := Accepting\<rparr>"

lemma demo_server_runs: "server_runs ref_libs demo_server [] []"
proof -
  have "server_start (Ok ()) (Ok ()) (Some 2) (\<lambda>_. None) (server_new demo_config (demo_engine, demo_opened)) = (Ok (), demo_server)"
    by (simp add: server_start_def num_cpus_def demo_server_def server_new_def from_io_def upt_rec numeral_2_eq_2)
  then show ?thesis by (rule started) (simp add: num_cpus_def)
qed

text \<open>C27: The counter of active connections is the number of workers that serve a connection (or died
  serving one), so it never exceeds the number of workers; the channel holds at most
  \<open>max_connections\<close> messages; with fewer workers than \<open>max_connections\<close> the limit of the accept loop
  is never reached and no connection is ever rejected.\<close>

theorem server_bounds:
  assumes "server_runs L s acc st"
  shows "unat (active_connections s) = busy_count s \<and> busy_count s \<le> length (workers s) \<and>
    length (work_queue s) \<le> unat (max_connections (srv_config s)) \<and>
    (length (workers s) < unat (max_connections (srv_config s)) \<longrightarrow>
      (\<forall>sock. accept_connection sock s = s\<lparr>srv_phase := Dispatching sock\<rparr>))"
proof -
  have ok: "counts_ok s" by (rule server_invariant [OF assms])
  have "\<not> max_connections (srv_config s) \<le> active_count s" if "length (workers s) < unat (max_connections (srv_config s))"
    using ok that busy_count_le [of s] by (simp add: counts_ok_def word_le_nat_alt)
  with ok busy_count_le [of s] show ?thesis by (auto simp: counts_ok_def active_connections_def accept_connection_def)
qed

theorem server_bounds_witness: "unat (active_connections demo_server) = busy_count demo_server"
  using server_bounds [OF demo_server_runs] by blast




definition demo_finished :: server where
  "demo_finished = demo_server\<lparr>shutdown_flag := True, workers := [Stopped, Stopped], srv_phase := Finished\<rparr>"

lemma demo_closing: "\<exists>acc st. server_runs ref_libs (demo_server\<lparr>shutdown_flag := True, srv_phase := Cleaning 2\<rparr>) acc st"
proof -
  have "server_step ref_libs demo_server (shutdown demo_server)" by (rule signal)
  moreover have "server_step ref_libs (shutdown demo_server) ((shutdown demo_server)\<lparr>srv_phase := Cleaning (length (workers (shutdown demo_server)))\<rparr>)"
    by (rule leave) (simp_all add: shutdown_def demo_server_def)
  moreover have "(shutdown demo_server)\<lparr>srv_phase := Cleaning (length (workers (shutdown demo_server)))\<rparr> =
      demo_server\<lparr>shutdown_flag := True, srv_phase := Cleaning 2\<rparr>" by (simp add: shutdown_def demo_server_def)
  ultimately show ?thesis using stepped [OF stepped [OF demo_server_runs]] by metis
qed

lemma demo_run_finished: "\<exists>acc st. server_runs ref_libs demo_finished acc st"
proof -
  let ?s = "demo_server\<lparr>shutdown_flag := True\<rparr>"
  have go: "\<exists>acc st. server_runs ref_libs s' acc st" if "\<exists>acc st. server_runs ref_libs s acc st" "server_step ref_libs s s'" for s s'
    using that stepped by metis
  have "server_step ref_libs (?s\<lparr>srv_phase := Cleaning (Suc (Suc 0))\<rparr>)
      (send_message ShutdownWorker (?s\<lparr>srv_phase := Cleaning (Suc (Suc 0)), srv_phase := Cleaning (Suc 0)\<rparr>))"
    by (rule clean) (simp_all add: channel_full_def demo_server_def server_new_def demo_config_def config_default_def)
  from go [OF demo_closing [unfolded numeral_2_eq_2] this]
  have 1: "\<exists>acc st. server_runs ref_libs (?s\<lparr>srv_phase := Cleaning (Suc 0), work_queue := [ShutdownWorker]\<rparr>) acc st"
    by (simp add: send_message_def demo_server_def server_new_def)
  have "server_step ref_libs (?s\<lparr>srv_phase := Cleaning (Suc 0), work_queue := [ShutdownWorker]\<rparr>)
      (send_message ShutdownWorker (?s\<lparr>srv_phase := Cleaning (Suc 0), work_queue := [ShutdownWorker], srv_phase := Cleaning 0\<rparr>))"
    by (rule clean) (simp_all add: channel_full_def demo_server_def server_new_def demo_config_def config_default_def)
  from go [OF 1 this] have 2: "\<exists>acc st. server_runs ref_libs (?s\<lparr>srv_phase := Cleaning 0, work_queue := [ShutdownWorker, ShutdownWorker]\<rparr>) acc st"
    by (simp add: send_message_def)
  from go [OF 2 cleaned] have 3: "\<exists>acc st. server_runs ref_libs (?s\<lparr>srv_phase := Joining, work_queue := [ShutdownWorker, ShutdownWorker]\<rparr>) acc st"
    by (simp add: demo_server_def server_new_def)
  have "server_step ref_libs (?s\<lparr>srv_phase := Joining, work_queue := [ShutdownWorker, ShutdownWorker]\<rparr>)
      (worker_receive 0 ShutdownWorker (?s\<lparr>srv_phase := Joining, work_queue := [ShutdownWorker, ShutdownWorker], work_queue := [ShutdownWorker]\<rparr>))"
    by (rule receive) (simp_all add: demo_server_def)
  from go [OF 3 this] have 4: "\<exists>acc st. server_runs ref_libs (?s\<lparr>srv_phase := Joining, work_queue := [ShutdownWorker], workers := [Stopped, Waiting]\<rparr>) acc st"
    by (simp add: set_worker_def demo_server_def server_new_def)
  have "server_step ref_libs (?s\<lparr>srv_phase := Joining, work_queue := [ShutdownWorker], workers := [Stopped, Waiting]\<rparr>)
      (worker_receive 1 ShutdownWorker (?s\<lparr>srv_phase := Joining, work_queue := [ShutdownWorker], workers := [Stopped, Waiting], work_queue := []\<rparr>))"
    by (rule receive) simp_all
  from go [OF 4 this] have 5: "\<exists>acc st. server_runs ref_libs (?s\<lparr>srv_phase := Joining, work_queue := [], workers := [Stopped, Stopped]\<rparr>) acc st"
    by (simp add: set_worker_def demo_server_def server_new_def)
  from go [OF 5 joined] show ?thesis by (simp add: demo_finished_def demo_server_def server_new_def)
qed




end
