(* ===== verification/Service.thy ===== *)
theory Service
  imports Server Simulation
begin

section \<open>The server as one store (src/src/network/, src/src/engine.rs)\<close>

text \<open>
  All clients together: the commands the workers execute, in the order in which they reach the
  engine, with the responses the workers compute. \<open>service_step\<close> puts these events on the steps of
  the server. The abstract store is a map; a command is answered from it, or fails with an error
  response or with the death of the worker, and then it took effect or not. Commands that exceed
  the limits of the formats (\<open>room_for\<close>: a full id or LSN space, tables beyond the sizes of the
  file format) are left out. A turn of a worker is one step here; that the parts of an operation
  of the engine may interleave with lookups of other workers is the matter of \<open>Readers\<close>.
\<close>

datatype service_event = Executed nat command "response result" | Internal

definition next_command :: "nat \<Rightarrow> server \<Rightarrow> command option" where
  "next_command i s = (case workers s ! i of
     Serving c \<Rightarrow> (case fst (read_command (conn_reader c)) of Ok cmd \<Rightarrow> Some cmd | _ \<Rightarrow> None)
   | _ \<Rightarrow> None)"

definition command_turn :: "'h libs \<Rightarrow> server \<Rightarrow> server \<Rightarrow> bool" where
  "command_turn L s s' \<longleftrightarrow> (\<exists>i < length (workers s). \<exists>c. workers s ! i = Serving c \<and> next_command i s \<noteq> None \<and> s' = worker_turn L i c s)"

inductive service_step :: "'h libs \<Rightarrow> server \<Rightarrow> service_event \<Rightarrow> server \<Rightarrow> bool" for L where
  executes: "i < length (workers s) \<Longrightarrow> workers s ! i = Serving c \<Longrightarrow> next_command i s = Some cmd \<Longrightarrow>
     room_for L cmd (srv_engine s) \<Longrightarrow>
     service_step L s (Executed i cmd (fst (execute_command L cmd (srv_engine s, srv_world s)))) (worker_turn L i c s)"
| internal: "server_step L s s' \<Longrightarrow> \<not> command_turn L s s' \<Longrightarrow> service_step L s Internal s'"

inductive spec_service :: "(bytes \<rightharpoonup> bytes) \<Rightarrow> service_event \<Rightarrow> (bytes \<rightharpoonup> bytes) \<Rightarrow> bool" where
  spec_answered: "spec_service m (Executed i c (Ok (response_ok (fst (spec_exec c m))))) (snd (spec_exec c m))"
| spec_failed: "rsp_status r \<noteq> SOk \<Longrightarrow> m' = m \<or> m' = snd (spec_exec c m) \<Longrightarrow> spec_service m (Executed i c (Ok r)) m'"
| spec_died: "m' = m \<or> m' = snd (spec_exec c m) \<Longrightarrow> spec_service m (Executed i c Panic) m'"
| spec_internal: "spec_service m Internal m"

inductive_cases service_stepE: "service_step L s ev s'"
inductive_cases server_stepE: "server_step L s s'"

text \<open>The steps of the server are the steps of the service, unless a command exceeds the limits of the formats.\<close>

lemma server_step_service:
  assumes "server_step L s s'"
    and "\<And>i cmd. i < length (workers s) \<Longrightarrow> next_command i s = Some cmd \<Longrightarrow> room_for L cmd (srv_engine s)"
  shows "\<exists>ev. service_step L s ev s'"
proof (cases "command_turn L s s'")
  case True
  with executes assms(2) show ?thesis by (fastforce simp: command_turn_def)
next
  case False
  with assms(1) show ?thesis by (blast intro: internal)
qed

subsection \<open>One command\<close>

lemma response_status [simp]:
  "rsp_status response_not_found = SNotFound" "rsp_status (response_error x) = SError"
  by (simp_all add: response_not_found_def response_error_def)

text \<open>What a write leaves behind and what \<open>execute_command\<close> makes of its result.\<close>

lemma execute_write_spec:
  assumes ok: "engine_ok ls e w" and room: "has_room L op e" and run: "execute_command L c (e, w) = (r, e', w')"
    and op: "execute L c (e, w) = andThen (engine_write L op (e, w)) (\<lambda>_ s. (Ok None, s))"
    and spec: "spec_exec c (view ls e) = (None, apply_view op (view ls e))"
  shows "\<exists>ls'. engine_ok ls' e' w' \<and> spec_service (view ls e) (Executed i c r) (view ls' e')"
proof -
  obtain x e1 w1 where x: "engine_write L op (e, w) = (x, e1, w1)" by (metis prod_cases3)
  have "next_free (eng_storage e)" "entries_fit (memtable_iter (snd (memtable_apply op (eng_memtable e))))"
    using room by (simp_all add: has_room_def)
  from engine_write_ok [OF ok this x] obtain ls' where ls': "engine_ok ls' e1 w1"
    "x = Ok () \<Longrightarrow> view ls' e1 = apply_view op (view ls e)"
    "view ls' e1 = view ls e \<or> view ls' e1 = apply_view op (view ls e)" by metis
  have res: "e' = e1" "w' = w1" "r = (case x of Ok _ \<Rightarrow> Ok (response_ok None)
      | Err y \<Rightarrow> Ok (if y = KeyNotFound then response_not_found else response_error (display y)) | Panic \<Rightarrow> Panic)"
    using run op x by (cases x; simp add: execute_command_def)+
  show ?thesis
  proof (cases x)
    case (Ok u)
    with ls' res spec spec_answered [of "view ls e" i c] show ?thesis by auto
  next
    case (Err y)
    with ls' res spec show ?thesis by (auto intro!: exI [of _ ls'] spec_failed)
  next
    case Panic
    with ls' res spec show ?thesis by (auto intro!: exI [of _ ls'] spec_died)
  qed
qed

lemma execute_get_spec:
  assumes ok: "engine_ok ls e w" and run: "execute_command L (Get key) (e, w) = (r, e', w')"
  shows "engine_ok ls e' w' \<and> spec_service (view ls e) (Executed i (Get key) r) (view ls e')"
proof -
  obtain x e1 w1 where x: "engine_get key (e, w) = (x, e1, w1)" by (metis prod_cases3)
  note g = engine_get_ok [OF ok x]
  have res: "e' = e1" "w' = w1" using run x by (cases x; simp add: execute_command_def split: option.splits)+
  from g(4) show ?thesis
  proof
    assume "x = Ok (view ls e key)"
    then have "r = Ok (response_ok (view ls e key))"
      using run x by (simp add: execute_command_def split: option.splits)
    with g res spec_answered [of "view ls e" i "Get key"] show ?thesis by simp
  next
    assume "faults w \<noteq> [] \<and> (\<exists>y. x = Err (Io y))"
    then obtain y where "x = Err (Io y)" by blast
    then have "r = Ok (response_error (display (Io y)))" using run x by (simp add: execute_command_def)
    with g res show ?thesis by (auto intro!: spec_failed)
  qed
qed

lemma execute_command_spec:
  assumes ok: "engine_ok ls e w" and room: "room_for L c e" and run: "execute_command L c (e, w) = (r, e', w')"
  shows "\<exists>ls'. engine_ok ls' e' w' \<and> spec_service (view ls e) (Executed i c r) (view ls' e')"
proof (cases c)
  case (Get key)
  with execute_get_spec [OF ok] run show ?thesis by blast
next
  case (Put key val)
  with execute_write_spec [OF ok _ run, of "OpPut key val"] room show ?thesis by (simp add: engine_write_eq)
next
  case (Delete key)
  with execute_write_spec [OF ok _ run, of "OpDelete key"] room show ?thesis by (simp add: engine_write_eq)
next
  case Ping
  with run ok spec_answered [of "view ls e" i Ping] show ?thesis by (auto simp: execute_command_def)
qed

subsection \<open>One step of the server\<close>

lemma handle_once_store:
  assumes "handle_once L (c, e, w) = (r, c', e', w')"
  shows "fst (read_command (conn_reader c)) = Ok cmd \<Longrightarrow> snd (execute_command L cmd (e, w)) = (e', w')"
    and "(\<And>cmd. fst (read_command (conn_reader c)) \<noteq> Ok cmd) \<Longrightarrow> e' = e \<and> w' = w"
  using assms by (auto simp: handle_once_def Let_def split: prod.splits outcome.splits if_splits)

lemma set_worker_store [simp]:
  "srv_engine (set_worker i ws s) = srv_engine s" "srv_world (set_worker i ws s) = srv_world s"
  by (simp_all add: set_worker_def)

lemma worker_turn_store:
  "(srv_engine (worker_turn L i c s), srv_world (worker_turn L i c s)) = snd (snd (handle_once L (c, srv_engine s, srv_world s)))"
  by (auto simp: worker_turn_def Let_def split: prod.split option.split outcome.split)

lemma worker_turn_executes:
  assumes "workers s ! i = Serving c" and "next_command i s = Some cmd"
  shows "snd (execute_command L cmd (srv_engine s, srv_world s)) = (srv_engine (worker_turn L i c s), srv_world (worker_turn L i c s))"
proof -
  obtain r c' e w where h: "handle_once L (c, srv_engine s, srv_world s) = (r, c', e, w)" by (metis prod_cases4)
  have "fst (read_command (conn_reader c)) = Ok cmd" using assms by (simp add: next_command_def split: outcome.splits)
  from handle_once_store(1) [OF h this] h worker_turn_store [of L i c s] show ?thesis by simp
qed

lemma same_world: "\<exists>f t. w = w\<lparr>faults := f, now := t\<rparr>"
  by (rule exI [of _ "faults w"], rule exI [of _ "now w"]) simp

text \<open>A step that executes no command leaves the engine and the files alone.\<close>

lemma server_step_quiet:
  assumes "server_step L s s'" and "\<not> command_turn L s s'"
  shows "srv_engine s' = srv_engine s \<and> (\<exists>f t. srv_world s' = (srv_world s)\<lparr>faults := f, now := t\<rparr>)"
  using assms
proof cases
  case (turn i c)
  with assms(2) have "next_command i s = None" by (auto simp: command_turn_def)
  then have "fst (read_command (conn_reader c)) \<noteq> Ok cmd" for cmd using turn by (simp add: next_command_def split: outcome.splits)
  moreover obtain r c' e w where h: "handle_once L (c, srv_engine s, srv_world s) = (r, c', e, w)" by (metis prod_cases4)
  ultimately have "e = srv_engine s" "w = srv_world s" using handle_once_store(2) [OF h] by blast+
  with worker_turn_store [of L i c s] h turn show ?thesis by (simp add: same_world)
next
  case (receive i msg rest)
  then show ?thesis by (cases msg) (simp_all add: same_world)
qed (auto simp: accept_connection_def send_message_def shutdown_def worker_connect_def same_world split: outcome.split)

definition store_of :: "server \<Rightarrow> (bytes \<rightharpoonup> bytes) \<Rightarrow> bool" where
  "store_of s m \<longleftrightarrow> (\<exists>ls. engine_ok ls (srv_engine s) (srv_world s) \<and> m = view ls (srv_engine s))"

lemma engine_ok_fs: "fs w' = fs w \<Longrightarrow> engine_ok ls e w' = engine_ok ls e w"
  using storage_holds_fs [of w' w ls] by (simp add: engine_ok_def is_file_def lookup_def)

lemma service_step_simulated:
  assumes rel: "store_of s m" and step: "service_step L s ev s'"
  shows "\<exists>m'. spec_service m ev m' \<and> store_of s' m'"
  using step
proof cases
  case (executes i c cmd)
  let ?t = "worker_turn L i c s"
  obtain x where x: "execute_command L cmd (srv_engine s, srv_world s) = (x, srv_engine ?t, srv_world ?t)"
    using worker_turn_executes [OF executes(4,5)] by (metis prod.collapse)
  from rel obtain ls where "engine_ok ls (srv_engine s) (srv_world s)" "m = view ls (srv_engine s)" by (auto simp: store_of_def)
  with execute_command_spec [OF _ _ x, of ls i] executes x show ?thesis by (auto simp: store_of_def)
next
  case internal
  from server_step_quiet [OF internal(2,3)] have "srv_engine s' = srv_engine s" "fs (srv_world s') = fs (srv_world s)" by auto
  with rel engine_ok_fs [of "srv_world s'" "srv_world s"] have "store_of s' m" by (auto simp: store_of_def)
  with internal show ?thesis by (auto intro: spec_internal)
qed

interpretation service: trace_simulation "service_step L" spec_service store_of for L
  by unfold_locales (rule service_step_simulated)

subsection \<open>What one client sees of another\<close>

fun writes_key :: "bytes \<Rightarrow> service_event \<Rightarrow> bool" where
  "writes_key key (Executed i (Put key' val) r) \<longleftrightarrow> key' = key"
| "writes_key key (Executed i (Delete key') r) \<longleftrightarrow> key' = key"
| "writes_key key ev \<longleftrightarrow> False"

inductive_cases spec_serviceE: "spec_service m ev m'"

lemma spec_exec_other:
  "\<not> writes_key key (Executed i c r) \<Longrightarrow> snd (spec_exec c m) key = m key"
  by (cases c) auto

lemma spec_service_other: "spec_service m ev m' \<Longrightarrow> \<not> writes_key key ev \<Longrightarrow> m' key = m key"
  by (induction rule: spec_service.induct) (auto simp: spec_exec_other)

lemma spec_run_other:
  "trace_run spec_service m tr m' \<Longrightarrow> \<forall>ev \<in> set tr. \<not> writes_key key ev \<Longrightarrow> m' key = m key"
  by (induction rule: trace_run.induct) (auto dest: spec_service_other)

lemma response_ok_status [simp]: "rsp_status (response_ok p) = SOk"
  by (simp add: response_ok_def)

lemma spec_service_acknowledged:
  "spec_service m (Executed i c (Ok r)) m' \<Longrightarrow> rsp_status r = SOk \<Longrightarrow>
   r = response_ok (fst (spec_exec c m)) \<and> m' = snd (spec_exec c m)"
  by (auto elim: spec_serviceE)

subsection \<open>Without input/output errors\<close>

text \<open>
  The runs in which the operating system reports no error and the clock works: there every command
  is answered, and the server is at every moment a session of the engine.
\<close>

definition calm_step :: "'h libs \<Rightarrow> server \<Rightarrow> service_event \<Rightarrow> server \<Rightarrow> bool" where
  "calm_step L s ev s' \<longleftrightarrow> service_step L s ev s' \<and> faults (srv_world s') = [] \<and> now (srv_world s') \<noteq> None"

fun exact_service :: "(bytes \<rightharpoonup> bytes) \<Rightarrow> service_event \<Rightarrow> (bytes \<rightharpoonup> bytes) \<Rightarrow> bool" where
  "exact_service m (Executed i c r) m' \<longleftrightarrow> r = Ok (response_ok (fst (spec_exec c m))) \<and> m' = snd (spec_exec c m)"
| "exact_service m Internal m' \<longleftrightarrow> m' = m"

definition session_of :: "'h libs \<Rightarrow> config \<Rightarrow> server \<Rightarrow> (bytes \<rightharpoonup> bytes) \<Rightarrow> bool" where
  "session_of L cfg s m \<longleftrightarrow> session_holds L cfg (srv_engine s, srv_world s) m"

lemma session_same_files:
  assumes "session_holds L cfg (e, w) m" and "\<exists>f t. w' = w\<lparr>faults := f, now := t\<rparr>" and "faults w' = []" and "now w' \<noteq> None"
  shows "session_holds L cfg (e, w') m"
  using assms by (auto simp: session_holds_def intro: session_environment)

lemma calm_step_simulated:
  assumes rel: "session_of L cfg s m" and step: "calm_step L s ev s'"
  shows "\<exists>m'. exact_service m ev m' \<and> session_of L cfg s' m'"
proof -
  from step have "service_step L s ev s'" and calm: "faults (srv_world s') = []" "now (srv_world s') \<noteq> None"
    by (simp_all add: calm_step_def)
  from this(1) show ?thesis
  proof cases
    case (executes i c cmd)
    from es.exec_refines [OF rel [unfolded session_of_def], of cmd] executes
      worker_turn_executes [OF executes(4,5), of L] show ?thesis by (auto simp: session_of_def engine_ready_def)
  next
    case internal
    from server_step_quiet [OF internal(2,3)] have "srv_engine s' = srv_engine s"
      "\<exists>f t. srv_world s' = (srv_world s)\<lparr>faults := f, now := t\<rparr>" by auto
    with session_same_files [OF rel [unfolded session_of_def] _ calm] internal show ?thesis by (auto simp: session_of_def)
  qed
qed

interpretation calm: trace_simulation "calm_step L" exact_service "session_of L cfg" for L :: "'h libs" and cfg
  by unfold_locales (rule calm_step_simulated)

fun executed_commands :: "service_event list \<Rightarrow> command list" where
  "executed_commands [] = []"
| "executed_commands (Executed i c r # tr) = c # executed_commands tr"
| "executed_commands (Internal # tr) = executed_commands tr"

fun responses_of :: "service_event list \<Rightarrow> response result list" where
  "responses_of [] = []"
| "responses_of (Executed i c r # tr) = r # responses_of tr"
| "responses_of (Internal # tr) = responses_of tr"

lemma exact_run:
  "trace_run exact_service m tr m' \<Longrightarrow>
   responses_of tr = map Ok (fst (spec_serve (executed_commands tr) m)) \<and> m' = snd (spec_serve (executed_commands tr) m)"
proof (induction rule: trace_run.induct)
  case (more_steps m ev m' tr m'')
  then show ?case by (cases ev) (auto split: prod.split)
qed simp

text \<open>A worker with a complete command at the front of its stream can always answer it.\<close>

lemma calm_turn:
  assumes rel: "session_of L cfg s m" and i: "i < length (workers s)" "workers s ! i = Serving c"
    and cmd: "next_command i s = Some cmd" and room: "room_for L cmd (srv_engine s)"
  shows "calm_step L s (Executed i cmd (Ok (response_ok (fst (spec_exec cmd m))))) (worker_turn L i c s)"
    and "session_of L cfg (worker_turn L i c s) (snd (spec_exec cmd m))"
proof -
  from es.exec_refines [OF rel [unfolded session_of_def], of cmd] room obtain s' where
    x: "execute_command L cmd (srv_engine s, srv_world s) = (Ok (response_ok (fst (spec_exec cmd m))), s')"
      "session_holds L cfg s' (snd (spec_exec cmd m))" by (auto simp: engine_ready_def)
  with worker_turn_executes [OF i(2) cmd, of L] show ses: "session_of L cfg (worker_turn L i c s) (snd (spec_exec cmd m))"
    by (simp add: session_of_def)
  from executes [OF i cmd room] x(1) ses
  show "calm_step L s (Executed i cmd (Ok (response_ok (fst (spec_exec cmd m))))) (worker_turn L i c s)"
    by (auto simp: calm_step_def session_of_def session_holds_def)
qed

lemma worker_turn_others:
  "length (workers (worker_turn L i c s)) = length (workers s)"
  "j \<noteq> i \<Longrightarrow> workers (worker_turn L i c s) ! j = workers s ! j"
  by (simp_all add: worker_turn_def set_worker_def Let_def split: prod.split option.split outcome.split)

lemma response_sent:
  assumes "send_response rsp c = (Ok (), c')"
  shows "outbox (conn_writer c') = outbox (conn_writer c) @ encode_response rsp"
  using assms write_delivers [of "conn_writer c" rsp] by (auto simp: send_response_def split: prod.splits)

text \<open>The response of the event is what the worker sends, if it goes on.\<close>

lemma executed_sent:
  assumes "service_step L s (Executed i cmd r) s'" and "workers s ! i = Serving c" and "workers s' ! i = Serving c'"
  shows "\<exists>rsp. r = Ok rsp \<and> outbox (conn_writer c') = outbox (conn_writer c) @ encode_response rsp"
  using assms(1)
proof cases
  case (executes c0)
  have c: "c0 = c" using executes assms(2) by simp
  obtain rd where rd: "read_command (conn_reader c) = (Ok cmd, rd)"
    using executes assms(2) by (cases "read_command (conn_reader c)") (auto simp: next_command_def split: outcome.splits)
  have "fst (handle_once L (c, srv_engine s, srv_world s)) = None" "fst (snd (handle_once L (c, srv_engine s, srv_world s))) = c'"
    using assms(3) executes unfolding c
    by (auto simp: worker_turn_def set_worker_def Let_def split: prod.splits option.splits outcome.splits)
  with rd obtain rsp where r: "fst (execute_command L cmd (srv_engine s, srv_world s)) = Ok rsp"
    and "send_response rsp (c\<lparr>conn_reader := rd\<rparr>) = (Ok (), c')"
    by (auto simp: handle_once_def Let_def split: prod.splits outcome.splits)
  from response_sent [OF this(2)] r executes show ?thesis by simp
qed

subsection \<open>Properties\<close>

text \<open>Two clients on the demo server: one writes a key, one reads it.\<close>

definition demo_clients :: server where
  "demo_clients = demo_server\<lparr>workers := [Serving (demo_connection (encode_command (Put [1] [2]))),
     Serving (demo_connection (encode_command (Get [1])))]\<rparr>"

lemma demo_next:
  "next_command 0 demo_clients = Some (Put [1] [2])"
  "workers s ! 1 = workers demo_clients ! 1 \<Longrightarrow> next_command 1 s = Some (Get [1])"
  using cmds.read_encode [of "Put [1] [2]" "conn_reader (demo_connection (encode_command (Put [1] [2])))" "[]"]
    cmds.read_encode [of "Get [1]" "conn_reader (demo_connection (encode_command (Get [1])))" "[]"]
  by (simp_all add: next_command_def demo_clients_def command_fits_def MAX_PAYLOAD_SIZE_def encode_command_def)

lemma demo_clients_session: "session_of ref_libs demo_config demo_clients Map.empty"
  using demo_session ref_libs_ok(1) demo_every_write
  by (simp add: session_of_def session_holds_def demo_clients_def demo_server_def server_new_def) (simp add: demo_opened_def)

lemma demo_clients_run:
  defines "s1 \<equiv> worker_turn ref_libs 0 (demo_connection (encode_command (Put [1] [2]))) demo_clients"
  shows "calm_step ref_libs demo_clients (Executed 0 (Put [1] [2]) (Ok (response_ok None))) s1" and "ids_left (srv_engine s1)"
    and "\<exists>s2. calm_step ref_libs s1 (Executed 1 (Get [1]) (Ok (response_ok (Some [2])))) s2"
proof -
  let ?c = "demo_connection (encode_command (Put [1] [2]))" and ?g = "demo_connection (encode_command (Get [1]))"
  have w: "0 < length (workers demo_clients)" "workers demo_clients ! 0 = Serving ?c" by (simp_all add: demo_clients_def)
  have engine: "srv_engine demo_clients = demo_engine" "srv_world demo_clients = demo_opened"
    by (simp_all add: demo_clients_def demo_server_def server_new_def)
  have room: "room_for ref_libs (Put [1] [2]) (srv_engine demo_clients)" using demo_room engine by simp
  note put = calm_turn [OF demo_clients_session w demo_next(1) room]
  from put(1) show "calm_step ref_libs demo_clients (Executed 0 (Put [1] [2]) (Ok (response_ok None))) s1" by (simp add: s1_def)
  obtain e w where "execute ref_libs (Put [1] [2]) (demo_engine, demo_opened) = (Ok None, e, w)" "ids_left e" by (rule demo_put)
  then have "execute_command ref_libs (Put [1] [2]) (demo_engine, demo_opened) = (Ok (response_ok None), e, w)" "ids_left e"
    by (simp_all add: execute_command_def)
  with worker_turn_executes [OF w(2) demo_next(1), of ref_libs] engine show "ids_left (srv_engine s1)" by (simp add: s1_def)
  have "workers s1 ! 1 = workers demo_clients ! 1" "1 < length (workers s1)" "workers s1 ! 1 = Serving ?g"
    by (simp_all add: s1_def worker_turn_others demo_clients_def)
  from calm_turn(1) [OF put(2) [folded s1_def] this(2,3) demo_next(2) [OF this(1)]]
  show "\<exists>s2. calm_step ref_libs s1 (Executed 1 (Get [1]) (Ok (response_ok (Some [2])))) s2" by auto
qed

lemma calm_service: "calm_step L s ev s' \<Longrightarrow> service_step L s ev s'"
  by (simp add: calm_step_def)

lemma demo_clients_ok: "\<exists>ls. engine_ok ls (srv_engine demo_clients) (srv_world demo_clients)"
proof -
  have "\<exists>ls. engine_ok ls demo_engine demo_opened"
    using session_invariant [OF demo_session ref_libs_ok(1) demo_every_write] durable_state_ok
    unfolding session_state_def by blast
  then show ?thesis by (simp add: demo_clients_def demo_server_def server_new_def)
qed

text \<open>C4: The running server, seen by all its clients together, is one map. In every interleaving of the
  accept loop and the workers, with any input/output errors and any clock, the commands are
  executed one after another: each is answered from the map and updates it, or it is answered with
  an error, or its worker dies, and then it took effect completely or not at all. Nothing else the
  server does changes the map.\<close>

theorem service_refines_map:
  assumes "engine_ok ls (srv_engine s) (srv_world s)" and "trace_run (service_step L) s tr s'"
  shows "\<exists>ls'. engine_ok ls' (srv_engine s') (srv_world s') \<and>
    trace_run spec_service (view ls (srv_engine s)) tr (view ls' (srv_engine s'))"
proof -
  have "store_of s (view ls (srv_engine s))" using assms(1) by (auto simp: store_of_def)
  from service.simulate_run [OF assms(2) this] show ?thesis by (auto simp: store_of_def)
qed

theorem service_refines_map_witness:
  "\<exists>s' m. trace_run spec_service m [Executed 0 (Put [1] [2]) (Ok (response_ok None))] (m([1] \<mapsto> [2])) \<and>
     service_step ref_libs demo_clients (Executed 0 (Put [1] [2]) (Ok (response_ok None))) s'"
proof -
  obtain ls where ok: "engine_ok ls (srv_engine demo_clients) (srv_world demo_clients)" using demo_clients_ok by blast
  from service_refines_map [OF ok one_step [of "service_step ref_libs", OF calm_service [OF demo_clients_run(1)]]] obtain m' where
    r: "trace_run spec_service (view ls (srv_engine demo_clients)) [Executed 0 (Put [1] [2]) (Ok (response_ok None))] m'" by blast
  then have "m' = (view ls (srv_engine demo_clients))([1] \<mapsto> [2])"
    by (auto simp: trace_run_Cons_iff trace_run_Nil_iff dest!: spec_service_acknowledged)
  with r calm_service [OF demo_clients_run(1)] show ?thesis by blast
qed

text \<open>C18: Clients see each other's writes. When a write of a key was acknowledged to one client and no other
  command since has written the key, a lookup of the key that is answered by status OK to any client returns
  that value, whatever happened in between.\<close>

theorem acknowledged_write_read:
  assumes "engine_ok ls (srv_engine s) (srv_world s)"
    and "trace_run (service_step L) s (tr1 @ Executed i (Put key val) (Ok (response_ok None)) # tr2 @ [Executed j (Get key) (Ok r)]) s'"
    and "\<forall>ev \<in> set tr2. \<not> writes_key key ev" and "rsp_status r = SOk"
  shows "r = response_ok (Some val)"
proof -
  have "store_of s (view ls (srv_engine s))" using assms(1) by (auto simp: store_of_def)
  from service.simulate_run [OF assms(2) this] obtain m' where
    "trace_run spec_service (view ls (srv_engine s)) (tr1 @ [Executed i (Put key val) (Ok (response_ok None))] @ tr2 @ [Executed j (Get key) (Ok r)]) m'"
    by auto
  then obtain m1 m2 m3 where "spec_service m1 (Executed i (Put key val) (Ok (response_ok None))) m2"
    and run: "trace_run spec_service m2 tr2 m3" and get: "spec_service m3 (Executed j (Get key) (Ok r)) m'"
    unfolding trace_run_append_iff trace_run_Cons_iff trace_run_Nil_iff by blast
  from spec_service_acknowledged [OF this(1)] have "m2 key = Some val" by simp
  with spec_run_other [OF run assms(3)] spec_service_acknowledged [OF get assms(4)] show ?thesis by simp
qed

theorem acknowledged_write_read_witness:
  "\<exists>s r. trace_run (service_step ref_libs) demo_clients [Executed 0 (Put [1] [2]) (Ok (response_ok None)),
     Executed 1 (Get [1]) (Ok r)] s \<and> r = response_ok (Some [2])"
proof -
  obtain ls where ok: "engine_ok ls (srv_engine demo_clients) (srv_world demo_clients)" using demo_clients_ok by blast
  from demo_clients_run(3) obtain r s2 where get: "calm_step ref_libs
      (worker_turn ref_libs 0 (demo_connection (encode_command (Put [1] [2]))) demo_clients) (Executed 1 (Get [1]) (Ok r)) s2"
    and "rsp_status r = SOk" by (metis response_ok_status)
  moreover have "trace_run (service_step ref_libs) demo_clients [Executed 0 (Put [1] [2]) (Ok (response_ok None)),
      Executed 1 (Get [1]) (Ok r)] s2"
    unfolding trace_run_Cons_iff trace_run_Nil_iff using calm_service [OF demo_clients_run(1)] calm_service [OF get] by blast
  ultimately show ?thesis using acknowledged_write_read [OF ok, of ref_libs "[]" 0 "[1]" "[2]" "[]" 1 r s2] by auto
qed



end
