(* ===== verification/Batched.thy ===== *)
theory Batched
  imports Sessions
begin

section \<open>Syncing every n entries (src/src/engine.rs, src/src/wal/writer.rs)\<close>

text \<open>
  The default strategy, \<open>EveryNEntries\<close>: an acknowledged write may still be in the buffer of the
  process. \<open>batch\<close> is the life of such an engine; it keeps the map of the writes that a crash of the
  process cannot lose and the list of the writes that are pending after them. A crash of the
  machine is worse: the log on the disk may be older than the tables (\<open>power_loss\<close>).
\<close>

subsection \<open>The contents as a sequence of writes\<close>

definition base_view :: "(u64 \<times> entries) list \<Rightarrow> bytes \<rightharpoonup> bytes" where
  "base_view ls = (\<lambda>key. live (merged snd ls key))"

lemma replay_view:
  "(\<lambda>key. live ((merged snd ls ++ memtable_get (mt.replay es memtable_new)) key)) =
   fold apply_view (map operation es) (base_view ls)"
proof (induction es rule: rev_induct)
  case Nil
  then show ?case by (simp add: base_view_def mt.get_empty)
next
  case (snoc en es)
  have "(\<lambda>key. live ((merged snd ls ++ memtable_get (mt.replay (es @ [en]) memtable_new)) key)) =
    apply_view (operation en) (\<lambda>key. live ((merged snd ls ++ memtable_get (mt.replay es memtable_new)) key))"
    by (cases "operation en") (auto simp: mt.get_apply_op [OF mem_inv_replay] fun_eq_iff map_add_def
        memtable_get_put [OF mem_inv_replay] memtable_get_delete [OF mem_inv_replay])
  with snoc show ?case by simp
qed

lemma store_view:
  "store_state L d ls es e w \<Longrightarrow> view ls e = fold apply_view (map operation es) (base_view ls)"
  unfolding replay_view [symmetric] by (simp add: view_def store_stateD(10))

text \<open>
  Opening a directory: the engine holds the tables and, as a new table on top of them, whatever
  entries the log has.
\<close>

lemma open_ready:
  assumes ready: "disk_ready L d ls w" and nf: "faults w = []" and cfg: "data_dir cfg = d"
  defines "found \<equiv> fst (scan L (content w (d @ [WAL_FILENAME])))" and "ls' \<equiv> recovered_layers L d ls w"
  obtains e w' where "engine_open L cfg w = (Ok e, w')" and "store_state L d ls' [] e w'" and "healthy e"
    and "sync_strategy (eng_wal e) = sync_strategy_of cfg" and "uncommitted_count (eng_wal e) = 0" and "faults w' = []"
    and "view ls' e = fold apply_view (map operation found) (base_view ls)"
    and "\<And>key. fst (engine_get key (e, w')) = Ok (fold apply_view (map operation found) (base_view ls) key)"
proof -
  let ?p = "d @ [WAL_FILENAME]"
  from engine_open_effect [OF ready nf cfg] obtain e w' where op: "engine_open L cfg w = (Ok e, w')" and
    ed: "opened L (d @ [SSTABLE_DIR]) ls' ?p (sync_strategy_of cfg) (durable w ?p) (eng_wal e) (eng_storage e) w'"
    and rest: "eng_memtable e = memtable_new" "\<not> wal_poisoned e" "\<not> write_lock_poisoned e" unfolding ls'_def by metis
  have st: "store_state L d ls' [] e w'" using ed rest by (simp add: store_state_def opened_def)
  have v: "view ls' e = fold apply_view (map operation found) (base_view ls)"
    unfolding ls'_def found_def by (simp add: view_recovered [OF rest(1)] replay_view)
  have "fst (engine_get key (e, w')) = Ok (view ls' e key)" for key
    using store_get(4) [OF st, of key] ed by (cases "engine_get key (e, w')") (auto simp: opened_def)
  with op st v ed rest show ?thesis
    by (intro that [of e w']) (simp_all add: healthy_def opened_def wal_holds_def unat_eq_0)
qed

subsection \<open>The state\<close>

definition written_count :: "engine \<Rightarrow> wal_entry list \<Rightarrow> nat" where
  "written_count e es = length es - unat (uncommitted_count (eng_wal e))"

definition batched_state :: "'h libs \<Rightarrow> path \<Rightarrow> usize \<Rightarrow> engine \<Rightarrow> world \<Rightarrow> (bytes \<rightharpoonup> bytes) \<Rightarrow> operation list \<Rightarrow> bool" where
  "batched_state L d c e w m pending \<longleftrightarrow> (\<exists>ls es. store_state L d ls es e w \<and> healthy e \<and>
     sync_strategy (eng_wal e) = EveryNEntries c \<and> uncommitted_count (eng_wal e) < c \<and> (\<forall>k. log_fits (take k es)) \<and>
     m = fold apply_view (map operation (take (written_count e es) es)) (base_view ls) \<and>
     pending = map operation (drop (written_count e es) es))"

lemma batched_stateE:
  assumes "batched_state L d c e w m pending"
  obtains ls es where "store_state L d ls es e w" and "healthy e" and "sync_strategy (eng_wal e) = EveryNEntries c"
    and "view ls e = fold apply_view pending m"
    and "length pending = unat (uncommitted_count (eng_wal e))" and "length pending < unat c"
    and "m = fold apply_view (map operation (take (written_count e es) es)) (base_view ls)"
    and "pending = map operation (drop (written_count e es) es)" and "\<And>k. log_fits (take k es)"
    and "uncommitted_count (eng_wal e) < c"
proof -
  obtain ls es where st: "store_state L d ls es e w" and "healthy e" "sync_strategy (eng_wal e) = EveryNEntries c"
    and unc: "uncommitted_count (eng_wal e) < c"
    and m: "m = fold apply_view (map operation (take (written_count e es) es)) (base_view ls)"
    and p: "pending = map operation (drop (written_count e es) es)" and fit: "\<And>k. log_fits (take k es)"
    using assms unfolding batched_state_def by blast
  have "unat (uncommitted_count (eng_wal e)) \<le> length es" using store_stateD(6) [OF st] by (simp add: wal_holds_def)
  then have len: "length pending = unat (uncommitted_count (eng_wal e))" by (simp add: p written_count_def)
  have "view ls e = fold apply_view pending m"
    unfolding store_view [OF st] p m by (metis append_take_drop_id fold_append map_append comp_apply)
  with st that \<open>healthy e\<close> \<open>sync_strategy (eng_wal e) = EveryNEntries c\<close> len unc m p fit show ?thesis
    by (simp add: word_less_nat_alt)
qed

lemma batched_state_synced:
  assumes "store_state L d ls es e w" and "healthy e" and "sync_strategy (eng_wal e) = EveryNEntries c"
    and "uncommitted_count (eng_wal e) = 0" and "0 < c" and "\<And>k. log_fits (take k es)"
  shows "batched_state L d c e w (view ls e) []"
  unfolding batched_state_def using assms by (intro exI [of _ ls] exI [of _ es]) (simp add: written_count_def store_view)

fun write_of :: "command \<Rightarrow> operation option" where
  "write_of (Put key val) = Some (OpPut key val)"
| "write_of (Delete key) = Some (OpDelete key)"
| "write_of _ = None"

inductive batch :: "'h libs \<Rightarrow> config \<Rightarrow> engine \<Rightarrow> world \<Rightarrow> (bytes \<rightharpoonup> bytes) \<Rightarrow> operation list \<Rightarrow> bool" for L cfg where
  batch_start: "fresh_disk (data_dir cfg) w \<Longrightarrow> faults w = [] \<Longrightarrow> engine_open L cfg w = (Ok e, w') \<Longrightarrow>
     batch L cfg e w' Map.empty []"
| batch_environment: "batch L cfg e w m pending \<Longrightarrow> batch L cfg e (w\<lparr>faults := f, now := t\<rparr>) m pending"
| batch_read: "batch L cfg e w m pending \<Longrightarrow> write_of c = None \<Longrightarrow> execute L c (e, w) = (r, e', w') \<Longrightarrow>
     batch L cfg e' w' m pending"
| batch_write: "batch L cfg e w m pending \<Longrightarrow> write_of c = Some op \<Longrightarrow> room_for L c e \<Longrightarrow>
     execute L c (e, w) = (Ok x, e', w') \<Longrightarrow> uncommitted_count (eng_wal e') \<noteq> 0 \<Longrightarrow> batch L cfg e' w' m (pending @ [op])"
| batch_write_synced: "batch L cfg e w m pending \<Longrightarrow> write_of c = Some op \<Longrightarrow> room_for L c e \<Longrightarrow>
     execute L c (e, w) = (Ok x, e', w') \<Longrightarrow> uncommitted_count (eng_wal e') = 0 \<Longrightarrow>
     batch L cfg e' w' (fold apply_view (pending @ [op]) m) []"
| batch_flush: "batch L cfg e w m pending \<Longrightarrow> ids_left e \<Longrightarrow> engine_flush L (e, w) = (Ok (), e', w') \<Longrightarrow>
     batch L cfg e' w' (fold apply_view pending m) []"
| batch_kill: "batch L cfg e w m pending \<Longrightarrow> ids_left e \<Longrightarrow> faults w = [] \<Longrightarrow> engine_open L cfg w = (Ok e', w') \<Longrightarrow>
     (\<And>key. fst (engine_get key (e', w')) = Ok (m' key)) \<Longrightarrow> batch L cfg e' w' m' []"

subsection \<open>The operations keep it\<close>

lemma log_fits_take_snoc:
  assumes "\<And>k. log_fits (take k es)" and "log_fits (es @ [en])"
  shows "log_fits (take k (es @ [en]))"
  using assms by (cases "k \<le> length es") simp_all

lemma batched_state_pending:
  assumes st: "store_state L d ls es e w" and st': "store_state L d ls (es @ [en]) e' w'" and ok: "healthy e'"
    and s: "sync_strategy (eng_wal e') = EveryNEntries c" and unc: "uncommitted_count (eng_wal e) < c"
    and u: "uncommitted_count (eng_wal e') = uncommitted_count (eng_wal e) + 1" "uncommitted_count (eng_wal e) + 1 < c"
    and fit: "\<And>k. log_fits (take k (es @ [en]))"
  shows "batched_state L d c e' w' (fold apply_view (map operation (take (written_count e es) es)) (base_view ls))
      (map operation (drop (written_count e es) es) @ [operation en])" and "uncommitted_count (eng_wal e') \<noteq> 0"
proof -
  have "unat (uncommitted_count (eng_wal e) + 1) = unat (uncommitted_count (eng_wal e)) + 1"
    using unc u64_bound [of c] by (intro unat_u64_succ) (simp add: word_less_nat_alt)
  moreover have "unat (uncommitted_count (eng_wal e)) \<le> length es"
    using store_stateD(6) [OF st] by (simp add: wal_holds_def)
  ultimately have wc: "written_count e' (es @ [en]) = written_count e es" "written_count e es \<le> length es"
    and nz: "uncommitted_count (eng_wal e') \<noteq> 0"
    using u(1) by (auto simp: written_count_def unat_eq_0 [symmetric])
  show "uncommitted_count (eng_wal e') \<noteq> 0" by (rule nz)
  show "batched_state L d c e' w' (fold apply_view (map operation (take (written_count e es) es)) (base_view ls))
      (map operation (drop (written_count e es) es) @ [operation en])"
    unfolding batched_state_def using st' ok s u fit wc by (intro exI [of _ ls] exI [of _ "es @ [en]"]) simp
qed

lemma batched_write:
  assumes st: "batched_state L d c e w m pending" and room: "has_room L op e"
    and run: "engine_write L op (e, w) = (Ok (), e', w')"
  shows "batched_state L d c e' w'
    (if uncommitted_count (eng_wal e') = 0 then fold apply_view (pending @ [op]) m else m)
    (if uncommitted_count (eng_wal e') = 0 then [] else pending @ [op])"
proof -
  obtain ls es where st: "store_state L d ls es e w" "healthy e" "sync_strategy (eng_wal e) = EveryNEntries c"
    and v: "view ls e = fold apply_view pending m" and unc: "uncommitted_count (eng_wal e) < c"
    and m: "m = fold apply_view (map operation (take (written_count e es) es)) (base_view ls)"
    and p: "pending = map operation (drop (written_count e es) es)" and fit: "\<And>k. log_fits (take k es)"
    using batched_stateE [OF st] by metis
  obtain n e1 w1 where s1: "with_wal (wal_append L op) (e, w) = (Ok n, e1, w1)"
    and s2: "(if memtable_size_limit (eng_config e1) \<le> fst (memtable_apply op (eng_memtable e1))
      then flush_internal L (e1\<lparr>eng_memtable := snd (memtable_apply op (eng_memtable e1))\<rparr>, w1) = (Ok (), e', w')
      else e' = e1\<lparr>eng_memtable := snd (memtable_apply op (eng_memtable e1))\<rparr> \<and> w' = w1)"
    by (rule engine_write_Ok [OF run])
  let ?e = "e1\<lparr>eng_memtable := snd (memtable_apply op (eng_memtable e1))\<rparr>"
  from store_append [OF st(1) room s1] obtain en where en: "operation en = op"
    and st1: "store_state L d ls (es @ [en]) ?e w1" and e1: "e1 = e\<lparr>eng_wal := eng_wal e1\<rparr>"
    and str: "sync_strategy (eng_wal e1) = EveryNEntries c"
    and b: "if c \<le> uncommitted_count (eng_wal e) + 1 then uncommitted_count (eng_wal e1) = 0
      else uncommitted_count (eng_wal e1) = uncommitted_count (eng_wal e) + 1"
    using st(3) by metis
  have h: "healthy ?e" using st(2) arg_cong [OF e1, of wal_poisoned] arg_cong [OF e1, of write_lock_poisoned]
    by (simp add: healthy_def)
  have view1: "view ls ?e = fold apply_view (pending @ [op]) m" using view_append [OF st(1) s1] v by simp
  have fit1: "log_fits (take k (es @ [en]))" for k by (rule log_fits_take_snoc [OF fit store_stateD(9) [OF st1]])
  have pos: "0 < c" using unc word_not_simps(1) by (metis word_gt_0)
  show ?thesis
  proof (cases "memtable_size_limit (eng_config e1) \<le> fst (memtable_apply op (eng_memtable e1))")
    case True
    with s2 have fl: "flush_internal L (?e, w1) = (Ok (), e', w')" by simp
    have "next_free (eng_storage ?e)" using room arg_cong [OF e1, of eng_storage] by (simp add: has_room_def)
    note f = store_flush [OF st1 this _ fl, simplified]
    have h': "healthy e'" by (rule flush_internal_healthy [OF fl h])
    show ?thesis using batched_state_synced [OF f(1) h' _ f(6) pos] f(2,5,6) str view1 by simp
  next
    case False
    with s2 have e': "e' = ?e" "w' = w1" by simp_all
    show ?thesis
    proof (cases "c \<le> uncommitted_count (eng_wal e) + 1")
      case True
      with b have "uncommitted_count (eng_wal ?e) = 0" by simp
      with batched_state_synced [OF st1 h _ this pos fit1] str view1 show ?thesis by (simp add: e')
    next
      case False
      with b have "uncommitted_count (eng_wal ?e) = uncommitted_count (eng_wal e) + 1" by simp
      from batched_state_pending [OF st(1) st1 h _ unc this _ fit1] False str m p en show ?thesis by (simp add: e' not_le)
    qed
  qed
qed

lemma batched_flush:
  assumes st: "batched_state L d c e w m pending" and free: "next_free (eng_storage e)" and run: "engine_flush L (e, w) = (Ok (), e', w')"
  shows "batched_state L d c e' w' (fold apply_view pending m) []"
proof -
  obtain ls es where st: "store_state L d ls es e w" "healthy e" "sync_strategy (eng_wal e) = EveryNEntries c"
    and v: "view ls e = fold apply_view pending m" and unc: "uncommitted_count (eng_wal e) < c"
    using batched_stateE [OF st] by metis
  have pos: "0 < c" using unc by (metis word_gt_0 word_not_simps(1))
  have fl: "flush_internal L (e, w) = (Ok (), e', w')"
    using with_write_lock_Ok [OF run [unfolded engine_flush_def]] by simp
  have h': "healthy e'" by (rule flush_internal_healthy [OF fl st(2)])
  show ?thesis
  proof (cases "es = []")
    case True
    then have "memtable_is_empty (eng_memtable e)" using store_stateD(10) [OF st(1)] replay_empty_iff [of es] by simp
    with fl have "e' = e" "w' = w" by (simp_all add: flush_internal_def)
    moreover have "uncommitted_count (eng_wal e) = 0"
      using store_stateD(6) [OF st(1)] True by (simp add: wal_holds_def unat_eq_0)
    ultimately show ?thesis using batched_state_synced [OF st _ pos] True v by simp
  next
    case False
    note f = store_flush [OF st(1) free this fl]
    show ?thesis using batched_state_synced [OF f(1) h' _ f(6) pos] f(2,5) st(3) v by simp
  qed
qed

subsection \<open>A crash of the process\<close>

text \<open>
  The process stops and the engine is opened again on the files as they are: the entries that
  were only in the buffer are lost, a torn one at the end is ignored.
\<close>

lemma batched_reopen:
  assumes rt: "bincode_roundtrip L" and st: "batched_state L (data_dir cfg) c e w m pending" and ids: "ids_left e"
    and nf: "faults w = []" and cfg: "sync_strategy_of cfg = EveryNEntries c"
  obtains e' w' j where "engine_open L cfg w = (Ok e', w')" and "j \<le> length pending" and "faults w' = []"
    and "batched_state L (data_dir cfg) c e' w' (fold apply_view (take j pending) m) []"
proof -
  let ?d = "data_dir cfg" and ?p = "data_dir cfg @ [WAL_FILENAME]"
  obtain ls es where st: "store_state L ?d ls es e w" and unc: "uncommitted_count (eng_wal e) < c"
    and m: "m = fold apply_view (map operation (take (written_count e es) es)) (base_view ls)"
    and p: "pending = map operation (drop (written_count e es) es)" and fit: "\<And>k. log_fits (take k es)"
    using batched_stateE [OF st] by metis
  note ds = store_stateD [OF st]
  have pos: "0 < c" using unc by (metis word_gt_0 word_not_simps(1))
  have isf: "is_file w ?p"
    using ds(5,6) by (simp add: wal_holds_def seq_writer_def seq_handle_def wal_path_def bw_path_def)
  have "content w ?p @ buf (wal_file (eng_wal e)) = log_bytes L es"
    using wal_holds_stream [OF ds(6)] ds(5) by (simp add: wal_stream_def stream_def wal_path_def)
  then have pre: "prefix (content w ?p) (log_bytes L es)" by (metis prefixI)
  from scan_prefix [OF rt ds(7) pre] obtain k where k: "k \<le> length es" "fst (scan L (content w ?p)) = take k es" by metis
  from ds(5,6) obtain rest where rest: "content w ?p = log_bytes L (take (written_count e es) es) @ rest"
    by (auto simp: wal_holds_def written_count_def prefix_def)
  have "list_all (loggable L) (take (written_count e es) es)" using ds(7) by (metis append_take_drop_id list_all_append)
  from scan_log [OF rt this, of rest] k rest have tk: "take k es = take (written_count e es) es @ fst (scan L rest)" by simp
  have wc: "written_count e es \<le> k"
  proof -
    have "length (take (written_count e es) es) \<le> length (take k es)" using tk by simp
    with k(1) show ?thesis by (simp add: written_count_def split: if_splits)
  qed
  have ready: "disk_ready L ?d ls w"
    using ds(3,4) store_ids_room [OF ids st] isf fit k(2) by (simp add: disk_ready_def)
  let ?j = "k - written_count e es"
  have "take k es = take (written_count e es) es @ take ?j (drop (written_count e es) es)"
    using wc by (metis append_take_drop_id le_add_diff_inverse take_add)
  then have v: "fold apply_view (take ?j pending) m = fold apply_view (map operation (take k es)) (base_view ls)"
    by (simp add: m p take_map)
  obtain e' w' where op: "engine_open L cfg w = (Ok e', w')" and st': "store_state L ?d (recovered_layers L ?d ls w) [] e' w'"
    and rest: "healthy e'" "sync_strategy (eng_wal e') = sync_strategy_of cfg" "uncommitted_count (eng_wal e') = 0" "faults w' = []"
    and v': "view (recovered_layers L ?d ls w) e' = fold apply_view (map operation (take k es)) (base_view ls)"
    using open_ready [OF ready nf refl] unfolding k(2) by metis
  have "batched_state L ?d c e' w' (view (recovered_layers L ?d ls w) e') []"
    by (rule batched_state_synced [OF st' _ _ _ pos]) (use rest cfg in simp_all)
  with v v' op rest k(1) show ?thesis by (intro that [of e' w' ?j]) (simp_all add: p)
qed

lemma batched_get:
  assumes st: "batched_state L d c e w m pending" and run: "engine_get key (e, w) = (r, e', w')"
  shows "batched_state L d c e' w' m pending"
    and "r = Ok (fold apply_view pending m key) \<or> faults w \<noteq> [] \<and> (\<exists>x. r = Err (Io x))"
proof -
  obtain ls es where st: "store_state L d ls es e w" "healthy e" "sync_strategy (eng_wal e) = EveryNEntries c"
    and v: "view ls e = fold apply_view pending m" and unc: "uncommitted_count (eng_wal e) < c"
    and m: "m = fold apply_view (map operation (take (written_count e es) es)) (base_view ls)"
    and p: "pending = map operation (drop (written_count e es) es)" and fit: "\<And>k. log_fits (take k es)"
    using batched_stateE [OF st] by metis
  note g = store_get [OF st(1) run]
  show "r = Ok (fold apply_view pending m key) \<or> faults w \<noteq> [] \<and> (\<exists>x. r = Err (Io x))" using g(4) v by simp
  show "batched_state L d c e' w' m pending"
    unfolding batched_state_def using g(1,3) st(2,3) unc m p fit
    by (intro exI [of _ ls] exI [of _ es]) (simp add: g(6) written_count_def)
qed

lemma batched_state_environment:
  "batched_state L d c e (w\<lparr>faults := f, now := t\<rparr>) m pending = batched_state L d c e w m pending"
proof -
  have "store_state L d ls es e (w\<lparr>faults := f, now := t\<rparr>) = store_state L d ls es e w" for ls es
    by (rule store_state_fs) simp
  then show ?thesis by (simp add: batched_state_def)
qed

lemma write_of_execute:
  assumes "write_of c = Some op" and "execute L c (e, w) = (Ok x, e', w')"
  shows "engine_write L op (e, w) = (Ok (), e', w')" and "room_for L c e = has_room L op e"
  using assms by (cases c; auto simp: engine_write_eq elim!: andThen.elims)+

lemma batch_invariant:
  assumes "batch L cfg e w m pending" and rt: "bincode_roundtrip L" and cfg: "sync_strategy_of cfg = EveryNEntries c" and c: "0 < c"
  shows "batched_state L (data_dir cfg) c e w m pending"
  using assms(1)
proof (induction rule: batch.induct)
  case (batch_start w e w')
  let ?d = "data_dir cfg"
  have ready: "disk_ready L ?d [] w"
    using batch_start(1) by (simp add: disk_ready_def fresh_disk_def ids_room_def content_def)
  have layers: "recovered_layers L ?d [] w = []"
    using batch_start(1) by (simp add: recovered_layers_def content_def fresh_disk_def)
  obtain e1 w1 where op: "engine_open L cfg w = (Ok e1, w1)" and st: "store_state L ?d (recovered_layers L ?d [] w) [] e1 w1"
    and rest: "healthy e1" "sync_strategy (eng_wal e1) = sync_strategy_of cfg" "uncommitted_count (eng_wal e1) = 0"
    and v: "view (recovered_layers L ?d [] w) e1 = fold apply_view (map operation (fst (scan L (content w (?d @ [WAL_FILENAME]))))) (base_view [])"
    using open_ready [OF ready batch_start(2) refl] by metis
  have "content w (?d @ [WAL_FILENAME]) = []" using batch_start(1) by (simp add: fresh_disk_def content_def)
  then have "view [] e1 = Map.empty" using v unfolding layers by (simp add: base_view_def scan_empty)
  moreover have "batched_state L ?d c e1 w1 (view [] e1) []"
    by (rule batched_state_synced [OF st [unfolded layers] _ _ _ c]) (use rest cfg in simp_all)
  ultimately show ?case using op batch_start(3) by simp
next
  case (batch_environment e w m pending f t)
  then show ?case by (simp add: batched_state_environment)
next
  case (batch_read e w m pending c r e' w')
  then show ?case using batched_get(1) by (cases c) auto
next
  case (batch_write e w m pending cm op x e' w')
  note x = write_of_execute [OF batch_write(2,4)]
  from batched_write [OF batch_write.IH _ x(1)] batch_write(3,5) x(2) show ?case by simp
next
  case (batch_write_synced e w m pending cm op x e' w')
  note x = write_of_execute [OF batch_write_synced(2,4)]
  from batched_write [OF batch_write_synced.IH _ x(1)] batch_write_synced(3,5) x(2) show ?case by simp
next
  case (batch_flush e w m pending e' w')
  then show ?case using batched_flush ids_left_free by blast
next
  case (batch_kill e w m pending e' w' m')
  from batched_reopen [OF rt batch_kill.IH batch_kill(2,3) cfg] obtain e1 w1 j where
    op: "engine_open L cfg w = (Ok e1, w1)" and nf: "faults w1 = []"
    and st: "batched_state L (data_dir cfg) c e1 w1 (fold apply_view (take j pending) m) []" by metis
  from op batch_kill(4) have same: "e1 = e'" "w1 = w'" by simp_all
  have "m' = fold apply_view (take j pending) m"
  proof
    fix key
    obtain r e2 w2 where g: "engine_get key (e', w') = (r, e2, w2)" by (metis prod_cases3)
    from batched_get(2) [OF st [unfolded same] g] nf same batch_kill(5) [of key] g
    show "m' key = fold apply_view (take j pending) m key" by simp
  qed
  with st same show ?case by simp
qed

subsection \<open>A power loss\<close>

text \<open>The machine stops and every file is as it was last synced.\<close>

fun synced_node :: "node \<Rightarrow> node" where
  "synced_node DirNode = DirNode"
| "synced_node (FileNode c d) = FileNode d d"

definition power_loss :: "world \<Rightarrow> world" where
  "power_loss w = w\<lparr>fs := map (\<lambda>(p, n). (p, synced_node n)) (fs w)\<rparr>"

lemma power_loss_lookup: "lookup (power_loss w) p = map_option synced_node (lookup w p)"
  by (simp add: lookup_def power_loss_def map_of_map)

lemma power_loss_crash: "crash w (power_loss w)"
proof -
  have "after_crash n (synced_node n)" for n by (cases n) simp_all
  moreover have "map fst (fs (power_loss w)) = map fst (fs w)" by (simp add: power_loss_def case_prod_beta comp_def)
  ultimately show ?thesis by (simp add: crash_def power_loss_lookup)
qed

lemma power_loss_content: "is_file w p \<Longrightarrow> content (power_loss w) p = durable w p"
  by (auto simp: content_lookup durable_def is_file_lookup content_def power_loss_lookup split: option.split node.split)

lemma power_loss_reopen:
  assumes rt: "bincode_roundtrip L" and st: "store_state L (data_dir cfg) ls es e w" and ids: "ids_left e" and nf: "faults w = []"
    and old: "durable w (data_dir cfg @ [WAL_FILENAME]) = log_bytes L old" "list_all (loggable L) old" "log_fits old"
  obtains e' w' where "engine_open L cfg (power_loss w) = (Ok e', w')"
    and "\<And>key. fst (engine_get key (e', w')) = Ok (fold apply_view (map operation old) (base_view ls) key)"
proof -
  let ?d = "data_dir cfg" and ?p = "data_dir cfg @ [WAL_FILENAME]" and ?w = "power_loss w"
  note ds = store_stateD [OF st]
  have isf: "is_file w ?p"
    using ds(5,6) by (simp add: wal_holds_def seq_writer_def seq_handle_def wal_path_def bw_path_def)
  have sc: "fst (scan L (content ?w ?p)) = old"
    using scan_log [OF rt old(2), of "[]"] by (simp add: power_loss_content [OF isf] old(1))
  have ready: "disk_ready L ?d ls ?w"
    using crash_disk_tables [OF power_loss_crash ds(3,4)] store_ids_room [OF ids st] isf
      crash_is_file [OF power_loss_crash, of w ?p] sc old(3) by (simp add: disk_ready_def)
  have nf': "faults ?w = []" using nf by (simp add: power_loss_def)
  from open_ready [OF ready nf' refl] that show ?thesis unfolding sc by metis
qed

lemma small_write:
  assumes st: "store_state L d ls es e w" and ok: "healthy e" and room: "has_room L op e" and nf: "faults w = []"
    and clock: "now w \<noteq> None" and str: "sync_strategy (eng_wal e) = EveryNEntries c"
    and small: "\<not> memtable_size_limit (eng_config e) \<le> fst (memtable_apply op (eng_memtable e))"
  obtains en e' w' where "engine_write L op (e, w) = (Ok (), e', w')" and "operation en = op"
    and "store_state L d ls (es @ [en]) e' w'" and "healthy e'" and "faults w' = []" and "now w' \<noteq> None"
    and "eng_storage e' = eng_storage e" and "eng_config e' = eng_config e" and "sync_strategy (eng_wal e') = EveryNEntries c"
    and "if c \<le> uncommitted_count (eng_wal e) + 1
       then uncommitted_count (eng_wal e') = 0 \<and> durable w' (d @ [WAL_FILENAME]) = log_bytes L (es @ [en])
       else uncommitted_count (eng_wal e') = uncommitted_count (eng_wal e) + 1 \<and>
         durable w' (d @ [WAL_FILENAME]) = durable w (d @ [WAL_FILENAME])"
proof -
  from write_available [OF st ok room nf clock] obtain e' w' where run: "engine_write L op (e, w) = (Ok (), e', w')" by blast
  obtain n e1 w1 where s1: "with_wal (wal_append L op) (e, w) = (Ok n, e1, w1)"
    and s2: "(if memtable_size_limit (eng_config e1) \<le> fst (memtable_apply op (eng_memtable e1))
      then flush_internal L (e1\<lparr>eng_memtable := snd (memtable_apply op (eng_memtable e1))\<rparr>, w1) = (Ok (), e', w')
      else e' = e1\<lparr>eng_memtable := snd (memtable_apply op (eng_memtable e1))\<rparr> \<and> w' = w1)"
    by (rule engine_write_Ok [OF run])
  from with_wal_Ok [OF s1] obtain wr where app: "wal_append L op (eng_wal e, w) = (Ok n, wr, w1)" and e1: "e1 = e\<lparr>eng_wal := wr\<rparr>" by blast
  have e': "e' = e1\<lparr>eng_memtable := snd (memtable_apply op (eng_memtable e1))\<rparr>" "w' = w1"
    using s2 small by (simp_all add: e1)
  have fr: "frame {wal_path (eng_wal e)} w w1"
    using wal_append_keeps [of "(eng_wal e, w)" L op] app by (simp add: wal_keeps_def keeps_def)
  have wal: "eng_wal e' = eng_wal e1" by (simp add: e')
  from store_append [OF st room s1, folded e'] obtain en where "operation en = op" "store_state L d ls (es @ [en]) e' w'"
    "sync_strategy (eng_wal e') = EveryNEntries c"
    "if c \<le> uncommitted_count (eng_wal e) + 1
       then uncommitted_count (eng_wal e') = 0 \<and> durable w' (d @ [WAL_FILENAME]) = log_bytes L (es @ [en])
       else uncommitted_count (eng_wal e') = uncommitted_count (eng_wal e) + 1 \<and>
         durable w' (d @ [WAL_FILENAME]) = durable w (d @ [WAL_FILENAME])"
    unfolding wal using str by metis
  moreover have "healthy e'" "faults w' = []" "now w' \<noteq> None" "eng_storage e' = eng_storage e" "eng_config e' = eng_config e"
    using fr nf clock ok by (simp_all add: e' e1 healthy_def frame_def)
  ultimately show ?thesis using that run by blast
qed

subsection \<open>Properties\<close>

text \<open>An engine on a fresh directory that syncs every second entry, for the witnesses.\<close>

definition pair_config :: config where
  "pair_config = config_default\<lparr>data_dir := [''d''], sync_strategy_of := EveryNEntries 2\<rparr>"

definition pair_engine :: engine where
  "pair_engine = demo_engine\<lparr>eng_config := pair_config, eng_wal := (eng_wal demo_engine)\<lparr>sync_strategy := EveryNEntries 2\<rparr>\<rparr>"

lemma pair_open: "engine_open ref_libs pair_config demo_root = (Ok pair_engine, demo_opened)"
  by code_simp

lemma pair_batch: "batch ref_libs pair_config pair_engine demo_opened Map.empty []"
  by (rule batch_start [OF _ _ pair_open]) (use demo_fresh in \<open>simp_all add: demo_config_def pair_config_def demo_root_def\<close>)

definition one_table :: "byte \<Rightarrow> memtable" where
  "one_table v = \<lparr>mem_data = [([1], Value [v])], mem_size = 2\<rparr>"

lemma one_table_put:
  "memtable_put [1] [v] memtable_new = (2, one_table v)" "memtable_put [1] [v] (one_table u) = (2, one_table v)"
  by (simp_all add: memtable_put_def memtable_new_def one_table_def Let_def apply_size_delta_def old_entry_size_def bt_get_def)

lemma one_table_iter [simp]: "memtable_iter (one_table v) = [([1], Value [v])]"
  by (simp add: one_table_def memtable_iter_def)

lemma one_table_room:
  assumes "store_state ref_libs d ls es e w" and "eng_memtable e = memtable_new \<or> eng_memtable e = one_table u"
    and "next_free (eng_storage e)" and "length es < 2 ^ 32"
  shows "has_room ref_libs (OpPut [1] [v]) e"
proof -
  have "memtable_iter (snd (memtable_put [1] [v] (eng_memtable e))) = [([1], Value [v])]"
    using assms(2) by (auto simp: one_table_put)
  moreover have "entries_fit [([1], Value [v])]"
    by (simp add: entries_fit_def entry_fits_def sst_size_def index_start_def SST_HEADER_SIZE_def FOOTER_SIZE_def
        length_data_entry index_entry_def)
  moreover have "loggable ref_libs \<lparr>lsn = n, operation = OpPut [1] [v], timestamp = t\<rparr>" for n t
    by (simp add: loggable_def ref_libs_def ref_serialize_def ref_short_def ref_bytes_def)
  ultimately show ?thesis using assms(3,4) store_stateD(8) [OF assms(1)] by (simp add: has_room_def)
qed

definition pair_state :: "wal_entry list \<Rightarrow> engine \<Rightarrow> world \<Rightarrow> bool" where
  "pair_state es e w \<longleftrightarrow> store_state ref_libs [''d''] [] es e w \<and> healthy e \<and> eng_storage e = eng_storage pair_engine \<and>
     eng_config e = pair_config \<and> sync_strategy (eng_wal e) = EveryNEntries 2 \<and> faults w = [] \<and> now w \<noteq> None \<and>
     (eng_memtable e = memtable_new \<or> (\<exists>u. eng_memtable e = one_table u)) \<and> length es < 2 ^ 32"

lemma pair_write:
  assumes st: "pair_state es e w" and short: "length es + 1 < 2 ^ 32"
  obtains en e' w' where "engine_put ref_libs [1] [v] (e, w) = (Ok (), e', w')" and "operation en = OpPut [1] [v]"
    and "pair_state (es @ [en]) e' w'" and "eng_memtable e' = one_table v"
    and "if 2 \<le> uncommitted_count (eng_wal e) + 1
       then uncommitted_count (eng_wal e') = 0 \<and> durable w' [''d'', WAL_FILENAME] = log_bytes ref_libs (es @ [en])
       else uncommitted_count (eng_wal e') = uncommitted_count (eng_wal e) + 1 \<and>
         durable w' [''d'', WAL_FILENAME] = durable w [''d'', WAL_FILENAME]"
proof -
  from st obtain u where ss: "store_state ref_libs [''d''] [] es e w" "healthy e" "eng_config e = pair_config"
    "sync_strategy (eng_wal e) = EveryNEntries 2" "faults w = []" "now w \<noteq> None" "eng_storage e = eng_storage pair_engine"
    and mem: "eng_memtable e = memtable_new \<or> eng_memtable e = one_table u" and len: "length es < 2 ^ 32"
    unfolding pair_state_def by blast
  have "next_free (eng_storage e)" using ss(7) by (simp add: pair_engine_def demo_engine_def next_free_def)
  note room = one_table_room [OF ss(1) mem this len]
  have app: "memtable_apply (OpPut [1] [v]) (eng_memtable e) = (2, one_table v)" using mem by (auto simp: one_table_put)
  have small: "\<not> memtable_size_limit (eng_config e) \<le> fst (memtable_apply (OpPut [1] [v]) (eng_memtable e))"
    by (simp add: app ss(3) pair_config_def config_default_def del: memtable_apply.simps)
  obtain en e' w' where run: "engine_write ref_libs (OpPut [1] [v]) (e, w) = (Ok (), e', w')" and en: "operation en = OpPut [1] [v]"
    and st': "store_state ref_libs [''d''] [] (es @ [en]) e' w'" and keep: "healthy e'" "faults w' = []" "now w' \<noteq> None"
    "eng_storage e' = eng_storage e" "eng_config e' = eng_config e" "sync_strategy (eng_wal e') = EveryNEntries 2"
    and dur: "if 2 \<le> uncommitted_count (eng_wal e) + 1
       then uncommitted_count (eng_wal e') = 0 \<and> durable w' ([''d''] @ [WAL_FILENAME]) = log_bytes ref_libs (es @ [en])
       else uncommitted_count (eng_wal e') = uncommitted_count (eng_wal e) + 1 \<and>
         durable w' ([''d''] @ [WAL_FILENAME]) = durable w ([''d''] @ [WAL_FILENAME])"
    by (rule small_write [OF ss(1,2) room ss(5,6,4) small])
  have mem': "eng_memtable e' = one_table v"
    using store_stateD(10) [OF st'] store_stateD(10) [OF ss(1)] app by (simp add: en)
  have "pair_state (es @ [en]) e' w'"
    unfolding pair_state_def using st' keep ss(3,7) mem' short by auto
  then show ?thesis using that run [folded engine_write_eq] en mem' dur [unfolded append_Cons append_Nil] by blast
qed

lemma pair_start: "pair_state [] pair_engine demo_opened"
proof -
  have "bincode_roundtrip ref_libs" by (rule ref_libs_ok)
  from batch_invariant [OF pair_batch this, of 2] obtain ls es where
    st: "store_state ref_libs [''d''] ls es pair_engine demo_opened" "healthy pair_engine"
    unfolding batched_state_def by (auto simp: pair_config_def)
  have "ls = []" using store_stateD(1) [OF st(1)] by (simp add: storage_holds_def pair_engine_def demo_engine_def)
  moreover have "es = []" using store_stateD(8) [OF st(1)] by (simp add: pair_engine_def demo_engine_def)
  ultimately show ?thesis using st
    by (simp add: pair_state_def) (simp add: pair_engine_def demo_engine_def demo_opened_def)
qed

text \<open>C7: With \<open>EveryNEntries c\<close>, the default strategy, a crash of the process loses fewer than \<open>c\<close>
  acknowledged writes, and only the most recent ones: the engine that is opened again has the
  contents after some prefix of the pending writes, for any history of writes, flushes, lookups
  and earlier crashes.\<close>

theorem process_crash_bounded_loss:
  assumes "batch L cfg e w m pending" and "bincode_roundtrip L" and "sync_strategy_of cfg = EveryNEntries c" and "0 < c"
    and "ids_left e" and "faults w = []"
  shows "length pending < unat c \<and>
    (\<forall>key. fst (engine_get key (e, w)) = Ok (fold apply_view pending m key)) \<and>
    (\<exists>e' w' j. engine_open L cfg w = (Ok e', w') \<and> j \<le> length pending \<and>
      (\<forall>key. fst (engine_get key (e', w')) = Ok (fold apply_view (take j pending) m key)))"
proof -
  note st = batch_invariant [OF assms(1-4)]
  have "length pending < unat c" using batched_stateE [OF st] by metis
  moreover have ans: "fst (engine_get key (e1, w1)) = Ok (fold apply_view p1 m1 key)"
    if "batched_state L (data_dir cfg) c e1 w1 m1 p1" "faults w1 = []" for e1 w1 m1 p1 key
    using batched_get(2) [OF that(1), of key] that(2) by (cases "engine_get key (e1, w1)") auto
  moreover obtain e' w' j where "engine_open L cfg w = (Ok e', w')" "j \<le> length pending" "faults w' = []"
    "batched_state L (data_dir cfg) c e' w' (fold apply_view (take j pending) m) []"
    by (rule batched_reopen [OF assms(2) st assms(5,6,3)])
  ultimately show ?thesis using ans [OF st assms(6)] ans by (metis fold_simps(1))
qed

theorem process_crash_bounded_loss_witness:
  "\<exists>e w e' w'. batch ref_libs pair_config e w Map.empty [OpPut [1] [7]] \<and> engine_open ref_libs pair_config w = (Ok e', w') \<and>
     fst (engine_get [1] (e', w')) \<in> {Ok None, Ok (Some [7])}"
proof -
  obtain en e w where put: "engine_put ref_libs [1] [7] (pair_engine, demo_opened) = (Ok (), e, w)"
    and st: "pair_state ([] @ [en]) e w"
    and unc: "if 2 \<le> uncommitted_count (eng_wal pair_engine) + 1 then uncommitted_count (eng_wal e) = 0 \<and>
        durable w [''d'', WAL_FILENAME] = log_bytes ref_libs ([] @ [en])
      else uncommitted_count (eng_wal e) = uncommitted_count (eng_wal pair_engine) + 1 \<and>
        durable w [''d'', WAL_FILENAME] = durable demo_opened [''d'', WAL_FILENAME]"
    by (rule pair_write [OF pair_start, of 7]) simp_all
  have x: "execute ref_libs (Put [1] [7]) (pair_engine, demo_opened) = (Ok None, e, w)" using put by simp
  have "next_free (eng_storage pair_engine)" "eng_memtable pair_engine = memtable_new"
    by (simp_all add: pair_engine_def demo_engine_def next_free_def)
  then have room: "room_for ref_libs (Put [1] [7]) pair_engine"
    using one_table_room [of "[''d'']" "[]" "[]" pair_engine demo_opened] pair_start by (simp add: pair_state_def)
  have nz: "uncommitted_count (eng_wal e) \<noteq> 0" using unc by (simp add: pair_engine_def demo_engine_def word_le_nat_alt)
  have b: "batch ref_libs pair_config e w Map.empty [OpPut [1] [7]]"
    using batch_write [OF pair_batch _ room x nz] by simp
  have "ids_left e" "faults w = []" using st by (simp_all add: pair_state_def ids_left_def pair_engine_def demo_engine_def)
  from process_crash_bounded_loss [OF b ref_libs_ok(1) _ _ this, of 2] obtain e' w' j where
    "engine_open ref_libs pair_config w = (Ok e', w')" "j \<le> 1"
    "fst (engine_get [1] (e', w')) = Ok (fold apply_view (take j [OpPut [1] [7]]) Map.empty [1])"
    by (auto simp: pair_config_def)
  with b show ?thesis by (cases j) auto
qed

text \<open>Three writes of one key, synced every two entries: the third is not on the disk.\<close>

lemma pair_three_puts:
  obtains a b c e1 w1 e2 w2 e3 w3 where "engine_put ref_libs [1] [7] (pair_engine, demo_opened) = (Ok (), e1, w1)"
    and "engine_put ref_libs [1] [8] (e1, w1) = (Ok (), e2, w2)" and "engine_put ref_libs [1] [9] (e2, w2) = (Ok (), e3, w3)"
    and "map operation [a, b, c] = [OpPut [1] [7], OpPut [1] [8], OpPut [1] [9]]"
    and "pair_state [a, b] e2 w2" and "pair_state [a, b, c] e3 w3" and "durable w3 [''d'', WAL_FILENAME] = log_bytes ref_libs [a, b]"
proof -
  let ?p = "[''d'', WAL_FILENAME]"
  obtain a e1 w1 where p1: "engine_put ref_libs [1] [7] (pair_engine, demo_opened) = (Ok (), e1, w1)"
    and a: "operation a = OpPut [1] [7]" and st1: "pair_state ([] @ [a]) e1 w1"
    and u1: "if 2 \<le> uncommitted_count (eng_wal pair_engine) + 1 then uncommitted_count (eng_wal e1) = 0 \<and>
        durable w1 ?p = log_bytes ref_libs ([] @ [a])
      else uncommitted_count (eng_wal e1) = uncommitted_count (eng_wal pair_engine) + 1 \<and> durable w1 ?p = durable demo_opened ?p"
    by (rule pair_write [OF pair_start, of 7]) simp_all
  have c1: "uncommitted_count (eng_wal e1) = 1" using u1 by (simp add: pair_engine_def demo_engine_def word_le_nat_alt)
  obtain b e2 w2 where p2: "engine_put ref_libs [1] [8] (e1, w1) = (Ok (), e2, w2)"
    and b: "operation b = OpPut [1] [8]" and st2: "pair_state (([] @ [a]) @ [b]) e2 w2"
    and u2: "if 2 \<le> uncommitted_count (eng_wal e1) + 1 then uncommitted_count (eng_wal e2) = 0 \<and>
        durable w2 ?p = log_bytes ref_libs (([] @ [a]) @ [b])
      else uncommitted_count (eng_wal e2) = uncommitted_count (eng_wal e1) + 1 \<and> durable w2 ?p = durable w1 ?p"
    by (rule pair_write [OF st1, of 8]) simp_all
  have d2: "durable w2 ?p = log_bytes ref_libs [a, b]" "uncommitted_count (eng_wal e2) = 0" using u2 c1 by (simp_all add: word_le_nat_alt)
  obtain c e3 w3 where p3: "engine_put ref_libs [1] [9] (e2, w2) = (Ok (), e3, w3)"
    and c: "operation c = OpPut [1] [9]" and st3: "pair_state ((([] @ [a]) @ [b]) @ [c]) e3 w3"
    and u3: "if 2 \<le> uncommitted_count (eng_wal e2) + 1 then uncommitted_count (eng_wal e3) = 0 \<and>
        durable w3 ?p = log_bytes ref_libs ((([] @ [a]) @ [b]) @ [c])
      else uncommitted_count (eng_wal e3) = uncommitted_count (eng_wal e2) + 1 \<and> durable w3 ?p = durable w2 ?p"
    by (rule pair_write [OF st2, of 9]) simp_all
  have d3: "durable w3 ?p = log_bytes ref_libs [a, b]" using u3 d2 by (simp add: word_le_nat_alt)
  show ?thesis by (rule that [OF p1 p2 p3]) (use a b c st2 st3 d3 in simp_all)
qed

text \<open>C31: With \<open>EveryNEntries\<close> a power loss can undo a write that was acknowledged and flushed to a table,
  and bring an older value back: three writes of a key return \<open>Ok\<close>, the flush returns \<open>Ok\<close>, the key
  has its last value; after the power loss the engine opens without an error and the key has the
  second value. The truncation of the log is not synced, so the log on the disk still has the
  first two writes, and recovery replays them over the table.\<close>

theorem flushed_write_undone:
  "\<exists>e1 w1 e2 w2 e3 w3 e4 w4 e5 w5. engine_open ref_libs pair_config demo_root = (Ok pair_engine, demo_opened) \<and>
     engine_put ref_libs [1] [7] (pair_engine, demo_opened) = (Ok (), e1, w1) \<and>
     engine_put ref_libs [1] [8] (e1, w1) = (Ok (), e2, w2) \<and> engine_put ref_libs [1] [9] (e2, w2) = (Ok (), e3, w3) \<and>
     engine_flush ref_libs (e3, w3) = (Ok (), e4, w4) \<and> fst (engine_get [1] (e4, w4)) = Ok (Some [9]) \<and>
     crash w4 (power_loss w4) \<and> engine_open ref_libs pair_config (power_loss w4) = (Ok e5, w5) \<and>
     fst (engine_get [1] (e5, w5)) = Ok (Some [8])"
proof -
  obtain a b c e1 w1 e2 w2 e3 w3 where p1: "engine_put ref_libs [1] [7] (pair_engine, demo_opened) = (Ok (), e1, w1)"
    and p2: "engine_put ref_libs [1] [8] (e1, w1) = (Ok (), e2, w2)" and p3: "engine_put ref_libs [1] [9] (e2, w2) = (Ok (), e3, w3)"
    and ops: "map operation [a, b, c] = [OpPut [1] [7], OpPut [1] [8], OpPut [1] [9]]"
    and st2: "pair_state [a, b] e2 w2" and st3: "pair_state [a, b, c] e3 w3"
    and d3: "durable w3 [''d'', WAL_FILENAME] = log_bytes ref_libs [a, b]" by (rule pair_three_puts)
  from ops have a: "operation a = OpPut [1] [7]" and b: "operation b = OpPut [1] [8]" and c: "operation c = OpPut [1] [9]" by simp_all
  have ss: "store_state ref_libs [''d''] [] [a, b, c] e3 w3" "healthy e3" "faults w3 = []" "eng_storage e3 = eng_storage pair_engine"
    using st3 by (simp_all add: pair_state_def)
  have free: "next_free (eng_storage e3)" by (simp add: ss(4) pair_engine_def demo_engine_def next_free_def)
  from flush_available [OF ss(1,2) free ss(3)] obtain e4 w4 where fl: "flush_internal ref_libs (e3, w3) = (Ok (), e4, w4)" by blast
  note f = store_flush [OF ss(1) free _ fl, simplified]
  let ?ls = "[(next_sstable_id (eng_storage e3), memtable_iter (mt.replay [a, b, c] memtable_new))]"
  have p4: "engine_flush ref_libs (e3, w3) = (Ok (), e4, w4)"
    using fl ss(2) by (simp add: engine_flush_def with_write_lock_def healthy_def)
  have base: "base_view ?ls = view [] e3"
    using store_view [OF f(1)] f(2) by simp
  have "view [] e3 [1] = Some [9]" using store_view [OF ss(1)] a b c by simp
  then have now4: "fst (engine_get [1] (e4, w4)) = Ok (Some [9])"
    using store_get(4) [OF f(1), of "[1]"] f(2,7) ss(3) by (cases "engine_get [1] (e4, w4)") auto
  have ids: "ids_left e4" by (simp add: ids_left_def f(8) ss(4) pair_engine_def demo_engine_def)
  have ab: "list_all (loggable ref_libs) [a, b]" "log_fits [a, b]" "durable w4 ([''d''] @ [WAL_FILENAME]) = log_bytes ref_libs [a, b]"
    using store_stateD(7,9) [of ref_libs "[''d'']" "[]" "[a, b]" e2 w2] st2 f(4) d3 by (simp_all add: pair_state_def)
  from f(1) have st4: "store_state ref_libs (data_dir pair_config) ?ls [] e4 w4" by (simp add: pair_config_def)
  obtain e5 w5 where p5: "engine_open ref_libs pair_config (power_loss w4) = (Ok e5, w5)"
    and get5: "\<And>key. fst (engine_get key (e5, w5)) = Ok (fold apply_view (map operation [a, b]) (base_view ?ls) key)"
    by (rule power_loss_reopen [OF ref_libs_ok(1) st4 ids f(7) [OF ss(3)] _ ab(1,2)]) (use ab(3) in \<open>simp_all add: pair_config_def\<close>)
  have "fst (engine_get [1] (e5, w5)) = Ok (Some [8])" using get5 [of "[1]"] a b by simp
  with p1 p2 p3 p4 now4 p5 pair_open power_loss_crash show ?thesis by blast
qed

end
