(* ===== verification/Server_Binary.thy ===== *)
theory Server_Binary
  imports Server
begin

section \<open>The server binary (src/src/bin/server.rs)\<close>

text \<open>
  The \<open>main\<close> of the server after its arguments have been parsed: the configuration, the opening of
  the engine, the start of the server. The two failures end the process with exit code 1.
  \<open>args.memtable_mb * 1024 * 1024\<close> wraps, as in a release build. The Ctrl+C handler is never called
  (its closure is dropped by the thread that gets it), so it has no behaviour.
\<close>

record server_args =
  arg_data_dir :: path
  arg_listen :: string
  arg_max_connections :: usize
  arg_memtable_mb :: usize

definition config_of_args :: "server_args \<Rightarrow> config" where
  "config_of_args args = config_build
     (with_memtable_size_limit (arg_memtable_mb args * 1024 * 1024)
     (with_max_connections (arg_max_connections args)
     (with_listen_addr (arg_listen args)
     (with_data_dir (arg_data_dir args) config_builder))))"

datatype main_state = ExitFailure atlas_error | Panicked | Running server

definition server_main :: "'h libs \<Rightarrow> server_args \<Rightarrow> (io_error, unit) outcome \<Rightarrow> (io_error, unit) outcome \<Rightarrow>
    nat option \<Rightarrow> (nat \<Rightarrow> io_error option) \<Rightarrow> world \<Rightarrow> main_state" where
  "server_main L args bound nonblocking available spawned w =
     (case engine_open L (config_of_args args) w of
        (Ok e, w) \<Rightarrow> (case server_start bound nonblocking available spawned (server_new (config_of_args args) (e, w)) of
            (Ok _, s) \<Rightarrow> Running s
          | (Err x, s) \<Rightarrow> ExitFailure x
          | (Panic, s) \<Rightarrow> Panicked)
      | (Err x, w) \<Rightarrow> ExitFailure x
      | (Panic, w) \<Rightarrow> Panicked)"

lemma config_of_args_fields [simp]:
  "data_dir (config_of_args args) = arg_data_dir args" "listen_addr (config_of_args args) = arg_listen args"
  "max_connections (config_of_args args) = arg_max_connections args"
  "memtable_size_limit (config_of_args args) = arg_memtable_mb args * 1024 * 1024"
  "sync_strategy_of (config_of_args args) = EveryNEntries 100"
  by (simp_all add: config_of_args_def config_build_def with_memtable_size_limit_def with_max_connections_def
      with_listen_addr_def with_data_dir_def config_builder_def config_default_def)

lemma spawn_workers_all:
  "set rs \<subseteq> {None} \<Longrightarrow> spawn_workers rs s = (Ok (), s\<lparr>workers := workers s @ replicate (length rs) Waiting\<rparr>)"
  by (induction rs arbitrary: s) (auto simp: replicate_app_Cons_same)

lemma server_start_all:
  assumes "\<And>i. spawned i = None"
  shows "server_start (Ok ()) (Ok ()) available spawned s =
    (Ok (), s\<lparr>workers := workers s @ replicate (num_cpus available) Waiting, srv_phase := Accepting\<rparr>)"
proof -
  have "set (map spawned [0..<num_cpus available]) \<subseteq> {None}" using assms by auto
  from spawn_workers_all [OF this, of s] show ?thesis by (simp add: server_start_def)
qed

subsection \<open>Properties\<close>

text \<open>C28: On a data directory with the tables \<open>ls\<close> and a log, and without errors of the operating system, the
  server binary comes up: it accepts connections, one waiting worker for each processor, its engine
  has the contents of the tables with the entries of the log on top and consistent files. The
  engine always syncs every 100 entries, whatever the arguments.\<close>

theorem server_main_serves:
  assumes "disk_ready L (arg_data_dir args) ls w" and "faults w = []" and "\<And>i. spawned i = None"
    and "num_cpus available < 2 ^ 64"
  shows "\<exists>s ls'. server_main L args (Ok ()) (Ok ()) available spawned w = Running s \<and> server_runs L s [] [] \<and>
    workers s = replicate (num_cpus available) Waiting \<and> srv_phase s = Accepting \<and>
    engine_ok ls' (srv_engine s) (srv_world s) \<and> sync_strategy (eng_wal (srv_engine s)) = EveryNEntries 100 \<and>
    view ls' (srv_engine s) = (\<lambda>key. live ((merged snd ls ++ memtable_get (replay_entries
      (fst (scan L (content w (arg_data_dir args @ [WAL_FILENAME])))) memtable_new)) key))"
proof -
  let ?cfg = "config_of_args args" and ?d = "arg_data_dir args"
  from engine_open_effect [OF assms(1,2), of ?cfg, simplified] obtain e w' where op: "engine_open L ?cfg w = (Ok e, w')"
    and ed: "opened L (?d @ [SSTABLE_DIR]) (recovered_layers L ?d ls w) (?d @ [WAL_FILENAME]) (EveryNEntries 100)
      (durable w (?d @ [WAL_FILENAME])) (eng_wal e) (eng_storage e) w'"
    and mem: "eng_memtable e = memtable_new" by metis
  have "engine_ok (recovered_layers L ?d ls w) e w'"
    using ed mem wal_holds_seq [of L "[]" "eng_wal e" w'] wal_not_table
    by (auto simp: opened_def engine_ok_def sstable_path_def mt.inv_empty seq_writer_def seq_handle_def wal_path_def bw_path_def)
  moreover have "server_start (Ok ()) (Ok ()) available spawned (server_new ?cfg (e, w')) =
      (Ok (), (server_new ?cfg (e, w'))\<lparr>workers := replicate (num_cpus available) Waiting, srv_phase := Accepting\<rparr>)"
    by (simp add: server_start_all [OF assms(3)] server_new_def)
  moreover note started [OF this assms(4)]
  ultimately show ?thesis
    using op ed view_recovered [OF mem, of L ?d ls w]
    by (intro exI [of _ "(server_new ?cfg (e, w'))\<lparr>workers := replicate (num_cpus available) Waiting, srv_phase := Accepting\<rparr>"]
        exI [of _ "recovered_layers L ?d ls w"]) (simp add: server_main_def server_new_def opened_def replay_entries_eq)
qed

theorem server_main_serves_witness:
  "\<exists>s. server_main ref_libs \<lparr>arg_data_dir = [''d''], arg_listen = ''127.0.0.1:6379'', arg_max_connections = 1024, arg_memtable_mb = 64\<rparr>
     (Ok ()) (Ok ()) (Some 2) (\<lambda>_. None) demo_root = Running s \<and> workers s = [Waiting, Waiting]"
proof -
  have "disk_ready ref_libs [''d''] [] demo_root"
    using demo_fresh by (simp add: disk_ready_def fresh_disk_def ids_room_def content_def demo_config_def)
  then have "disk_ready ref_libs (arg_data_dir \<lparr>arg_data_dir = [''d''], arg_listen = ''127.0.0.1:6379'',
      arg_max_connections = 1024, arg_memtable_mb = 64\<rparr>) [] demo_root" by simp
  moreover have "faults demo_root = []" "replicate (num_cpus (Some 2)) Waiting = [Waiting, Waiting]" "num_cpus (Some 2) < 2 ^ 64"
    by (simp add: demo_root_def, simp add: num_cpus_def numeral_2_eq_2, simp add: num_cpus_def)
  ultimately show ?thesis using server_main_serves [of ref_libs _ "[]" demo_root "\<lambda>_. None" "Some 2"] by metis
qed

end
