(* ===== verification/Deployment.thy ===== *)
theory Deployment
  imports Service Batched Server_Binary
begin

section \<open>The server as it is shipped (src/src/bin/server.rs)\<close>

text \<open>
  The server binary syncs every 100 entries. The clients of a running server see a map, and a crash
  of the process costs the last writes they were told had succeeded: fewer than 100 of them, and
  always the most recent ones of all clients together.
\<close>

subsection \<open>Commands and writes\<close>

definition writes_of :: "command list \<Rightarrow> operation list" where
  "writes_of cs = List.map_filter write_of cs"

lemma writes_of_simps [simp]:
  "writes_of [] = []" "writes_of (cs @ cs') = writes_of cs @ writes_of cs'"
  "write_of c = None \<Longrightarrow> writes_of (c # cs) = writes_of cs" "write_of c = Some op \<Longrightarrow> writes_of (c # cs) = op # writes_of cs"
  by (simp_all add: writes_of_def List.map_filter_def)

lemma spec_exec_write:
  "write_of c = Some op \<Longrightarrow> spec_exec c m = (None, apply_view op m)"
  "write_of c = None \<Longrightarrow> snd (spec_exec c m) = m"
  by (cases c; auto)+

lemma spec_serve_fold: "snd (spec_serve cs m) = fold apply_view (writes_of cs) m"
proof (induction cs arbitrary: m)
  case (Cons c cs)
  then show ?case by (cases "write_of c") (simp_all add: spec_exec_write case_prod_beta)
qed simp

lemma writes_of_prefix: "j \<le> length (writes_of cs) \<Longrightarrow> \<exists>k. writes_of (take k cs) = take j (writes_of cs)"
proof (induction cs arbitrary: j)
  case (Cons c cs)
  show ?case
  proof (cases "write_of c")
    case None
    with Cons obtain k where "writes_of (take k cs) = take j (writes_of cs)" by auto
    with None show ?thesis by (intro exI [of _ "Suc k"]) simp
  next
    case (Some op)
    show ?thesis
    proof (cases j)
      case 0
      then show ?thesis by (intro exI [of _ 0]) simp
    next
      case (Suc i)
      with Cons Some obtain k where "writes_of (take k cs) = take i (writes_of cs)" by auto
      with Some Suc show ?thesis by (intro exI [of _ "Suc k"]) simp
    qed
  qed
qed simp

subsection \<open>A command on an engine that syncs in batches\<close>

lemma batched_command:
  assumes st: "batched_state L d c e w m (writes_of post)" and env: "faults w = []" "now w \<noteq> None"
    and room: "room_for L cmd e" and run: "execute_command L cmd (e, w) = (r, e', w')"
  shows "r = Ok (response_ok (fst (spec_exec cmd (fold apply_view (writes_of post) m)))) \<and>
    (batched_state L d c e' w' m (writes_of (post @ [cmd])) \<or>
     batched_state L d c e' w' (fold apply_view (writes_of (post @ [cmd])) m) [])"
proof (cases "write_of cmd")
  case None
  then consider key where "cmd = Get key" | "cmd = Ping" by (cases cmd) auto
  then show ?thesis
  proof cases
    case 1
    obtain x e1 w1 where g: "engine_get key (e, w) = (x, e1, w1)" by (metis prod_cases3)
    from batched_get(2) [OF st g] env have x: "x = Ok (fold apply_view (writes_of post) m key)" by simp
    then have "r = Ok (response_ok (fold apply_view (writes_of post) m key))" "e' = e1" "w' = w1"
      using run g 1 by (auto simp: execute_command_def split: option.splits)
    with batched_get(1) [OF st g] 1 show ?thesis by simp
  next
    case 2
    with run st show ?thesis by (auto simp: execute_command_def)
  qed
next
  case (Some op)
  then have ex: "execute L cmd (e, w) = andThen (engine_write L op (e, w)) (\<lambda>_ s. (Ok None, s))" and room': "has_room L op e"
    using room by (cases cmd; simp add: engine_write_eq; blast)+
  obtain ls es where "store_state L d ls es e w" "healthy e" using batched_stateE [OF st] by metis
  from write_available [OF this room' env] obtain e1 w1 where wr: "engine_write L op (e, w) = (Ok (), e1, w1)" by blast
  then have "r = Ok (response_ok None)" "e' = e1" "w' = w1" using run ex by (simp_all add: execute_command_def)
  with batched_write [OF st room' wr] Some show ?thesis by (auto simp: spec_exec_write split: if_splits)
qed

subsection \<open>The running server\<close>

text \<open>
  The abstract store keeps the commands in the order of their execution and answers from the map
  that they make. The concrete server is related to it when the engine has some of them on the disk
  and the writes of the others pending.
\<close>

fun log_service :: "(bytes \<rightharpoonup> bytes) \<Rightarrow> command list \<Rightarrow> service_event \<Rightarrow> command list \<Rightarrow> bool" where
  "log_service m cs (Executed i c r) cs' \<longleftrightarrow>
     cs' = cs @ [c] \<and> r = Ok (response_ok (fst (spec_exec c (fold apply_view (writes_of cs) m))))"
| "log_service m cs Internal cs' \<longleftrightarrow> cs' = cs"

definition batching :: "'h libs \<Rightarrow> path \<Rightarrow> usize \<Rightarrow> (bytes \<rightharpoonup> bytes) \<Rightarrow> server \<Rightarrow> command list \<Rightarrow> bool" where
  "batching L d c m s cs \<longleftrightarrow> faults (srv_world s) = [] \<and> now (srv_world s) \<noteq> None \<and>
     (\<exists>pre post. cs = pre @ post \<and>
       batched_state L d c (srv_engine s) (srv_world s) (fold apply_view (writes_of pre) m) (writes_of post))"

lemma batching_step:
  assumes rel: "batching L d c m s cs" and step: "calm_step L s ev s'"
  shows "\<exists>cs'. log_service m cs ev cs' \<and> batching L d c m s' cs'"
proof -
  from rel obtain pre post where cs: "cs = pre @ post" and env: "faults (srv_world s) = []" "now (srv_world s) \<noteq> None"
    and st: "batched_state L d c (srv_engine s) (srv_world s) (fold apply_view (writes_of pre) m) (writes_of post)"
    by (auto simp: batching_def)
  from step have "service_step L s ev s'" and calm: "faults (srv_world s') = []" "now (srv_world s') \<noteq> None"
    by (simp_all add: calm_step_def)
  from this(1) show ?thesis
  proof cases
    case (executes i con cmd)
    let ?t = "worker_turn L i con s"
    obtain x where x: "execute_command L cmd (srv_engine s, srv_world s) = (x, srv_engine ?t, srv_world ?t)"
      using worker_turn_executes [OF executes(4,5)] by (metis prod.collapse)
    note b = batched_command [OF st env executes(6) x]
    from b have "log_service m cs ev (cs @ [cmd])" using executes x by (simp add: cs)
    moreover have "batching L d c m s' (cs @ [cmd])"
    proof -
      from b have "\<exists>pre' post'. cs @ [cmd] = pre' @ post' \<and>
          batched_state L d c (srv_engine ?t) (srv_world ?t) (fold apply_view (writes_of pre') m) (writes_of post')"
      proof (elim conjE disjE)
        assume "batched_state L d c (srv_engine ?t) (srv_world ?t) (fold apply_view (writes_of pre) m) (writes_of (post @ [cmd]))"
        then show ?thesis using cs by (intro exI [of _ pre] exI [of _ "post @ [cmd]"]) simp
      next
        assume "batched_state L d c (srv_engine ?t) (srv_world ?t)
          (fold apply_view (writes_of (post @ [cmd])) (fold apply_view (writes_of pre) m)) []"
        then show ?thesis using cs by (intro exI [of _ "cs @ [cmd]"] exI [of _ "[]"]) simp
      qed
      with calm executes show ?thesis by (simp add: batching_def)
    qed
    ultimately show ?thesis by blast
  next
    case internal
    from server_step_quiet [OF internal(2,3)] obtain f t where
      "srv_engine s' = srv_engine s" "srv_world s' = (srv_world s)\<lparr>faults := f, now := t\<rparr>" by auto
    with st calm cs have "batching L d c m s' cs" unfolding batching_def by (auto simp: batched_state_environment)
    with internal show ?thesis by auto
  qed
qed

interpretation batched: trace_simulation "calm_step L" "log_service m" "batching L d c m" for L :: "'h libs" and m d c
  by unfold_locales (rule batching_step)

lemma log_run:
  "trace_run (log_service m) cs tr cs' \<Longrightarrow> cs' = cs @ executed_commands tr \<and>
   responses_of tr = map Ok (fst (spec_serve (executed_commands tr) (fold apply_view (writes_of cs) m)))"
proof (induction rule: trace_run.induct)
  case (more_steps cs ev cs' tr cs'')
  show ?case
  proof (cases ev)
    case (Executed i c r)
    have "fold apply_view (writes_of (cs @ [c])) m = snd (spec_exec c (fold apply_view (writes_of cs) m))"
      by (cases "write_of c") (simp_all add: spec_exec_write)
    with more_steps Executed show ?thesis by (simp add: case_prod_beta)
  next
    case Internal
    with more_steps show ?thesis by simp
  qed
qed simp

subsection \<open>The start and the crash\<close>

definition recovered_map :: "'h libs \<Rightarrow> path \<Rightarrow> (u64 \<times> entries) list \<Rightarrow> world \<Rightarrow> bytes \<rightharpoonup> bytes" where
  "recovered_map L d ls w = (\<lambda>key. live ((merged snd ls ++ memtable_get (replay_entries
     (fst (scan L (content w (d @ [WAL_FILENAME])))) memtable_new)) key))"

lemma open_batched:
  assumes "disk_ready L (data_dir cfg) ls w" and "faults w = []" and "sync_strategy_of cfg = EveryNEntries c" and "0 < c"
  obtains e w' where "engine_open L cfg w = (Ok e, w')" and "faults w' = []"
    and "batched_state L (data_dir cfg) c e w' (recovered_map L (data_dir cfg) ls w) []"
proof -
  let ?d = "data_dir cfg"
  obtain e w' where op: "engine_open L cfg w = (Ok e, w')" and st: "store_state L ?d (recovered_layers L ?d ls w) [] e w'"
    and rest: "healthy e" "sync_strategy (eng_wal e) = sync_strategy_of cfg" "uncommitted_count (eng_wal e) = 0" "faults w' = []"
    and v: "view (recovered_layers L ?d ls w) e =
      fold apply_view (map operation (fst (scan L (content w (?d @ [WAL_FILENAME]))))) (base_view ls)"
    using open_ready [OF assms(1,2) refl] by metis
  have "batched_state L ?d c e w' (view (recovered_layers L ?d ls w) e) []"
    by (rule batched_state_synced [OF st _ _ _ assms(4)]) (use rest assms(3) in simp_all)
  moreover have "view (recovered_layers L ?d ls w) e = recovered_map L ?d ls w"
    unfolding v recovered_map_def replay_entries_eq replay_view ..
  ultimately show ?thesis using op rest by (intro that [of e w']) simp_all
qed

lemma start_keeps_engine:
  "server_start bound nonblocking available spawned s = (Ok (), s') \<Longrightarrow> srv_engine s' = srv_engine s \<and> srv_world s' = srv_world s"
proof -
  have "spawn_workers rs s = (Ok u, s') \<Longrightarrow> srv_engine s' = srv_engine s \<and> srv_world s' = srv_world s" for rs s s' u
    by (induction rs s rule: spawn_workers.induct) auto
  then show "server_start bound nonblocking available spawned s = (Ok (), s') \<Longrightarrow> srv_engine s' = srv_engine s \<and> srv_world s' = srv_world s"
    by (fastforce simp: server_start_def andThen_Ok_iff split: outcome.splits)
qed

text \<open>What the process leaves when it is killed: the engine opens again and has a prefix of the commands.\<close>

lemma batching_killed:
  assumes rt: "bincode_roundtrip L" and rel: "batching L (data_dir cfg) c m s cs" and ids: "ids_left (srv_engine s)"
    and cfg: "sync_strategy_of cfg = EveryNEntries c"
  shows "\<exists>kept lost e w. cs = kept @ lost \<and> length (writes_of lost) < unat c \<and>
    engine_open L cfg (srv_world s) = (Ok e, w) \<and>
    (\<forall>key. fst (engine_get key (e, w)) = Ok (snd (spec_serve kept m) key))"
proof -
  from rel obtain pre post where cs: "cs = pre @ post" and nf: "faults (srv_world s) = []"
    and st: "batched_state L (data_dir cfg) c (srv_engine s) (srv_world s) (fold apply_view (writes_of pre) m) (writes_of post)"
    by (auto simp: batching_def)
  obtain e w j where op: "engine_open L cfg (srv_world s) = (Ok e, w)" and j: "j \<le> length (writes_of post)" and "faults w = []"
    and st': "batched_state L (data_dir cfg) c e w (fold apply_view (take j (writes_of post)) (fold apply_view (writes_of pre) m)) []"
    by (rule batched_reopen [OF rt st ids nf cfg])
  from writes_of_prefix [OF j] obtain k where k: "writes_of (take k post) = take j (writes_of post)" by blast
  have "length (writes_of post) < unat c" using batched_stateE [OF st] by metis
  moreover have "writes_of post = writes_of (take k post) @ writes_of (drop k post)" by (metis append_take_drop_id writes_of_simps(2))
  ultimately have "length (writes_of (drop k post)) < unat c" by simp
  moreover have "fst (engine_get key (e, w)) = Ok (snd (spec_serve (pre @ take k post) m) key)" for key
    using batched_get(2) [OF st', of key] \<open>faults w = []\<close> k
    by (cases "engine_get key (e, w)") (simp add: spec_serve_fold)
  ultimately show ?thesis using op cs
    by (intro exI [of _ "pre @ take k post"] exI [of _ "drop k post"] exI [of _ e] exI [of _ w]) simp
qed

subsection \<open>Properties\<close>


text \<open>One client of a fresh server, for the witness: it is accepted, and its \<open>Put\<close> is executed.\<close>

definition demo_server_args :: server_args where
  "demo_server_args = \<lparr>arg_data_dir = [''d''], arg_listen = ''127.0.0.1:6379'', arg_max_connections = 1024, arg_memtable_mb = 64\<rparr>"

definition shipped_engine :: engine where
  "shipped_engine = demo_engine\<lparr>eng_config := config_of_args demo_server_args,
     eng_wal := (eng_wal demo_engine)\<lparr>sync_strategy := EveryNEntries 100\<rparr>\<rparr>"

definition shipped :: server where
  "shipped = (server_new (config_of_args demo_server_args) (shipped_engine, demo_opened))\<lparr>workers := [Waiting, Waiting], srv_phase := Accepting\<rparr>"

definition demo_client :: tcp_stream where
  "demo_client = conn_stream (demo_connection (encode_command (Put [1] [2])))"

lemma shipped_open: "engine_open ref_libs (config_of_args demo_server_args) demo_root = (Ok shipped_engine, demo_opened)"
  by code_simp

lemma shipped_running: "server_main ref_libs demo_server_args (Ok ()) (Ok ()) (Some 2) (\<lambda>_. None) demo_root = Running shipped"
  by (simp add: server_main_def shipped_open server_start_all shipped_def server_new_def num_cpus_def numeral_2_eq_2)

lemma shipped_store [simp]:
  "srv_engine shipped = shipped_engine" "srv_world shipped = demo_opened" "work_queue shipped = []" "active_count shipped = 0"
  "workers shipped = [Waiting, Waiting]" "srv_phase shipped = Accepting" "shutdown_flag shipped = False"
  "srv_config shipped = config_of_args demo_server_args"
  by (simp_all add: shipped_def server_new_def)

lemma idle_step:
  assumes "server_step L s s'" and "\<And>c. Serving c \<notin> set (workers s)" and "srv_world s' = demo_opened"
  shows "calm_step L s Internal s'"
proof -
  have "\<not> command_turn L s s'" using assms(2) by (auto simp: command_turn_def) (metis nth_mem)
  with assms(1,3) show ?thesis by (simp add: calm_step_def internal) (simp add: demo_opened_def)
qed

definition demo_serving :: connection where
  "demo_serving = (case connection_new demo_client of Ok c \<Rightarrow>
     snd (set_timeouts (read_timeout_ms (srv_config shipped)) (write_timeout_ms (srv_config shipped)) c))"

lemma demo_accepted:
  "trace_run (calm_step ref_libs) shipped (replicate 5 Internal) (shipped\<lparr>workers := [Serving demo_serving, Waiting], active_count := 1\<rparr>)"
proof -
  have sock: "\<exists>c. connection_new demo_client = Ok c"
    by (simp add: connection_new_def demo_client_def demo_connection_def Let_def)
  have "calm_step ref_libs shipped Internal (shipped\<lparr>srv_phase := Polling\<rparr>)"
    by (rule idle_step [OF poll]) simp_all
  moreover have "calm_step ref_libs (shipped\<lparr>srv_phase := Polling\<rparr>) Internal (shipped\<lparr>srv_phase := Dispatching demo_client\<rparr>)"
    using idle_step [OF client [of "shipped\<lparr>srv_phase := Polling\<rparr>" ref_libs demo_client]]
    by (simp add: accept_connection_def demo_server_args_def)
  moreover have "calm_step ref_libs (shipped\<lparr>srv_phase := Dispatching demo_client\<rparr>) Internal (shipped\<lparr>work_queue := [NewConnection demo_client]\<rparr>)"
    using idle_step [OF dispatch [of "shipped\<lparr>srv_phase := Dispatching demo_client\<rparr>" demo_client ref_libs]]
    by (simp add: send_message_def channel_full_def demo_server_args_def shipped_def server_new_def)
  moreover have "calm_step ref_libs (shipped\<lparr>work_queue := [NewConnection demo_client]\<rparr>) Internal
      (shipped\<lparr>workers := [Starting demo_client, Waiting], active_count := 1\<rparr>)"
    using idle_step [OF receive [of 0 "shipped\<lparr>work_queue := [NewConnection demo_client]\<rparr>" "NewConnection demo_client" "[]" ref_libs]]
    by (simp add: set_worker_def shipped_def server_new_def)
  moreover have "calm_step ref_libs (shipped\<lparr>workers := [Starting demo_client, Waiting], active_count := 1\<rparr>) Internal
      (shipped\<lparr>workers := [Serving demo_serving, Waiting], active_count := 1\<rparr>)"
    using idle_step [OF connect [of 0 "shipped\<lparr>workers := [Starting demo_client, Waiting], active_count := 1\<rparr>" demo_client ref_libs]] sock
    by (auto simp: worker_connect_def set_worker_def demo_serving_def shipped_def server_new_def)
  ultimately show ?thesis by (simp add: eval_nat_numeral trace_run_Cons_iff trace_run_Nil_iff) blast
qed

lemma demo_disk_ready: "disk_ready ref_libs (arg_data_dir demo_server_args) [] demo_root"
  using demo_fresh by (simp add: demo_server_args_def disk_ready_def fresh_disk_def ids_room_def content_def demo_config_def)

lemma demo_serving_reader: "conn_reader demo_serving = \<lparr>inbox = encode_command (Put [1] [2]), hangup = eof_error\<rparr>"
  by (simp add: demo_serving_def set_timeouts_reader connection_new_def demo_client_def demo_connection_def Let_def)

lemma shipped_put:
  obtains s where "trace_run (calm_step ref_libs) shipped (replicate 5 Internal @ [Executed 0 (Put [1] [2]) (Ok (response_ok None))]) s"
    and "ids_left (srv_engine s)"
proof -
  let ?s = "shipped\<lparr>workers := [Serving demo_serving, Waiting], active_count := 1\<rparr>" and ?op = "OpPut [1] [2]"
  let ?t = "worker_turn ref_libs 0 demo_serving ?s"
  have room: "has_room ref_libs ?op shipped_engine" using demo_room by (simp add: has_room_def shipped_engine_def)
  have "batched_state ref_libs (data_dir (config_of_args demo_server_args)) 100 shipped_engine demo_opened
      (recovered_map ref_libs (data_dir (config_of_args demo_server_args)) [] demo_root) []"
  proof (rule open_batched [of ref_libs "config_of_args demo_server_args" "[]" demo_root 100])
    show "disk_ready ref_libs (data_dir (config_of_args demo_server_args)) [] demo_root" using demo_disk_ready by simp
  qed (use shipped_open in \<open>simp_all add: demo_root_def\<close>)
  from batched_stateE [OF this] obtain ls es where
    st: "store_state ref_libs (data_dir (config_of_args demo_server_args)) ls es shipped_engine demo_opened" "healthy shipped_engine" by metis
  have env: "faults demo_opened = []" "now demo_opened \<noteq> None" by (simp_all add: demo_opened_def)
  have "sync_strategy (eng_wal shipped_engine) = EveryNEntries 100" by (simp add: shipped_engine_def)
  moreover have "\<not> memtable_size_limit (eng_config shipped_engine) \<le> fst (memtable_apply ?op (eng_memtable shipped_engine))"
    by (simp add: shipped_engine_def demo_engine_def demo_server_args_def memtable_put_def memtable_new_def Let_def
        apply_size_delta_def old_entry_size_def bt_get_def)
  ultimately obtain e w where wr: "engine_write ref_libs ?op (shipped_engine, demo_opened) = (Ok (), e, w)"
    and after: "faults w = []" "now w \<noteq> None" "eng_storage e = eng_storage shipped_engine"
    using small_write [OF st room env] by metis
  then have ex: "execute_command ref_libs (Put [1] [2]) (shipped_engine, demo_opened) = (Ok (response_ok None), e, w)"
    by (simp add: execute_command_def engine_write_eq)
  have cmd: "next_command 0 ?s = Some (Put [1] [2])"
    using cmds.read_encode [of "Put [1] [2]" "conn_reader demo_serving" "[]"]
    by (simp add: next_command_def demo_serving_reader command_fits_def MAX_PAYLOAD_SIZE_def)
  have t: "srv_engine ?t = e" "srv_world ?t = w" using worker_turn_executes [of ?s 0 demo_serving, OF _ cmd, of ref_libs] ex by simp_all
  have "service_step ref_libs ?s (Executed 0 (Put [1] [2]) (Ok (response_ok None))) ?t"
    using executes [of 0 ?s demo_serving, OF _ _ cmd, of ref_libs] room ex by simp
  then have "calm_step ref_libs ?s (Executed 0 (Put [1] [2]) (Ok (response_ok None))) ?t" using after t by (simp add: calm_step_def)
  then have "trace_run (calm_step ref_libs) shipped (replicate 5 Internal @ [Executed 0 (Put [1] [2]) (Ok (response_ok None))]) ?t"
    unfolding trace_run_append_iff trace_run_Cons_iff trace_run_Nil_iff using demo_accepted by blast
  moreover have "ids_left (srv_engine ?t)" using after(3) t(1) demo_ids by (simp add: ids_left_def shipped_engine_def)
  ultimately show ?thesis by (rule that)
qed


end
