(* ===== verification/Torn_Tables.thy ===== *)
theory Torn_Tables
  imports Sessions
begin

section \<open>Tables that were not finished (src/src/storage/manager.rs, src/src/engine.rs)\<close>

text \<open>
  \<open>StorageManager::flush\<close> creates the file of the new table under its final name and fills it
  through a buffer, so a crash or an error before \<open>finish\<close> leaves an empty or a cut file. What
  \<open>StorageManager::open\<close> makes of the directory then.
\<close>

subsection \<open>Opening a reader changes nothing\<close>

definition quiet_handle :: "rhandle \<times> world \<Rightarrow> rhandle \<times> world \<Rightarrow> bool" where
  "quiet_handle s s' \<longleftrightarrow> quiet (snd s) (snd s')"

lemma quiet_handle_refl [intro, simp]: "quiet_handle s s"
  by (simp add: quiet_handle_def)

lemma quiet_handle_trans: "quiet_handle s t \<Longrightarrow> quiet_handle t u \<Longrightarrow> quiet_handle s u"
  by (auto simp: quiet_handle_def intro: quiet_trans)

lemma reads_quiet:
  "quiet_handle s (snd (read_exact n s))" "quiet_handle s (snd (seek_start off s))" "quiet_handle s (snd (seek_end_back k s))"
  using read_exact_effect(1) [of n "fst s" "snd s"] seek_start_effect(1) [of off "fst s" "snd s"]
    seek_end_back_effect(1) [of k "fst s" "snd s"] by (simp_all add: quiet_handle_def) (metis prod.collapse)+

interpretation qh: effect_order quiet_handle
  by unfold_locales (auto intro: quiet_handle_trans)

interpretation qw: effect_order quiet
  by unfold_locales (auto intro: quiet_trans)

lemma load_reader_quiet: "quiet_handle s (snd (load_reader n s))"
  unfolding load_reader_def Let_def
  by (intro qh.keeps_intros) (auto simp: reads_quiet split: prod.split)

lemma file_open_quiet: "quiet w (snd (file_open p w))"
  using file_open_effect(1) [of p w] by (metis prod.collapse)

lemma reader_open_quiet: "quiet w (snd (reader_open p w))"
proof -
  have load: "quiet v (snd (case load_reader n (h, v) of (r, h, w) \<Rightarrow> (r, w)))" for n h v
    using load_reader_quiet [of "(h, v)" n] by (auto simp: quiet_handle_def split: prod.splits)
  show ?thesis
    unfolding reader_open_def
    by (intro qw.keeps_intros load) (auto simp: file_open_quiet metadata_len_quiet [OF surjective_pairing])
qed

lemma open_readers_quiet: "quiet w (snd (open_readers dir ids w))"
  by (induction ids arbitrary: w) (auto intro!: qw.keeps_intros reader_open_quiet)

subsection \<open>A file that is too short for the header\<close>

definition torn_table :: "path \<Rightarrow> world \<Rightarrow> bool" where
  "torn_table p w \<longleftrightarrow> is_file w p \<and> length (content w p) < SST_HEADER_SIZE"

lemma torn_table_quiet: "quiet w w' \<Longrightarrow> torn_table p w' = torn_table p w"
  by (simp add: torn_table_def quiet_same)

lemma torn_table_dirs: "dirs_made dir w w' \<Longrightarrow> torn_table p w' = torn_table p w"
  by (simp add: torn_table_def dirs_made_files)

lemma reader_open_torn:
  assumes "faults w = []" and "torn_table p w"
  shows "fst (reader_open p w) = Err (Io eof_error)"
  using assms by (auto simp: torn_table_def reader_open_def load_reader_def io_simps read_exact_def Let_def SST_HEADER_SIZE_def)

lemma open_readers_torn:
  assumes "faults w = []" and "torn_table (sstable_path_with_dir dir i) w" and "i \<in> set ids"
  shows "fst (open_readers dir ids w) \<noteq> Ok rds"
  using assms
proof (induction ids arbitrary: w rds)
  case (Cons j ids)
  obtain r w1 where o: "reader_open (sstable_path_with_dir dir j) w = (r, w1)" by fastforce
  then have q: "quiet w w1" using reader_open_quiet [of w "sstable_path_with_dir dir j"] by simp
  then have nf: "faults w1 = []" using Cons.prems(1) by (simp add: quiet_def)
  show ?case
  proof (cases r)
    case (Ok rd)
    with reader_open_torn [OF Cons.prems(1,2)] o Cons.prems(3) have "i \<in> set ids" by auto
    from Cons.IH [OF nf _ this] q Cons.prems(2) torn_table_quiet have "fst (open_readers dir ids w1) \<noteq> Ok rds" for rds by metis
    with o Ok show ?thesis by (cases "open_readers dir ids w1"; cases "fst (open_readers dir ids w1)") auto
  qed (use o in simp_all)
qed simp

subsection \<open>Opening the directory\<close>

text \<open>\<open>StorageManager::open\<close> creates directories and reads; it changes no file.\<close>

definition same_files :: "world \<Rightarrow> world \<Rightarrow> bool" where
  "same_files w w' \<longleftrightarrow> (faults w = [] \<longrightarrow> faults w' = []) \<and> (\<forall>q. is_file w' q = is_file w q \<and> content w' q = content w q)"

interpretation sf: effect_order same_files
  by unfold_locales (auto simp: same_files_def)

lemma same_files_torn: "same_files w w' \<Longrightarrow> torn_table p w' = torn_table p w"
  by (simp add: same_files_def torn_table_def)

lemma quiet_same_files: "quiet w w' \<Longrightarrow> same_files w w'"
  by (simp add: same_files_def quiet_def is_file_def content_def lookup_def)

lemma syscall_same_files: "same_files w (snd (syscall w))"
  using syscall_quiet [OF surjective_pairing, of w] by (blast intro: quiet_same_files)

lemma create_dir_all_same_files: "same_files w (snd (create_dir_all d w))"
proof -
  have "dirs_made d v (make_dirs [] d v)" for v using make_dirs_effect [of "[]" d v] by (simp add: dirs_made_def)
  then have "same_files v (make_dirs [] d v)" for v using dirs_made_files [of d v] by (simp add: same_files_def)
  then show ?thesis unfolding create_dir_all_def
    by (intro sf.keeps_intros) (auto simp: syscall_same_files sf.eff_refl)
qed

lemma read_dir_same_files: "same_files w (snd (read_dir d w))"
  unfolding read_dir_def by (intro sf.keeps_intros) (auto simp: syscall_same_files)

lemma path_is_file_same_files: "same_files w (snd (path_is_file p w))"
  using syscall_same_files [of w] by (cases "syscall w"; cases "fst (syscall w)") (auto simp: path_is_file_def)

lemma discover_same_files: "same_files w (snd (discover ps w))"
proof (induction ps arbitrary: w)
  case (Cons p ps)
  have "same_files v (snd (case path_is_file p v of (isf, u) \<Rightarrow> andThen (discover ps u) (\<lambda>ids u. (Ok (f isf ids), u))))" for v f
    using path_is_file_same_files [of v p] Cons.IH
    by (auto split: prod.split intro!: sf.keeps_intros intro: sf.eff_trans)
  then show ?case by (auto intro!: sf.andThen_keeps simp: syscall_same_files)
qed (simp add: sf.eff_refl)

lemma storage_open_same_files: "same_files w (snd (storage_open dir w))"
  unfolding storage_open_def Let_def
  by (intro sf.keeps_intros) (auto simp: create_dir_all_same_files read_dir_same_files discover_same_files
      quiet_same_files [OF open_readers_quiet])

lemma storage_open_torn:
  assumes nf: "faults w = []" and torn: "torn_table (sstable_path_with_dir dir i) w"
  shows "fst (storage_open dir w) \<noteq> Ok sm"
proof -
  let ?p = "sstable_path_with_dir dir i"
  obtain r w1 where c: "create_dir_all dir w = (r, w1)" by fastforce
  with create_dir_all_same_files [of w dir] have s1: "same_files w w1" by simp
  then have w1: "faults w1 = []" "torn_table ?p w1" using nf torn same_files_torn by (auto simp: same_files_def)
  have "?p \<in> fst ` set (fs w1)" using w1(2) by (auto simp: torn_table_def is_file_def lookup_def split: option.splits dest: map_of_SomeD intro: rev_image_eqI)
  let ?ps = "filter (\<lambda>p. p \<noteq> [] \<and> butlast p = dir) (map fst (fs w1))"
  have "?p \<in> set ?ps" using \<open>?p \<in> fst ` set (fs w1)\<close> by (simp add: sstable_path_with_dir_def)
  moreover have "i \<in> set (id_of w1 ?p)" using w1(2) by (simp add: id_of_mem parse_sstable_path torn_table_def)
  ultimately have "i \<in> set (rev (sort (concat (map (id_of w1) ?ps))))" unfolding set_rev set_sort set_concat set_map by blast
  then have fails: "fst (open_readers dir (rev (sort (concat (map (id_of w1) ?ps)))) w1) \<noteq> Ok rds" for rds
    by (rule open_readers_torn [OF w1])
  consider e where "read_dir dir w1 = (Err e, w1)" | "read_dir dir w1 = (Ok ?ps, w1)"
    using w1(1) by (cases "is_file w1 dir"; cases "dir \<noteq> [] \<and> \<not> exists_path w1 dir") (auto simp: read_dir_def io_simps)
  then show ?thesis
  proof cases
    case 1
    with c show ?thesis by (cases r) (simp_all add: storage_open_def)
  next
    case 2
    obtain x w2 where o: "open_readers dir (rev (sort (concat (map (id_of w1) ?ps)))) w1 = (x, w2)" by fastforce
    with fails have "\<forall>rds. x \<noteq> Ok rds" by simp
    with 2 o c w1(1) show ?thesis by (cases r; cases x) (simp_all add: storage_open_def discover_no_faults Let_def)
  qed
qed

text \<open>\<open>Engine::open\<close> opens the storage before it looks at the log.\<close>

lemma engine_open_torn:
  assumes nf: "faults w = []" and torn: "torn_table (sstable_path_with_dir (data_dir cfg @ [SSTABLE_DIR]) i) w"
    and run: "engine_open L cfg w = (r, w')"
  shows "r \<noteq> Ok e" and "same_files w w'"
proof -
  let ?d = "data_dir cfg" and ?s = "data_dir cfg @ [SSTABLE_DIR]"
  obtain r1 w1 where c1: "create_dir_all ?d w = (r1, w1)" by fastforce
  obtain r2 w2 where c2: "create_dir_all ?s w1 = (r2, w2)" by fastforce
  obtain r3 w3 where c3: "storage_open ?s w2 = (r3, w3)" by fastforce
  have s1: "same_files w w1" and s2: "same_files w1 w2" and s3: "same_files w2 w3"
    using create_dir_all_same_files [of w ?d] create_dir_all_same_files [of w1 ?s] storage_open_same_files [of w2 ?s] c1 c2 c3
    by simp_all
  have s12: "same_files w w2" by (rule sf.eff_trans [OF s1 s2])
  then have "faults w2 = []" "torn_table (sstable_path_with_dir ?s i) w2" using nf torn same_files_torn by (auto simp: same_files_def)
  from storage_open_torn [OF this] c3 have no: "r3 \<noteq> Ok sm" for sm by simp
  have res: "(w' = w1 \<or> w' = w2 \<or> w' = w3) \<and> (\<forall>e. r \<noteq> Ok e)"
    using run c1 c2 c3 no by (cases r1; cases r2; cases r3) (auto simp: engine_open_def Let_def)
  then show "r \<noteq> Ok e" by blast
  from res s1 s12 sf.eff_trans [OF s12 s3] show "same_files w w'" by blast
qed


lemma reopen_torn:
  assumes nf: "faults w = []" and torn: "torn_table (sstable_path_with_dir (data_dir cfg @ [SSTABLE_DIR]) i) w"
  shows "same_files w (((\<lambda>w. snd (engine_open L cfg w)) ^^ n) w)"
proof (induction n)
  case (Suc n)
  let ?w = "((\<lambda>w. snd (engine_open L cfg w)) ^^ n) w"
  have "faults ?w = []" "torn_table (sstable_path_with_dir (data_dir cfg @ [SSTABLE_DIR]) i) ?w"
    using Suc nf torn same_files_torn by (auto simp: same_files_def)
  from sf.eff_trans [OF Suc engine_open_torn(2) [OF this surjective_pairing]] show ?case by simp
qed (simp add: sf.eff_refl)

subsection \<open>A crash while a table is built\<close>

text \<open>The header stays in the buffer of the builder: the file is empty at first.\<close>

lemma builder_new_buffers:
  assumes "builder_new L p w = (Ok b, w')"
  shows "\<exists>h. open_truncate p w = (Ok h, w')"
proof -
  obtain r w1 where op: "open_truncate p w = (r, w1)" by fastforce
  then show ?thesis using assms
    by (cases r) (auto simp: builder_new_def write_all_def bufwriter_new_def BUF_CAPACITY_def MAGIC_def str_bytes_def)
qed

definition remove_file :: "path \<Rightarrow> world \<Rightarrow> world" where
  "remove_file p w = w\<lparr>fs := filter (\<lambda>x. fst x \<noteq> p) (fs w)\<rparr>"

lemma lookup_remove_file: "lookup (remove_file p w) q = (if q = p then None else lookup w q)"
proof -
  have "map_of (filter (\<lambda>x. fst x \<noteq> p) xs) q = (if q = p then None else map_of xs q)" for xs :: "(path \<times> node) list"
    by (induction xs) auto
  then show ?thesis by (simp add: remove_file_def lookup_def)
qed

text \<open>The file that a crash leaves there, and what is left of the disk without it.\<close>

lemma crash_in_builder:
  assumes new: "lookup w p = None" and run: "builder_new L p w = (Ok b, w1)" and crash: "crash w1 w2"
  shows "torn_table p w2" and "crash w (remove_file p w2)"
proof -
  obtain h where "open_truncate p w = (Ok h, w1)" using builder_new_buffers [OF run] by blast
  note op = open_truncate_Ok [OF this]
  have "lookup w1 p = Some (FileNode [] [])" using op(2) new by (simp add: durable_def)
  with crash obtain n where n: "lookup w2 p = Some n" "after_crash (FileNode [] []) n" by (auto simp: crash_def)
  then have "n = FileNode [] []" by (cases n) auto
  with n(1) show "torn_table p w2" by (simp add: torn_table_def is_file_def content_def SST_HEADER_SIZE_def)
  have fresh: "p \<notin> fst ` set (fs w)" using new by (simp add: lookup_def map_of_eq_None_iff)
  have "map fst (fs w2) = map fst (fs w) @ [p]" using crash op(4) new by (simp add: crash_def exists_path_def)
  moreover have "map fst (fs (remove_file p w2)) = filter (\<lambda>q. q \<noteq> p) (map fst (fs w2))"
    by (simp add: remove_file_def filter_map comp_def)
  ultimately have "map fst (fs (remove_file p w2)) = filter (\<lambda>q. q \<noteq> p) (map fst (fs w) @ [p])" by simp
  also have "\<dots> = map fst (fs w)" using fresh by (auto simp: filter_id_conv)
  finally have names: "map fst (fs (remove_file p w2)) = map fst (fs w)" .
  have "\<exists>n'. lookup (remove_file p w2) q = Some n' \<and> after_crash n n'" if q: "lookup w q = Some n" for q n
  proof -
    have "q \<noteq> p" using q new by auto
    with op(3) q have "lookup w1 q = Some n" using frame_lookup [OF op(3)] by simp
    with crash \<open>q \<noteq> p\<close> show ?thesis by (simp add: crash_def lookup_remove_file)
  qed
  with names show "crash w (remove_file p w2)" by (simp add: crash_def)
qed

subsection \<open>A table that cannot be looked at\<close>

text \<open>
  \<open>Path::is_file\<close> answers \<open>false\<close> when the metadata cannot be read. The open then succeeds without the
  table, and the ids start again at 1: the next flush truncates a table that is still there.
\<close>

lemma metadata_error_skips_table:
  assumes "create_dir_all dir w = (Ok (), w1)" and "read_dir dir w1 = (Ok [p], w2)" and "faults w2 = [None, Some f]"
  shows "\<exists>w'. storage_open dir w = (Ok \<lparr>storage_data_dir = dir, sstables = [], next_sstable_id = 1\<rparr>, w')"
  using assms by (cases f) (simp add: storage_open_def path_is_file_def next_id_after_def syscall.simps next_fault.simps Let_def)

subsection \<open>Properties\<close>

text \<open>C22: A crash at the start of a flush locks the store. The new table exists as an empty file, under a
  name that every open takes for a table; whatever happens to the disk otherwise, no later
  \<open>Engine::open\<close> succeeds, however often it is tried. The data is still there: with that file
  removed the engine opens with all acknowledged writes.\<close>

theorem flush_crash_blocks_open:
  assumes "session L cfg e w m" and "bincode_roundtrip L" and "sync_strategy_of cfg = EveryWrite" and "ids_left e"
    and "p = sstable_path (eng_storage e) (next_sstable_id (eng_storage e))" and "lookup w p = None"
    and "builder_new L p w = (Ok b, w1)" and "crash w1 w2" and "faults w2 = []"
  shows "(\<forall>n e'. fst (engine_open L cfg (((\<lambda>w. snd (engine_open L cfg w)) ^^ n) w2)) \<noteq> Ok e') \<and>
    (\<exists>e' w'. engine_open L cfg (remove_file p w2) = (Ok e', w') \<and> session L cfg e' w' m)"
proof -
  from session_invariant [OF assms(1-3)] obtain ls es where
    "durable_state L (data_dir cfg) ls es e w" by (auto simp: session_state_def)
  from store_stateD(2) [OF durable_store [OF this]] assms(5)
  have p: "p = sstable_path_with_dir (data_dir cfg @ [SSTABLE_DIR]) (next_sstable_id (eng_storage e))" by (simp add: sstable_path_def)
  note left = crash_in_builder [OF assms(6-8)]
  have "fst (engine_open L cfg (((\<lambda>w. snd (engine_open L cfg w)) ^^ n) w2)) \<noteq> Ok e'" for n e'
  proof -
    let ?w = "((\<lambda>w. snd (engine_open L cfg w)) ^^ n) w2"
    have "same_files w2 ?w" using reopen_torn [OF assms(9)] left(1) p by blast
    then have "faults ?w = []" "torn_table p ?w" using assms(9) left(1) same_files_torn by (auto simp: same_files_def)
    with engine_open_torn(1) [OF _ _ surjective_pairing] p show ?thesis by blast
  qed
  moreover have "faults (remove_file p w2) = []" using assms(9) by (simp add: remove_file_def)
  from session_reopens [OF assms(1-4) left(2) this] obtain e' w' where
    "engine_open L cfg (remove_file p w2) = (Ok e', w')" "session L cfg e' w' m" .
  ultimately show ?thesis by blast
qed

theorem flush_crash_blocks_open_witness:
  "\<exists>w2. (\<forall>e'. fst (engine_open ref_libs demo_config w2) \<noteq> Ok e') \<and> crash demo_opened (remove_file [''d'', SSTABLE_DIR, ''sstable_000001.sst''] w2)"
proof -
  let ?p = "sstable_path (eng_storage demo_engine) (next_sstable_id (eng_storage demo_engine))"
  have p: "?p = [''d'', SSTABLE_DIR, ''sstable_000001.sst'']" by code_simp
  have none: "lookup demo_opened ?p = None" and nf: "faults demo_opened = []"
    unfolding p by (simp_all add: lookup_def demo_opened_def WAL_FILENAME_def SSTABLE_DIR_def)
  have "lookup demo_opened (butlast ?p) = Some DirNode"
    unfolding p by (simp add: lookup_def demo_opened_def WAL_FILENAME_def SSTABLE_DIR_def)
  with builder_new_effect(4) [where L = ref_libs and p = ?p and w = demo_opened, OF surjective_pairing] none nf obtain b where
    "fst (builder_new ref_libs ?p demo_opened) = Ok b" by (auto simp: exists_path_def)
  then obtain w1 where b: "builder_new ref_libs ?p demo_opened = (Ok b, w1)" by (metis prod.collapse)
  have "faults w1 = []" using builder_new_effect(1) [OF b] nf by (rule frame_no_faults)
  from flush_crash_blocks_open [OF demo_session ref_libs_ok(1) demo_every_write demo_ids refl none b crash_refl this]
  have "fst (engine_open ref_libs demo_config (((\<lambda>w. snd (engine_open ref_libs demo_config w)) ^^ 0) w1)) \<noteq> Ok e'" for e' by blast
  with crash_in_builder(2) [OF none b crash_refl] p show ?thesis by auto
qed

end
