(* ===== verification/Log_Ahead.thy ===== *)
theory Log_Ahead
  imports Batched
begin

section \<open>Logs with entries of failed writes (src/src/wal/writer.rs, src/src/engine.rs)\<close>

text \<open>
  A write whose append fails can leave its entry, or a piece of it, in the log, while the memtable
  does not have it. What a restart makes of such a log (\<open>recoverable\<close>), and what the operations of the
  engine make of it when the process goes on (\<open>log_ahead\<close>).
\<close>

subsection \<open>What a restart can find\<close>

text \<open>
  The disk holds the tables \<open>ls\<close>; the log is known to have the entries \<open>sure\<close> and may have some of
  the entries \<open>rest\<close> after them, the last one possibly torn. When nothing is sure, a crash of the
  machine can also bring back an older log, the one that was synced last.
\<close>

definition recoverable :: "'h libs \<Rightarrow> path \<Rightarrow> (u64 \<times> entries) list \<Rightarrow> wal_entry list \<Rightarrow> wal_entry list \<Rightarrow> world \<Rightarrow> bool" where
  "recoverable L d ls sure rest w \<longleftrightarrow> (let p = d @ [WAL_FILENAME] in
     disk_tables (d @ [SSTABLE_DIR]) ls w \<and> tables_safe (d @ [SSTABLE_DIR]) ls w \<and> is_file w p \<and>
     list_all (loggable L) (sure @ rest) \<and> prefix (log_bytes L sure) (content w p) \<and>
     prefix (content w p) (log_bytes L (sure @ rest)) \<and>
     (sure \<noteq> [] \<longrightarrow> durable w p = log_bytes L sure))"

lemma recoverableD:
  assumes "recoverable L d ls sure rest w"
  shows "disk_tables (d @ [SSTABLE_DIR]) ls w" and "tables_safe (d @ [SSTABLE_DIR]) ls w" and "is_file w (d @ [WAL_FILENAME])"
    and "list_all (loggable L) sure" and "list_all (loggable L) rest" and "prefix (log_bytes L sure) (content w (d @ [WAL_FILENAME]))"
    and "prefix (content w (d @ [WAL_FILENAME])) (log_bytes L (sure @ rest))"
    and "sure \<noteq> [] \<Longrightarrow> durable w (d @ [WAL_FILENAME]) = log_bytes L sure"
  using assms by (simp_all add: recoverable_def Let_def)

lemma recoverable_world_cong:
  assumes "fs w' = fs w"
  shows "recoverable L d ls sure rest w' = recoverable L d ls sure rest w"
proof -
  have "lookup w' q = lookup w q" for q using assms by (simp add: lookup_def)
  then have "is_file w' q = is_file w q" "content w' q = content w q" "durable w' q = durable w q" "lookup w' q = lookup w q" for q
    by (simp_all add: is_file_def content_def durable_def)
  with assms show ?thesis by (simp add: recoverable_def Let_def disk_tables_def table_file_def tables_safe_def)
qed

text \<open>The logs a restart can find, and the contents it makes of them.\<close>

definition old_log :: "'h libs \<Rightarrow> path \<Rightarrow> world \<Rightarrow> wal_entry list" where
  "old_log L d w = fst (scan L (durable w (d @ [WAL_FILENAME])))"

definition survivors :: "'h libs \<Rightarrow> path \<Rightarrow> (u64 \<times> entries) list \<Rightarrow> wal_entry list \<Rightarrow> wal_entry list \<Rightarrow> world \<Rightarrow> (bytes \<rightharpoonup> bytes) set" where
  "survivors L d ls sure rest w = (\<lambda>es. fold apply_view (map operation es) (base_view ls)) `
     ({sure @ take k rest | k. True} \<union> (if sure = [] then {old_log L d w} else {}))"

lemma recoverable_crash:
  assumes rt: "bincode_roundtrip L" and rec: "recoverable L d ls sure rest w" and cr: "crash w w'"
  defines "found \<equiv> fst (scan L (content w' (d @ [WAL_FILENAME])))"
  shows "(\<exists>k. found = sure @ take k rest) \<or> sure = [] \<and> found = old_log L d w"
proof -
  let ?p = "d @ [WAL_FILENAME]"
  note R = recoverableD [OF rec]
  have some: "\<exists>k. found = sure @ take k rest"
    if c: "prefix (log_bytes L sure) (content w' ?p)" "prefix (content w' ?p) (log_bytes L (sure @ rest))"
  proof -
    from c(1) obtain u where u: "content w' ?p = log_bytes L sure @ u" by (auto simp: prefix_def)
    with c(2) have "prefix u (log_bytes L rest)" by simp
    from scan_prefix [OF rt R(5) this] obtain k where "fst (scan L u) = take k rest" by blast
    then show ?thesis using scan_log [OF rt R(4), of u] by (auto simp: found_def u)
  qed
  consider "content w' ?p = content w ?p" | "content w' ?p = durable w ?p"
    | "prefix (durable w ?p) (content w' ?p)" "prefix (content w' ?p) (content w ?p)"
    using crash_file [OF cr R(3)] by auto
  then show ?thesis
  proof cases
    case 1
    with some R(6,7) show ?thesis by simp
  next
    case 2
    then show ?thesis using some R(8) by (cases "sure = []") (simp_all add: found_def old_log_def)
  next
    case 3
    have "prefix (log_bytes L sure) (content w' ?p)" using 3(1) R(8) by (cases "sure = []") simp_all
    with some 3(2) R(7) show ?thesis using prefix_order.trans by blast
  qed
qed

text \<open>The engine that is opened on the tables and whatever log is found there.\<close>

lemma reopen_found:
  assumes tab: "disk_tables (d @ [SSTABLE_DIR]) ls w" "tables_safe (d @ [SSTABLE_DIR]) ls w" and isf: "is_file w (d @ [WAL_FILENAME])"
    and cr: "crash w w'" and nf: "faults w' = []" and ids: "ids_room ls" and cfg: "data_dir cfg = d"
    and fits: "log_fits (fst (scan L (content w' (d @ [WAL_FILENAME]))))"
  obtains e w'' where "engine_open L cfg w' = (Ok e, w'')"
    and "\<And>key. fst (engine_get key (e, w'')) =
      Ok (fold apply_view (map operation (fst (scan L (content w' (d @ [WAL_FILENAME]))))) (base_view ls) key)"
proof -
  have "disk_ready L d ls w'"
    using crash_disk_tables [OF cr tab] ids fits isf crash_is_file [OF cr] by (simp add: disk_ready_def)
  from open_ready [OF this nf cfg] that show ?thesis by metis
qed

lemma recoverable_reopen:
  assumes rt: "bincode_roundtrip L" and rec: "recoverable L d ls sure rest w" and cr: "crash w w'" and nf: "faults w' = []"
    and ids: "ids_room ls" and cfg: "data_dir cfg = d" and fits: "log_fits (fst (scan L (content w' (d @ [WAL_FILENAME]))))"
  obtains e w'' m where "engine_open L cfg w' = (Ok e, w'')" and "m \<in> survivors L d ls sure rest w"
    and "\<And>key. fst (engine_get key (e, w'')) = Ok (m key)"
proof -
  define found where "found = fst (scan L (content w' (d @ [WAL_FILENAME])))"
  obtain e w'' where op: "engine_open L cfg w' = (Ok e, w'')"
    and get: "\<And>key. fst (engine_get key (e, w'')) = Ok (fold apply_view (map operation found) (base_view ls) key)"
    using reopen_found [OF recoverableD(1-3) [OF rec] cr nf ids cfg fits] unfolding found_def by blast
  have "fold apply_view (map operation found) (base_view ls) \<in> survivors L d ls sure rest w"
    using recoverable_crash [OF rt rec cr, folded found_def] unfolding survivors_def by auto
  with op get that show ?thesis by blast
qed

text \<open>What a write adds to the logs.\<close>

lemma survivors_take: "fold apply_view (map operation (sure @ take k rest)) (base_view ls) \<in> survivors L d ls sure rest w"
  unfolding survivors_def by (intro imageI) blast

lemma survivors_whole: "fold apply_view (map operation (sure @ rest)) (base_view ls) \<in> survivors L d ls sure rest w"
  using survivors_take [of sure "length rest" rest] by simp

lemma survivors_sure: "sure \<noteq> [] \<Longrightarrow> survivors L d ls sure [] w = {fold apply_view (map operation sure) (base_view ls)}"
  by (auto simp: survivors_def)

lemma survivors_written: "survivors L d ls (sure @ rest @ [en]) [] w' \<subseteq> apply_view (operation en) ` survivors L d ls sure rest w"
  using survivors_whole [of sure rest ls L d w] by (auto simp: survivors_sure)

lemma survivors_failed:
  assumes "durable w' (d @ [WAL_FILENAME]) = durable w (d @ [WAL_FILENAME])"
    and rest': "rest' = rest \<or> (\<exists>en. operation en = op \<and> rest' = rest @ [en])"
  shows "survivors L d ls sure rest' w' \<subseteq> survivors L d ls sure rest w \<union> apply_view op ` survivors L d ls sure rest w"
proof
  fix m assume "m \<in> survivors L d ls sure rest' w'"
  then consider k where "m = fold apply_view (map operation (sure @ take k rest')) (base_view ls)"
    | "sure = []" "m = fold apply_view (map operation (old_log L d w)) (base_view ls)"
    using assms(1) by (auto simp: survivors_def old_log_def split: if_splits)
  then show "m \<in> survivors L d ls sure rest w \<union> apply_view op ` survivors L d ls sure rest w"
  proof cases
    case (1 k)
    show ?thesis
    proof (cases "take k rest' = take k rest")
      case True
      with 1 survivors_take [of sure k rest ls L d w] show ?thesis by simp
    next
      case False
      with rest' obtain en where en: "operation en = op" "rest' = rest @ [en]" by auto
      with False have t: "take k rest' = rest @ [en]" by (cases "k \<le> length rest") simp_all
      from 1 have "m = apply_view op (fold apply_view (map operation (sure @ rest)) (base_view ls))" unfolding t using en(1) by simp
      with survivors_whole [of sure rest ls L d w] show ?thesis by auto
    qed
  next
    case 2
    then show ?thesis by (auto simp: survivors_def)
  qed
qed

subsection \<open>A log that is ahead of the memtable\<close>

text \<open>
  An engine with entries in its log whose writes failed, so that the memtable does not have them:
  \<open>rest\<close> are those behind the last entry that was acknowledged.
\<close>

definition log_ahead :: "'h libs \<Rightarrow> path \<Rightarrow> (u64 \<times> entries) list \<Rightarrow> wal_entry list \<Rightarrow> wal_entry list \<Rightarrow> engine \<Rightarrow> world \<Rightarrow> bool" where
  "log_ahead L d ls sure rest e w \<longleftrightarrow> recoverable L d ls sure rest w \<and> engine_ok ls e w \<and>
     storage_data_dir (eng_storage e) = d @ [SSTABLE_DIR] \<and> wal_path (eng_wal e) = d @ [WAL_FILENAME] \<and>
     sync_strategy (eng_wal e) = EveryWrite \<and> wal_holds L (sure @ rest) (eng_wal e) w \<and>
     length (sure @ rest) < unat (current_lsn (eng_wal e)) \<and>
     dom (memtable_get (eng_memtable e)) \<subseteq> (op_key \<circ> operation) ` set (sure @ rest)"

lemma durable_log_ahead:
  assumes "durable_state L d ls es e w"
  shows "log_ahead L d ls es [] e w"
proof -
  note D = durable_stateD [OF assms]
  have "is_file w (d @ [WAL_FILENAME])" using D(5,7) by (simp add: wal_holds_def seq_writer_def seq_handle_def wal_path_def bw_path_def)
  moreover have "dom (memtable_get (eng_memtable e)) \<subseteq> (op_key \<circ> operation) ` set es"
    unfolding D(12) mt.get_replay [OF mt.inv_empty] mt.get_empty by (auto dest!: map_of_SomeD)
  ultimately show ?thesis using D durable_state_ok [OF assms] by (simp add: log_ahead_def recoverable_def Let_def)
qed

lemma durable_survivors:
  assumes "durable_state L d ls es e w"
  shows "survivors L d ls es [] w = {view ls e}"
proof (cases "es = []")
  case True
  have "fold apply_view (map operation (old_log L d w)) (base_view ls) = base_view ls"
    using durable_stateD(13) [OF assms True] unfolding replay_view [symmetric]
    by (simp add: old_log_def absorbed_def base_view_def)
  then show ?thesis using True store_view [OF durable_store [OF assms]] by (simp add: survivors_def)
next
  case False
  then show ?thesis using store_view [OF durable_store [OF assms]] by (simp add: survivors_sure)
qed

text \<open>What an append that fails, and one that succeeds, make of the disk.\<close>

lemma recoverable_keeps:
  assumes rec: "recoverable L d ls sure rest w" and k: "keeps (d @ [WAL_FILENAME]) w w'"
  shows "disk_tables (d @ [SSTABLE_DIR]) ls w'" and "tables_safe (d @ [SSTABLE_DIR]) ls w'" and "is_file w' (d @ [WAL_FILENAME])"
  using disk_tables_keeps [OF recoverableD(1) [OF rec] k] tables_safe_frame [OF recoverableD(2) [OF rec], of "d @ [WAL_FILENAME]" w']
    recoverableD(3) [OF rec] k wal_not_table by (simp_all add: keeps_def)

lemma recoverable_failed:
  assumes rec: "recoverable L d ls sure rest w" and k: "keeps (d @ [WAL_FILENAME]) w w'"
    and dur: "durable w' (d @ [WAL_FILENAME]) = durable w (d @ [WAL_FILENAME])"
    and grow: "prefix (content w (d @ [WAL_FILENAME])) (content w' (d @ [WAL_FILENAME]))"
    and ok: "list_all (loggable L) rest'" and upto: "prefix (content w' (d @ [WAL_FILENAME])) (log_bytes L (sure @ rest'))"
  shows "recoverable L d ls sure rest' w'"
  using recoverableD [OF rec] recoverable_keeps [OF rec k] dur ok upto prefix_order.trans [OF recoverableD(6) [OF rec] grow]
  by (simp add: recoverable_def Let_def)

lemma recoverable_synced:
  assumes rec: "recoverable L d ls sure rest w" and k: "keeps (d @ [WAL_FILENAME]) w w'"
    and c: "content w' (d @ [WAL_FILENAME]) = log_bytes L es" "durable w' (d @ [WAL_FILENAME]) = log_bytes L es"
    and ok: "list_all (loggable L) es" "es \<noteq> []"
  shows "recoverable L d ls es [] w'"
  using recoverable_keeps [OF rec k] c ok by (simp add: recoverable_def Let_def)

lemma recoverable_more:
  assumes "recoverable L d ls sure rest w" and "loggable L en"
  shows "recoverable L d ls sure (rest @ [en]) w"
  using assms prefix_prefix [OF recoverableD(7) [OF assms(1)], of "entry_bytes L en"] by (simp add: recoverable_def Let_def)

lemma log_aheadD:
  assumes "log_ahead L d ls sure rest e w"
  shows "recoverable L d ls sure rest w" and "engine_ok ls e w" and "storage_data_dir (eng_storage e) = d @ [SSTABLE_DIR]"
    and "wal_path (eng_wal e) = d @ [WAL_FILENAME]" and "sync_strategy (eng_wal e) = EveryWrite"
    and "wal_holds L (sure @ rest) (eng_wal e) w" and "length (sure @ rest) < unat (current_lsn (eng_wal e))"
    and "dom (memtable_get (eng_memtable e)) \<subseteq> (op_key \<circ> operation) ` set (sure @ rest)"
  using assms by (simp_all add: log_ahead_def)

lemma new_entry_room:
  "has_room L op e \<Longrightarrow> wal_entry_new (current_lsn (eng_wal e)) op w = Ok en \<Longrightarrow> operation en = op \<and> loggable L en"
  by (auto simp: wal_entry_new_def has_room_def split: option.splits)

lemma ahead_append_Ok:
  assumes st: "log_ahead L d ls sure rest e w" and room: "has_room L op e"
    and run: "with_wal (wal_append L op) (e, w) = (Ok n, e1, w1)"
  obtains en where "operation en = op" and "log_ahead L d ls (sure @ rest @ [en]) [] e1 w1"
proof -
  note A = log_aheadD [OF st]
  let ?es = "sure @ rest" and ?p = "d @ [WAL_FILENAME]"
  from with_wal_Ok [OF run] obtain wr where app: "wal_append L op (eng_wal e, w) = (Ok n, wr, w1)"
    and e1: "e1 = e\<lparr>eng_wal := wr\<rparr>" by blast
  have lsn: "unat (current_lsn (eng_wal e)) < 2 ^ 64 - 1" using room by (simp add: has_room_def)
  then have short: "length ?es < 2 ^ 64 - 1" using A(7) by simp
  from wal_append_Ok [OF A(6) short app] obtain en where new: "wal_entry_new n op w = Ok en" and n: "n = current_lsn (eng_wal e)"
    and lsn': "current_lsn wr = n + 1" and fr: "wal_frame (eng_wal e, w) (wr, w1)" and holds: "wal_holds L (?es @ [en]) wr w1"
    and c: "content w1 ?p = log_bytes L (?es @ [en])" "durable w1 ?p = log_bytes L (?es @ [en])"
    using A(4,5) by metis
  note en = new_entry_room [OF room new [unfolded n]]
  have k: "keeps ?p w w1" using wal_append_keeps [of "(eng_wal e, w)" L op] app A(4) by (simp add: wal_keeps_def)
  have "recoverable L d ls (?es @ [en]) [] w1"
    using recoverableD(4,5) [OF A(1)] en by (intro recoverable_synced [OF A(1) k c]) simp_all
  moreover have "engine_ok ls e1 w1" by (rule with_wal_ok(1) [OF A(2) run wal_append_keeps])
  moreover have "length (?es @ [en]) < unat (current_lsn wr)" using A(7) lsn lsn' n by (simp add: unat_u64_succ)
  ultimately have "log_ahead L d ls (sure @ rest @ [en]) [] e1 w1"
    using A(3-5,8) fr holds by (auto simp: log_ahead_def e1 wal_frame_def)
  with en show ?thesis by (intro that) simp_all
qed

text \<open>An append that fails leaves a log that restarts with the entry or without it.\<close>

lemma ahead_append_fails:
  assumes st: "log_ahead L d ls sure rest e w" and room: "has_room L op e" and free: "\<not> wal_poisoned e"
    and run: "with_wal (wal_append L op) (e, w) = (r, e1, w1)" and err: "\<And>n. r \<noteq> Ok n"
  obtains en where "operation en = op" and "recoverable L d ls sure (rest @ [en]) w1"
    and "durable w1 (d @ [WAL_FILENAME]) = durable w (d @ [WAL_FILENAME])"
proof -
  note A = log_aheadD [OF st]
  let ?p = "d @ [WAL_FILENAME]"
  obtain r0 wr where app: "wal_append L op (eng_wal e, w) = (r0, wr, w1)" and r0: "\<And>n. r0 \<noteq> Ok n"
    using run err free by (auto simp: with_wal_def split: prod.splits outcome.splits if_splits)
  from wal_append_fails [OF wal_holds_seq [OF A(6)] app r0] obtain torn where
    adv: "advances (wal_file (eng_wal e), w) torn (wal_file wr, w1)"
    and t: "torn = [] \<or> (\<exists>en. wal_entry_new (current_lsn (eng_wal e)) op w = Ok en \<and> prefix torn (entry_bytes L en))" by blast
  obtain en where en: "operation en = op" "loggable L en" "prefix torn (entry_bytes L en)"
  proof (cases "torn = []")
    case True
    with room that [of "\<lparr>lsn = current_lsn (eng_wal e), operation = op, timestamp = 0\<rparr>"] show ?thesis by (simp add: has_room_def)
  next
    case False
    with t that new_entry_room [OF room] show ?thesis by blast
  qed
  have "bw_path (wal_file wr) = ?p" using adv A(4) by (simp add: advances_def wal_path_def)
  moreover have "stream (wal_file wr) w1 = log_bytes L (sure @ rest) @ torn"
    using advances_stream [OF adv] wal_holds_stream [OF A(6)] by (simp add: wal_stream_def)
  ultimately have "content w1 ?p @ buf (wal_file wr) = log_bytes L (sure @ rest) @ torn" by (simp add: stream_def)
  then have "prefix (content w1 ?p) (log_bytes L (sure @ rest) @ torn)" by (metis prefixI)
  moreover have "prefix (log_bytes L (sure @ rest) @ torn) (log_bytes L (sure @ rest @ [en]))" using en(3) by simp
  ultimately have upto: "prefix (content w1 ?p) (log_bytes L (sure @ rest @ [en]))" using prefix_order.trans by blast
  have k: "keeps ?p w w1" using wal_append_keeps [of "(eng_wal e, w)" L op] app A(4) by (simp add: wal_keeps_def)
  have dur: "durable w1 ?p = durable w ?p" "prefix (content w ?p) (content w1 ?p)"
    using adv A(4) by (simp_all add: advances_def wal_path_def)
  from recoverable_failed [OF A(1) k dur _ upto] recoverableD(5) [OF A(1)] en dur(1) show ?thesis by (intro that) simp_all
qed

text \<open>An entry that fits the buffer is in the log as a whole or not at all, also when its append fails.\<close>

lemma ahead_append_small_fails:
  assumes st: "log_ahead L d ls sure rest e w" and room: "has_room L op e" and free: "\<not> wal_poisoned e"
    and run: "with_wal (wal_append L op) (e, w) = (r, e1, w1)" and err: "\<And>n. r \<noteq> Ok n"
    and small: "\<And>en. operation en = op \<Longrightarrow> length (entry_bytes L en) < BUF_CAPACITY"
  obtains rest' where "rest' = rest \<or> (\<exists>en. operation en = op \<and> rest' = rest @ [en])" and "log_ahead L d ls sure rest' e1 w1"
proof -
  note A = log_aheadD [OF st]
  let ?p = "d @ [WAL_FILENAME]"
  obtain r0 wr where app: "wal_append L op (eng_wal e, w) = (r0, wr, w1)" and r0: "\<And>n. r0 \<noteq> Ok n" and e1: "eng_wal e1 = wr"
    using run err free by (auto simp: with_wal_def split: prod.splits outcome.splits if_splits)
  have lsn: "unat (current_lsn (eng_wal e)) < 2 ^ 64 - 1" using room by (simp add: has_room_def)
  then have short: "length (sure @ rest) < 2 ^ 64 - 1" using A(7) by simp
  from wal_append_small_fails [OF A(6) short app r0] small new_entry_room [OF room] obtain es' where
    holds: "wal_holds L es' wr w1" and lsn': "current_lsn wr = current_lsn (eng_wal e) + 1"
    and es': "es' = sure @ rest \<or> (\<exists>en. wal_entry_new (current_lsn (eng_wal e)) op w = Ok en \<and> es' = (sure @ rest) @ [en])" by metis
  then obtain rest' where rest': "es' = sure @ rest'" "rest' = rest \<or> (\<exists>en. operation en = op \<and> loggable L en \<and> rest' = rest @ [en])"
    using new_entry_room [OF room] by fastforce
  obtain torn where adv: "advances (wal_file (eng_wal e), w) torn (wal_file wr, w1)"
    using wal_append_fails [OF wal_holds_seq [OF A(6)] app r0] by blast
  have k: "keeps ?p w w1" and fr: "wal_keeps (eng_wal e, w) (wr, w1)"
    using wal_append_keeps [of "(eng_wal e, w)" L op] app A(4) by (simp_all add: wal_keeps_def)
  have "content w1 ?p @ buf (wal_file wr) = log_bytes L (sure @ rest')"
    using wal_holds_stream [OF holds] fr A(4) by (simp add: rest'(1) wal_stream_def stream_def wal_keeps_def wal_path_def)
  then have upto: "prefix (content w1 ?p) (log_bytes L (sure @ rest'))" by (metis prefixI)
  have "durable w1 ?p = durable w ?p" "prefix (content w ?p) (content w1 ?p)"
    using adv A(4) by (simp_all add: advances_def wal_path_def)
  moreover have "list_all (loggable L) rest'" using rest'(2) recoverableD(5) [OF A(1)] by auto
  ultimately have "recoverable L d ls sure rest' w1" using recoverable_failed [OF A(1) k _ _ _ upto] by blast
  moreover note with_wal_ok(1,4) [OF A(2) run wal_append_keeps]
  moreover have "length (sure @ rest') < unat (current_lsn wr)"
    using A(7) lsn lsn' rest'(2) by (auto simp: unat_u64_succ)
  moreover have "eng_memtable e1 = eng_memtable e" by (rule with_wal_ok(3) [OF A(2) run wal_append_keeps])
  ultimately have "log_ahead L d ls sure rest' e1 w1"
    using A(3-5,8) fr holds rest'(2) by (auto simp: log_ahead_def e1 rest'(1) wal_keeps_def)
  with rest'(2) show ?thesis by (intro that) auto
qed

lemma log_ahead_environment: "log_ahead L d ls sure rest e (w\<lparr>faults := f, now := t\<rparr>) = log_ahead L d ls sure rest e w"
proof -
  let ?w = "w\<lparr>faults := f, now := t\<rparr>"
  have "lookup ?w q = lookup w q" for q by (simp add: lookup_def)
  then show ?thesis
    by (simp add: log_ahead_def recoverable_world_cong [of ?w w] engine_ok_def storage_holds_fs [of ?w w] is_file_def
        wal_holds_world_cong [of ?w "eng_wal e" w])
qed

lemma ahead_get:
  assumes st: "log_ahead L d ls sure rest e w" and run: "engine_get key (e, w) = (r, e', w')"
  shows "log_ahead L d ls sure rest e' w'"
proof -
  note A = log_aheadD [OF st]
  note g = engine_get_ok [OF A(2) run]
  have "storage_holds ls (eng_storage e) w" using A(2) by (simp add: engine_ok_def)
  note same = engine_get_same [OF this run]
  have "eng_wal e' = eng_wal e" "eng_memtable e' = eng_memtable e"
    "storage_data_dir (eng_storage e') = storage_data_dir (eng_storage e)"
    using arg_cong [OF same(2), of eng_wal] arg_cong [OF same(2), of eng_memtable] arg_cong [OF same(1), of storage_data_dir] by simp_all
  moreover have "lookup w' q = lookup w q" for q using g(3) by (simp add: lookup_def)
  ultimately show ?thesis
    using A g(1) by (simp add: log_ahead_def recoverable_world_cong [OF g(3)] wal_holds_world_cong [of w' "eng_wal e" w])
qed

subsection \<open>Writes that do not fill the memtable\<close>

definition stays_in_memtable :: "command \<Rightarrow> engine \<Rightarrow> bool" where
  "stays_in_memtable c e \<longleftrightarrow> (case write_of c of None \<Rightarrow> True
     | Some op \<Rightarrow> \<not> memtable_size_limit (eng_config e) \<le> fst (memtable_apply op (eng_memtable e)))"

lemma unfull_write_cases:
  assumes run: "engine_write L op (e, w) = (r, e', w')"
    and small: "\<not> memtable_size_limit (eng_config e) \<le> fst (memtable_apply op (eng_memtable e))"
  obtains (poisoned) "r \<noteq> Ok ()" "e' = e" "w' = w"
  | (written) n e1 where "r = Ok ()" "with_wal (wal_append L op) (e, w) = (Ok n, e1, w')"
      "e' = e1\<lparr>eng_memtable := snd (memtable_apply op (eng_memtable e1))\<rparr>"
  | (failed) r1 e1 where "r \<noteq> Ok ()" "\<not> wal_poisoned e" "with_wal (wal_append L op) (e, w) = (r1, e1, w')" "\<And>n. r1 \<noteq> Ok n"
      "e' = e1 \<or> e' = e1\<lparr>write_lock_poisoned := True\<rparr>"
proof (cases "write_lock_poisoned e \<or> wal_poisoned e")
  case True
  with run show ?thesis by (intro poisoned) (auto simp: engine_write_def with_write_lock_def with_wal_def split: if_splits)
next
  case False
  obtain r1 e1 w1 where app: "with_wal (wal_append L op) (e, w) = (r1, e1, w1)" by (metis prod_cases3)
  show ?thesis
  proof (cases r1)
    case (Ok n)
    from with_wal_Ok [OF app [unfolded Ok]] obtain wr where e1: "e1 = e\<lparr>eng_wal := wr\<rparr>" by blast
    then have "after_write L (memtable_apply op (eng_memtable e1)) (e1, w1) =
        (Ok (), e1\<lparr>eng_memtable := snd (memtable_apply op (eng_memtable e1))\<rparr>, w1)"
      using small by (simp add: after_write_def case_prod_beta Let_def)
    with run app Ok False show ?thesis by (intro written [of n e1]) (auto simp: engine_write_def with_write_lock_def)
  next
    case (Err x)
    with run app False show ?thesis by (intro failed [of r1 e1]) (auto simp: engine_write_def with_write_lock_def)
  next
    case Panic
    with run app False show ?thesis by (intro failed [of r1 e1]) (auto simp: engine_write_def with_write_lock_def)
  qed
qed

lemma log_ahead_fields:
  "log_ahead L d ls sure rest (e\<lparr>write_lock_poisoned := b\<rparr>) w = log_ahead L d ls sure rest e w"
  by (simp add: log_ahead_def engine_ok_def)

text \<open>A write that fails in its append, or meets a poisoned lock.\<close>

lemma ahead_write_fails:
  assumes st: "log_ahead L d ls sure rest e w" and room: "has_room L op e"
    and small: "\<not> memtable_size_limit (eng_config e) \<le> fst (memtable_apply op (eng_memtable e))"
    and run: "engine_write L op (e, w) = (r, e', w')" and err: "r \<noteq> Ok ()"
  obtains en where "operation en = op" and "recoverable L d ls sure (rest @ [en]) w'" and "view ls e' = view ls e"
    and "durable w' (d @ [WAL_FILENAME]) = durable w (d @ [WAL_FILENAME])"
    and "(\<And>en. operation en = op \<Longrightarrow> length (entry_bytes L en) < BUF_CAPACITY) \<Longrightarrow>
         \<exists>rest'. (rest' = rest \<or> (\<exists>en. operation en = op \<and> rest' = rest @ [en])) \<and> log_ahead L d ls sure rest' e' w'"
proof (cases rule: unfull_write_cases [OF run small])
  case 1
  note A = log_aheadD [OF st]
  let ?en = "\<lparr>lsn = current_lsn (eng_wal e), operation = op, timestamp = 0\<rparr>"
  have "loggable L ?en" using room by (simp add: has_room_def)
  then have "recoverable L d ls sure (rest @ [?en]) w" by (rule recoverable_more [OF A(1)])
  with 1 st show ?thesis by (intro that [of ?en]) auto
next
  case (2 n e1)
  with err show ?thesis by simp
next
  case (3 r1 e1)
  note k = with_wal_ok [OF log_aheadD(2) [OF st] 3(3) wal_append_keeps]
  from ahead_append_fails [OF st room 3(2,3,4)] obtain en where en: "operation en = op" "recoverable L d ls sure (rest @ [en]) w'"
    and dur: "durable w' (d @ [WAL_FILENAME]) = durable w (d @ [WAL_FILENAME])" by blast
  have v: "view ls e' = view ls e" using 3(5) k(2) by (auto simp: view_def)
  from en v dur show ?thesis
  proof (rule that)
    assume "\<And>en. operation en = op \<Longrightarrow> length (entry_bytes L en) < BUF_CAPACITY"
    from ahead_append_small_fails [OF st room 3(2,3,4) this] 3(5) show
      "\<exists>rest'. (rest' = rest \<or> (\<exists>en. operation en = op \<and> rest' = rest @ [en])) \<and> log_ahead L d ls sure rest' e' w'"
      using log_ahead_fields by metis
  qed
qed

subsection \<open>Writes that succeed\<close>

text \<open>Replaying writes over their own result, or over part of it, gives the result.\<close>

lemma fold_apply_view_agree:
  assumes "key \<in> op_key ` set ops \<or> m key = m' key"
  shows "fold apply_view ops m key = fold apply_view ops m' key"
  using assms
proof (induction ops arbitrary: m m')
  case (Cons op ops)
  have "key \<in> op_key ` set ops \<or> apply_view op m key = apply_view op m' key" using Cons.prems by (cases op) auto
  then show ?case by (simp add: Cons.IH)
qed simp

lemma replay_over_flush:
  assumes "dom (memtable_get t) \<subseteq> (op_key \<circ> operation) ` set es"
  shows "fold apply_view (map operation es) (\<lambda>key. live ((merged snd ls ++ memtable_get t) key)) =
    fold apply_view (map operation es) (base_view ls)"
proof
  fix key
  have "key \<in> op_key ` set (map operation es) \<or> live ((merged snd ls ++ memtable_get t) key) = base_view ls key"
    using assms by (auto simp: base_view_def map_add_def image_comp split: option.split)
  then show "fold apply_view (map operation es) (\<lambda>key. live ((merged snd ls ++ memtable_get t) key)) key =
    fold apply_view (map operation es) (base_view ls) key" by (rule fold_apply_view_agree)
qed

lemma ahead_flush:
  assumes rt: "bincode_roundtrip L" and st: "log_ahead L d ls sure [] e w" and sure: "sure \<noteq> []"
    and free: "next_free (eng_storage e)" and fit: "entries_fit (memtable_iter (eng_memtable e))"
    and some: "\<not> memtable_is_empty (eng_memtable e)" and run: "flush_internal L (e, w) = (Ok (), e', w')"
  defines "ls' \<equiv> (next_sstable_id (eng_storage e), memtable_iter (eng_memtable e)) # ls"
  shows "log_ahead L d ls' [] [] e' w'" and "view ls' e' = view ls e"
    and "survivors L d ls' [] [] w' \<subseteq> insert (view ls e) (survivors L d ls sure [] w)"
proof -
  note A = log_aheadD [OF st] note R = recoverableD [OF A(1)]
  have ok: "storage_holds ls (eng_storage e) w" "mem_inv (eng_memtable e)" using A(2) by (simp_all add: engine_ok_def)
  obtain sm wr where e': "e' = e\<lparr>eng_storage := sm, eng_memtable := memtable_new, eng_wal := wr\<rparr>"
    and fl: "storage_holds ls' sm w'" "storage_data_dir sm = d @ [SSTABLE_DIR]" "disk_tables (d @ [SSTABLE_DIR]) ls' w'"
    "tables_safe (d @ [SSTABLE_DIR]) ls' w'" "wal_holds L [] wr w'" "wal_path wr = d @ [WAL_FILENAME]"
    "sync_strategy wr = EveryWrite" "current_lsn wr = 1" "content w' (d @ [WAL_FILENAME]) = []"
    "durable w' (d @ [WAL_FILENAME]) = durable w (d @ [WAL_FILENAME])"
    using flush_internal_disk [OF ok(1) A(3) R(1,2) A(4,6) ok(2) fit some free run] unfolding A(5) ls'_def by metis
  have isf: "is_file w' (d @ [WAL_FILENAME])" using fl(5,6) by (simp add: wal_holds_def seq_writer_def seq_handle_def wal_path_def bw_path_def)
  have "recoverable L d ls' [] [] w'" using fl isf by (simp add: recoverable_def Let_def)
  moreover have "engine_ok ls' e' w'" using fl isf mt.inv_empty by (simp add: engine_ok_def e' sstable_path_def wal_not_table)
  ultimately show "log_ahead L d ls' [] [] e' w'" using fl by (simp add: log_ahead_def e' mt.get_empty)
  have view: "view ls e = (\<lambda>key. live ((merged snd ls ++ memtable_get (eng_memtable e)) key))" by (simp add: view_def)
  have base: "base_view ls' = view ls e" unfolding view by (simp add: base_view_def ls'_def memtable_iter_map [OF ok(2)])
  show "view ls' e' = view ls e" unfolding base [symmetric] by (simp add: view_def e' mt.get_empty base_view_def)
  have "old_log L d w' = sure" using scan_log [OF rt R(4), of "[]"] R(8) [OF sure] fl(10) by (simp add: old_log_def)
  then have "survivors L d ls' [] [] w' = {view ls e, fold apply_view (map operation sure) (view ls e)}"
    unfolding survivors_def by (auto simp: base)
  also have "fold apply_view (map operation sure) (view ls e) = fold apply_view (map operation sure) (base_view ls)"
    unfolding view by (rule replay_over_flush) (use A(8) in simp)
  finally show "survivors L d ls' [] [] w' \<subseteq> insert (view ls e) (survivors L d ls sure [] w)"
    using survivors_sure [OF sure, of L d ls w] by simp
qed

lemma ahead_write_Ok:
  assumes rt: "bincode_roundtrip L" and st: "log_ahead L d ls sure rest e w" and room: "has_room L op e" and ids: "ids_room ls" "ids_left e"
    and run: "engine_write L op (e, w) = (Ok (), e', w')"
  obtains ls' sure' where "log_ahead L d ls' sure' [] e' w'" and "ids_room ls'" and "view ls' e' = apply_view op (view ls e)"
    and "survivors L d ls' sure' [] w' \<subseteq> insert (apply_view op (view ls e)) (apply_view op ` survivors L d ls sure rest w)"
proof -
  obtain n e1 w1 where app: "with_wal (wal_append L op) (e, w) = (Ok n, e1, w1)"
    and s2: "(if memtable_size_limit (eng_config e1) \<le> fst (memtable_apply op (eng_memtable e1))
      then flush_internal L (e1\<lparr>eng_memtable := snd (memtable_apply op (eng_memtable e1))\<rparr>, w1) = (Ok (), e', w')
      else e' = e1\<lparr>eng_memtable := snd (memtable_apply op (eng_memtable e1))\<rparr> \<and> w' = w1)"
    by (rule engine_write_Ok [OF run])
  let ?e = "e1\<lparr>eng_memtable := snd (memtable_apply op (eng_memtable e1))\<rparr>"
  note k = with_wal_ok [OF log_aheadD(2) [OF st] app wal_append_keeps]
  from ahead_append_Ok [OF st room app] obtain en where en: "operation en = op" "log_ahead L d ls (sure @ rest @ [en]) [] e1 w1" by blast
  have inv: "mem_inv (eng_memtable e1)" using k(1) by (simp add: engine_ok_def)
  have st1: "log_ahead L d ls (sure @ rest @ [en]) [] ?e w1"
  proof -
    have "dom (memtable_get (eng_memtable ?e)) \<subseteq> (op_key \<circ> operation) ` set ((sure @ rest @ [en]) @ [])"
      using log_aheadD(8) [OF en(2)] en(1) by (auto simp: memtable_apply_get [OF inv])
    moreover have "engine_ok ls ?e w1" using k(1) memtable_apply_inv [OF inv] by (simp add: engine_ok_def)
    ultimately show ?thesis using log_aheadD [OF en(2)] by (simp add: log_ahead_def)
  qed
  have view1: "view ls ?e = apply_view op (view ls e)" using view_apply [OF inv, of ls op] k(2) by simp
  have sv: "survivors L d ls (sure @ rest @ [en]) [] w1 \<subseteq> apply_view op ` survivors L d ls sure rest w"
    using survivors_written [of L d ls sure rest en w1 w] en(1) by simp
  show ?thesis
  proof (cases "memtable_size_limit (eng_config e1) \<le> fst (memtable_apply op (eng_memtable e1))")
    case True
    with s2 have fl: "flush_internal L (?e, w1) = (Ok (), e', w')" by simp
    have "\<not> memtable_is_empty (eng_memtable ?e)"
      using memtable_is_empty_iff [OF memtable_apply_inv [OF inv]] by (simp add: memtable_apply_get [OF inv])
    moreover have "next_free (eng_storage ?e)" "entries_fit (memtable_iter (eng_memtable ?e))" using room k(3,4) by (simp_all add: has_room_def)
    ultimately have *: "log_ahead L d ((next_sstable_id (eng_storage ?e), memtable_iter (eng_memtable ?e)) # ls) [] [] e' w'"
      "view ((next_sstable_id (eng_storage ?e), memtable_iter (eng_memtable ?e)) # ls) e' = view ls ?e"
      "survivors L d ((next_sstable_id (eng_storage ?e), memtable_iter (eng_memtable ?e)) # ls) [] [] w' \<subseteq>
        insert (view ls ?e) (survivors L d ls (sure @ rest @ [en]) [] w1)"
      using ahead_flush [OF rt st1 _ _ _ _ fl] by simp_all
    have "ids_room ((next_sstable_id (eng_storage ?e), memtable_iter (eng_memtable ?e)) # ls)"
      using ids(2) k(4) by (simp add: ids_room_def ids_left_def)
    with * view1 sv show ?thesis by (intro that) auto
  next
    case False
    with s2 st1 view1 sv ids(1) show ?thesis by (intro that) auto
  qed
qed

end
