(* ===== verification/Failed_Writes.thy ===== *)
theory Failed_Writes
  imports Log_Ahead
begin

section \<open>Writes that fail (src/src/wal/writer.rs, src/src/engine.rs)\<close>

text \<open>
  Two ways a write can fail and what follows from them: the entry reaches the file and \<open>fsync\<close> reports
  an error, or an entry larger than the buffer of the writer is torn in the file.
\<close>

subsection \<open>A sync that fails\<close>

text \<open>
  The common failure: the entry reaches the file and \<open>fsync\<close> reports an error. The write is
  rejected and not in the memtable, but the next start recovers it.
\<close>

lemma fsync_fails_append:
  assumes holds: "wal_holds L es wr w" and empty: "buf (wal_file wr) = []" and ew: "sync_strategy wr = EveryWrite"
    and new: "wal_entry_new (current_lsn wr) op w = Ok en" and en: "loggable L en" and short: "length (entry_bytes L en) < BUF_CAPACITY"
    and f: "faults w = [None, Some (Fault n x)]"
  obtains wr' w' where "wal_append L op (wr, w) = (Err (Io x), wr', w')" and "faults w' = []"
    and "content w' (wal_path wr) = content w (wal_path wr) @ entry_bytes L en"
proof -
  let ?h = "inner (wal_file wr)" and ?bs = "entry_bytes L en"
  have ne: "?bs \<noteq> []" using entry_bytes_len_field(1) [OF en] by (auto simp: WAL_HEADER_SIZE_def)
  have ser: "serialize L en = Ok ?bs" by (rule serialize_loggable [OF en])
  let ?w0 = "w\<lparr>faults := [Some (Fault n x)]\<rparr>"
  obtain h w1 where pb: "put_bytes ?bs (?h, ?w0) = (h, w1)" by fastforce
  have fw: "file_write_all ?bs (?h, w) = (Ok (), length ?bs, h, w1)"
    using f ne pb by (simp add: file_write_all_def next_fault.simps)
  have "seq_handle ?h w" using wal_holds_seq [OF holds] by (simp add: seq_writer_def)
  from file_write_all_transfers(1) [OF this fw] have c1: "content w1 (wal_path wr) = content w (wal_path wr) @ ?bs"
    by (simp add: transfers_def wal_path_def bw_path_def)
  have "faults w1 = [Some (Fault n x)]" using pb by (auto simp: put_bytes_def Let_def split: option.splits node.splits)
  then have sync: "sync_all (h, w1) = (Err x, h, w1\<lparr>faults := []\<rparr>)"
    by (simp add: sync_all_def lift_w_def syscall.simps next_fault.simps)
  let ?b = "(wal_file wr)\<lparr>buf := ?bs\<rparr>" and ?wr = "wr\<lparr>current_lsn := current_lsn wr + 1\<rparr>"
  have wa: "write_all ?bs (wal_file wr, w) = (Ok (), ?b, w)" using short empty by (simp add: write_all_def)
  have fl: "flush_buf (?b, w) = (Ok (), ?b\<lparr>inner := h, buf := []\<rparr>, w1)" by (simp add: flush_buf_def fw)
  have "wal_append L op (wr, w) = (Err (Io x), ?wr\<lparr>wal_file := ?b\<lparr>inner := h, buf := []\<rparr>, uncommitted_count := uncommitted_count wr + 1\<rparr>, w1\<lparr>faults := []\<rparr>)"
    using ew by (simp add: wal_append_def new ser wa sync_due_def wal_sync_def on_file_eq fl on_inner_eq sync Let_def)
  moreover have "content (w1\<lparr>faults := []\<rparr>) (wal_path wr) = content w (wal_path wr) @ ?bs" using c1 by (simp add: content_def lookup_def)
  ultimately show ?thesis by (intro that) simp_all
qed

lemma log_fits_room: "durable_state L d ls es e w \<Longrightarrow> has_room L (operation en) e \<Longrightarrow> log_fits (es @ [en])"
  by (drule durable_stateD(12)) (simp add: log_fits_def has_room_def memtable_apply_replay)

lemma fsync_failed_write:
  assumes rt: "bincode_roundtrip L" and st: "durable_state L d ls es e w" and ok: "healthy e" and room: "has_room L op e"
    and new: "wal_entry_new (current_lsn (eng_wal e)) op w = Ok en" and short: "length (entry_bytes L en) < BUF_CAPACITY"
    and f: "faults w = [None, Some (Fault n x)]" and ids: "ids_room ls" and cfg: "data_dir cfg = d"
  obtains e1 w1 e2 w2 where "engine_write L op (e, w) = (Err (Io x), e1, w1)" and "faults w1 = []"
    and "log_fits (fst (scan L (content w1 (d @ [WAL_FILENAME]))))"
    and "\<And>key. fst (engine_get key (e1, w1)) = Ok (view ls e key)"
    and "engine_open L cfg w1 = (Ok e2, w2)" and "\<And>key. fst (engine_get key (e2, w2)) = Ok (apply_view op (view ls e) key)"
proof -
  let ?p = "d @ [WAL_FILENAME]"
  note ds = durable_stateD [OF st]
  have en: "operation en = op" "loggable L en" using new room by (auto simp: wal_entry_new_def has_room_def split: option.splits)
  have buf: "buf (wal_file (eng_wal e)) = []"
    using wal_holds_stream [OF ds(7)] ds(5,8) by (simp add: wal_stream_def stream_def wal_path_def)
  obtain wr w1 where app: "wal_append L op (eng_wal e, w) = (Err (Io x), wr, w1)" and nf: "faults w1 = []"
    and c1: "content w1 (wal_path (eng_wal e)) = content w (wal_path (eng_wal e)) @ entry_bytes L en"
    by (rule fsync_fails_append [OF ds(7) buf ds(6) new en(2) short f])
  let ?e = "e\<lparr>eng_wal := wr\<rparr>"
  have run: "engine_write L op (e, w) = (Err (Io x), ?e, w1)"
    using app ok by (simp add: engine_write_def with_write_lock_def with_wal_def healthy_def)
  have k: "keeps ?p w w1" using wal_append_keeps [of "(eng_wal e, w)" L op] app ds(5) by (simp add: wal_keeps_def)
  have "with_wal (wal_append L op) (e, w) = (Err (Io x), ?e, w1)" using app ok by (simp add: with_wal_def healthy_def)
  note keep = with_wal_ok(1,2) [OF durable_state_ok [OF st] this wal_append_keeps]
  have now1: "fst (engine_get key (?e, w1)) = Ok (view ls e key)" for key
    using engine_get_ok(4) [OF keep(1), of key] nf keep(2) by (cases "engine_get key (?e, w1)") auto
  note tab = recoverable_keeps [OF log_aheadD(1) [OF durable_log_ahead [OF st]] k]
  have content: "content w1 ?p = log_bytes L (es @ [en])" using c1 ds(5,8) by simp
  have sc: "fst (scan L (content w1 ?p)) = es @ [en]"
    using scan_log [OF rt, of "es @ [en]" "[]"] ds(9) en(2) unfolding content by (simp add: scan_empty)
  have fits: "log_fits (es @ [en])" using log_fits_room [OF st, of en] room en(1) by simp
  obtain e2 w2 where op: "engine_open L cfg w1 = (Ok e2, w2)"
    and "\<And>key. fst (engine_get key (e2, w2)) = Ok (fold apply_view (map operation (es @ [en])) (base_view ls) key)"
    using reopen_found [OF tab crash_refl nf ids cfg, of L] fits unfolding sc by metis
  then have "fst (engine_get key (e2, w2)) = Ok (apply_view op (view ls e) key)" for key
    by (simp add: store_view [OF durable_store [OF st]] en(1))
  with run nf fits [folded sc] now1 op show ?thesis by (rule that)
qed

lemma execute_write:
  assumes "write_of c = Some op" and "room_for L c e" and "engine_write L op (e, w) = (r, e1, w1)"
  shows "has_room L op e" and "snd (spec_exec c m) = apply_view op m"
    and "execute L c (e, w) = andThen (r, e1, w1) (\<lambda>_ s. (Ok None, s))"
  using assms by (cases c; auto simp: engine_write_eq)+

lemma session_fsync_fails:
  assumes "session L cfg e w m" and "bincode_roundtrip L" and "sync_strategy_of cfg = EveryWrite" and "ids_left e"
    and "write_of c = Some op" and "room_for L c e" and "wal_entry_new (current_lsn (eng_wal e)) op w = Ok en"
    and "length (entry_bytes L en) < BUF_CAPACITY" and "faults w = [None, Some (Fault n x)]"
  shows "\<exists>e1 w1 e2 w2. execute L c (e, w) = (Err (Io x), e1, w1) \<and> faults w1 = [] \<and>
    log_fits (fst (scan L (content w1 (data_dir cfg @ [WAL_FILENAME])))) \<and> (\<forall>key. fst (engine_get key (e1, w1)) = Ok (m key)) \<and>
    engine_open L cfg w1 = (Ok e2, w2) \<and> (\<forall>key. fst (engine_get key (e2, w2)) = Ok (snd (spec_exec c m) key))"
proof -
  from session_invariant [OF assms(1-3)] obtain ls es where
    st: "durable_state L (data_dir cfg) ls es e w" "m = view ls e" "healthy e" by (auto simp: session_state_def)
  obtain r0 e0 w0 where wr: "engine_write L op (e, w) = (r0, e0, w0)" by (metis prod_cases3)
  note ex = execute_write [OF assms(5,6) wr]
  show ?thesis
  proof (rule fsync_failed_write [OF assms(2) st(1,3) ex(1) assms(7-9) ids_left_room [OF assms(4) st(1)] refl])
    fix e1 w1 e2 w2
    assume "engine_write L op (e, w) = (Err (Io x), e1, w1)" "faults w1 = []" "log_fits (fst (scan L (content w1 (data_dir cfg @ [WAL_FILENAME]))))"
      "\<And>key. fst (engine_get key (e1, w1)) = Ok (view ls e key)"
      "engine_open L cfg w1 = (Ok e2, w2)" "\<And>key. fst (engine_get key (e2, w2)) = Ok (apply_view op (view ls e) key)"
    with wr ex(2,3) st(2) show ?thesis by auto
  qed
qed

subsection \<open>A torn entry\<close>

lemma torn_write:
  assumes st: "durable_state L d ls es e w" and ok: "healthy e" and room: "has_room L op e"
    and new: "wal_entry_new (current_lsn (eng_wal e)) op w = Ok en" and big: "BUF_CAPACITY \<le> length (entry_bytes L en)"
    and f: "faults w = [Some (Fault n x)]" "n < length (entry_bytes L en)"
  obtains wr w1 where "engine_write L op (e, w) = (Err (Io x), e\<lparr>eng_wal := wr\<rparr>, w1)" and "faults w1 = []"
    and "wal_stream wr w1 = log_bytes L es @ take n (entry_bytes L en)" and "seq_writer (wal_file wr) w1"
    and "wal_keeps (eng_wal e, w) (wr, w1)" and "engine_ok ls (e\<lparr>eng_wal := wr\<rparr>) w1"
    and "current_lsn wr = current_lsn (eng_wal e) + 1" and "now w1 = now w"
proof -
  note ds = durable_stateD [OF st]
  have buf: "buf (wal_file (eng_wal e)) = []"
    using wal_holds_stream [OF ds(7)] ds(5,8) by (simp add: wal_stream_def stream_def wal_path_def)
  obtain wr w1 where app: "wal_append L op (eng_wal e, w) = (Err (Io x), wr, w1)" and rest: "faults w1 = []"
    "wal_stream wr w1 = log_bytes L es @ take n (entry_bytes L en)" "seq_writer (wal_file wr) w1"
    "current_lsn wr = current_lsn (eng_wal e) + 1" "now w1 = now w"
    by (rule wal_append_torn [OF ds(7) buf new conjunct2 [OF new_entry_room [OF room new]] big f(2,1)])
  have ww: "with_wal (wal_append L op) (e, w) = (Err (Io x), e\<lparr>eng_wal := wr\<rparr>, w1)"
    using app ok by (simp add: with_wal_def healthy_def)
  then have "engine_write L op (e, w) = (Err (Io x), e\<lparr>eng_wal := wr\<rparr>, w1)"
    using ok by (simp add: engine_write_def with_write_lock_def healthy_def)
  then show ?thesis using rest with_wal_ok(1) [OF durable_state_ok [OF st] ww wal_append_keeps] wal_append_keeps [of "(eng_wal e, w)" L op] app by (intro that [of wr w1]) simp_all
qed

lemma calm_write:
  assumes eok: "engine_ok ls e w" and ok: "healthy e" and seq: "seq_writer (wal_file (eng_wal e)) w" and nf: "faults w = []"
    and ew: "sync_strategy (eng_wal e) = EveryWrite" and room: "has_room L op e"
    and new: "wal_entry_new (current_lsn (eng_wal e)) op w = Ok en"
    and small: "\<not> memtable_size_limit (eng_config e) \<le> fst (memtable_apply op (eng_memtable e))"
  obtains e' w' where "engine_write L op (e, w) = (Ok (), e', w')" and "engine_ok ls e' w'"
    and "view ls e' = apply_view op (view ls e)" and "keeps (wal_path (eng_wal e)) w w'"
    and "content w' (wal_path (eng_wal e)) = wal_stream (eng_wal e) w @ entry_bytes L en"
    and "durable w' (wal_path (eng_wal e)) = wal_stream (eng_wal e) w @ entry_bytes L en"
proof -
  obtain wr w' where app: "wal_append L op (eng_wal e, w) = (Ok (current_lsn (eng_wal e)), wr, w')"
    and c: "content w' (wal_path (eng_wal e)) = wal_stream (eng_wal e) w @ entry_bytes L en"
    "durable w' (wal_path (eng_wal e)) = wal_stream (eng_wal e) w @ entry_bytes L en"
    by (rule wal_append_calm [OF seq nf ew new serialize_loggable [OF conjunct2 [OF new_entry_room [OF room new]]]])
  let ?e = "e\<lparr>eng_wal := wr\<rparr>"
  have ww: "with_wal (wal_append L op) (e, w) = (Ok (current_lsn (eng_wal e)), ?e, w')"
    using app ok by (simp add: with_wal_def healthy_def)
  note k = with_wal_ok [OF eok ww wal_append_keeps]
  have inv: "mem_inv (eng_memtable ?e)" using k(1) by (simp only: engine_ok_def)
  let ?e' = "?e\<lparr>eng_memtable := snd (memtable_apply op (eng_memtable ?e))\<rparr>"
  show ?thesis
  proof (rule that)
    show "engine_write L op (e, w) = (Ok (), ?e', w')"
      using ww ok small by (simp add: engine_write_def with_write_lock_def healthy_def after_write_def case_prod_beta Let_def)
    show "engine_ok ls ?e' w'" using k(1) memtable_apply_inv [OF inv] by (simp add: engine_ok_def)
    show "view ls ?e' = apply_view op (view ls e)" using view_apply [OF inv, of ls op] k(2) by simp
    show "keeps (wal_path (eng_wal e)) w w'" using wal_append_keeps [of "(eng_wal e, w)" L op] app by (simp add: wal_keeps_def)
  qed (rule c)+
qed

text \<open>The second write is acknowledged and synced, and hidden behind the torn entry.\<close>

lemma torn_entry_hides:
  assumes rt: "bincode_roundtrip L" and st: "durable_state L d ls es e w" and ok: "healthy e"
    and room: "has_room L op e" and new: "wal_entry_new (current_lsn (eng_wal e)) op w = Ok en"
    and big: "BUF_CAPACITY \<le> length (entry_bytes L en)" and f: "faults w = [Some (Fault n x)]" "WAL_HEADER_SIZE \<le> n"
    and run: "engine_write L op (e, w) = (r1, e1, w1)"
    and room': "has_room L op' e1" and new': "wal_entry_new (current_lsn (eng_wal e1)) op' w1 = Ok en'"
    and short: "n + length (entry_bytes L en') < length (entry_bytes L en)"
    and small: "\<not> memtable_size_limit (eng_config e1) \<le> fst (memtable_apply op' (eng_memtable e1))"
  obtains e2 w2 where "r1 = Err (Io x)" and "engine_write L op' (e1, w1) = (Ok (), e2, w2)" and "faults w2 = []"
    and "engine_ok ls e2 w2" and "view ls e2 = apply_view op' (view ls e)" and "keeps (d @ [WAL_FILENAME]) w w2"
    and "durable w2 (d @ [WAL_FILENAME]) = content w2 (d @ [WAL_FILENAME])"
    and "fst (scan L (content w2 (d @ [WAL_FILENAME]))) = es"
proof -
  let ?p = "d @ [WAL_FILENAME]"
  note ds = durable_stateD [OF st]
  have n: "n < length (entry_bytes L en)" using short by simp
  obtain wr w1' where run1: "engine_write L op (e, w) = (Err (Io x), e\<lparr>eng_wal := wr\<rparr>, w1')" and nf: "faults w1' = []"
    and str: "wal_stream wr w1' = log_bytes L es @ take n (entry_bytes L en)" and seq: "seq_writer (wal_file wr) w1'"
    and k1: "wal_keeps (eng_wal e, w) (wr, w1')" and ok1: "engine_ok ls (e\<lparr>eng_wal := wr\<rparr>) w1'"
    by (rule torn_write [OF st ok room new big f(1) n])
  from run run1 have res: "r1 = Err (Io x)" "e1 = e\<lparr>eng_wal := wr\<rparr>" "w1 = w1'" by simp_all
  have path: "wal_path (eng_wal e1) = ?p" and ew: "sync_strategy (eng_wal e1) = EveryWrite" and k1: "keeps ?p w w1"
    and h1: "healthy e1" using k1 ds(5,6) ok by (simp_all add: res wal_keeps_def healthy_def)
  obtain e2 w2 where run2: "engine_write L op' (e1, w1) = (Ok (), e2, w2)" and ok2: "engine_ok ls e2 w2"
    and v2: "view ls e2 = apply_view op' (view ls e1)" and k2: "keeps ?p w1 w2"
    and c: "content w2 ?p = wal_stream wr w1 @ entry_bytes L en'" "durable w2 ?p = wal_stream wr w1 @ entry_bytes L en'"
    by (rule calm_write [OF ok1 [folded res(2,3)] h1 _ _ ew room' new' small])
      (use seq nf path in \<open>simp_all add: res\<close>)
  have "scan L (content w2 ?p) = (es, Partial)"
    using scan_log [OF rt ds(9), of "take n (entry_bytes L en) @ entry_bytes L en'"]
      scan_behind_torn [OF conjunct2 [OF new_entry_room [OF room new]] f(2) short] by (simp add: c str res(3))
  moreover have "faults w2 = []" using k2 nf frame_no_faults by (auto simp: keeps_def res(3))
  moreover have "view ls e1 = view ls e" by (simp add: view_def res)
  ultimately show ?thesis using that [OF res(1) run2] ok2 v2 keeps_trans [OF k1 k2] c by simp
qed

subsection \<open>Properties\<close>

lemma length_ref_entry:
  "operation en = OpPut k v \<Longrightarrow> length k < 2 ^ 64 \<Longrightarrow> length v < 2 ^ 64 \<Longrightarrow>
   length (entry_bytes ref_libs en) = WAL_HEADER_SIZE + 36 + length k + length v"
  by (simp add: length_entry_bytes ref_libs_def ref_serialize_def ref_short_def ref_bytes_def)

text \<open>The demo session, with a disk whose next \<open>fsync\<close> fails, for the witnesses.\<close>

definition bad_disk :: world where
  "bad_disk = demo_opened\<lparr>faults := [None, Some (Fault 0 eof_error)], now := Some 5\<rparr>"

lemma bad_disk_session: "session ref_libs demo_config demo_engine bad_disk Map.empty"
  unfolding bad_disk_def by (rule session_environment [OF demo_session])

lemma bad_disk_fails:
  obtains en where "wal_entry_new (current_lsn (eng_wal demo_engine)) (OpPut [1] [2]) bad_disk = Ok en"
    and "length (entry_bytes ref_libs en) < BUF_CAPACITY"
proof -
  let ?en = "\<lparr>lsn = 1, operation = OpPut [1] [2], timestamp = 5\<rparr>"
  have "wal_entry_new (current_lsn (eng_wal demo_engine)) (OpPut [1] [2]) bad_disk = Ok ?en"
    by (simp add: wal_entry_new_def bad_disk_def demo_engine_def)
  moreover have "length (entry_bytes ref_libs ?en) < BUF_CAPACITY"
    by (simp add: length_ref_entry WAL_HEADER_SIZE_def BUF_CAPACITY_def)
  ultimately show ?thesis by (rule that)
qed

text \<open>C20: A failed write can come back. When the entry of a write has reached the file and only the \<open>fsync\<close>
  fails, the client gets the error and every lookup answers as if the write had not happened; when
  the engine is opened the next time, the write is there.\<close>

theorem failed_write_reappears:
  assumes "session L cfg e w m" and "bincode_roundtrip L" and "sync_strategy_of cfg = EveryWrite" and "ids_left e"
    and "write_of c = Some op" and "room_for L c e" and "wal_entry_new (current_lsn (eng_wal e)) op w = Ok en"
    and "length (entry_bytes L en) < BUF_CAPACITY" and "faults w = [None, Some (Fault n x)]"
  shows "\<exists>e1 w1 e2 w2. execute L c (e, w) = (Err (Io x), e1, w1) \<and> (\<forall>key. fst (engine_get key (e1, w1)) = Ok (m key)) \<and>
    engine_open L cfg w1 = (Ok e2, w2) \<and> (\<forall>key. fst (engine_get key (e2, w2)) = Ok (snd (spec_exec c m) key))"
  using session_fsync_fails [OF assms] by blast

theorem failed_write_reappears_witness:
  "\<exists>e1 w1 e2 w2. execute ref_libs (Put [1] [2]) (demo_engine, bad_disk) = (Err (Io eof_error), e1, w1) \<and>
     fst (engine_get [1] (e1, w1)) = Ok None \<and> engine_open ref_libs demo_config w1 = (Ok e2, w2) \<and>
     fst (engine_get [1] (e2, w2)) = Ok (Some [2])"
proof -
  obtain en where en: "wal_entry_new (current_lsn (eng_wal demo_engine)) (OpPut [1] [2]) bad_disk = Ok en"
    "length (entry_bytes ref_libs en) < BUF_CAPACITY" by (rule bad_disk_fails)
  have "faults bad_disk = [None, Some (Fault 0 eof_error)]" by (simp add: bad_disk_def)
  from failed_write_reappears [OF bad_disk_session ref_libs_ok(1) demo_every_write demo_ids _ demo_room en this]
  show ?thesis by auto
qed

text \<open>The demo engine and a value of 9000 bytes, of whose entry 20 bytes reach the file.\<close>

definition full_disk :: world where
  "full_disk = demo_opened\<lparr>faults := [Some (Fault 20 eof_error)], now := Some 5\<rparr>"

definition big_put :: command where
  "big_put = Put [7] (replicate 9000 0)"

lemma ref_loggable: "length k + length v < 2 ^ 31 \<Longrightarrow> loggable ref_libs \<lparr>lsn = n, operation = OpPut k v, timestamp = t\<rparr>"
  by (simp add: loggable_def ref_libs_def ref_serialize_def ref_short_def ref_bytes_def)

lemma single_entry_room:
  assumes "eng_memtable e = memtable_new" and "eng_storage e = eng_storage demo_engine"
    and "unat (current_lsn (eng_wal e)) < 2 ^ 64 - 1" and "length k + length v < 2 ^ 31"
  shows "room_for ref_libs (Put k v) e"
proof -
  have "memtable_iter (snd (memtable_put k v memtable_new)) = [(k, Value v)]"
    by (simp add: memtable_put_def memtable_new_def memtable_iter_def Let_def)
  moreover have "entries_fit [(k, Value v)]"
    using assms(4) by (simp add: entries_fit_def entry_fits_def sst_size_def index_start_def SST_HEADER_SIZE_def FOOTER_SIZE_def
        length_data_entry index_entry_def)
  ultimately show ?thesis using assms ref_loggable [OF assms(4)] by (simp add: has_room_def demo_engine_def next_free_def)
qed

lemma big_put_room: "room_for ref_libs big_put demo_engine"
  unfolding big_put_def by (rule single_entry_room) (simp_all add: demo_engine_def)

lemma full_disk_session: "session ref_libs demo_config demo_engine full_disk Map.empty"
  unfolding full_disk_def by (rule session_environment [OF demo_session])

lemma demo_stays: "stays_in_memtable (Put [1] [2]) demo_engine"
  by (simp add: stays_in_memtable_def demo_engine_def memtable_put_def memtable_new_def Let_def apply_size_delta_def
      old_entry_size_def bt_get_def demo_config_def config_default_def)

lemma crash_calm: "crash w (w\<lparr>faults := []\<rparr>)"
  using crash_refl [of w] by (simp add: crash_def lookup_def)

text \<open>C21: A torn entry hides what follows it. A write whose entry is larger than the buffer of the log's writer
  fails after part of the entry has reached the file (say, because the disk is full). The next write
  succeeds, is acknowledged, synced and visible. After the next restart, of the process or of the
  machine, it is gone: recovery takes the bytes of the second entry for the rest of the first
  and stops there.\<close>

theorem acknowledged_write_lost:
  assumes "session L cfg e w m" and "bincode_roundtrip L" and "sync_strategy_of cfg = EveryWrite" and "ids_left e"
    and "write_of c = Some op" and "room_for L c e" and "wal_entry_new (current_lsn (eng_wal e)) op w = Ok en"
    and "BUF_CAPACITY \<le> length (entry_bytes L en)" and "faults w = [Some (Fault n x)]" and "WAL_HEADER_SIZE \<le> n"
    and "execute L c (e, w) = (r1, e1, w1)"
    and "write_of c' = Some op'" and "room_for L c' e1" and "stays_in_memtable c' e1"
    and "wal_entry_new (current_lsn (eng_wal e1)) op' w1 = Ok en'"
    and "n + length (entry_bytes L en') < length (entry_bytes L en)"
  shows "\<exists>e2 w2. r1 = Err (Io x) \<and> execute L c' (e1, w1) = (Ok None, e2, w2) \<and>
    (\<forall>key. fst (engine_get key (e2, w2)) = Ok (snd (spec_exec c' m) key)) \<and>
    (\<forall>w3. crash w2 w3 \<longrightarrow> faults w3 = [] \<longrightarrow>
      (\<exists>e' w'. engine_open L cfg w3 = (Ok e', w') \<and> (\<forall>key. fst (engine_get key (e', w')) = Ok (m key))))"
proof -
  let ?p = "data_dir cfg @ [WAL_FILENAME]"
  from session_invariant [OF assms(1-3)] obtain ls es where
    st: "durable_state L (data_dir cfg) ls es e w" "m = view ls e" "healthy e" by (auto simp: session_state_def)
  note ds = durable_stateD [OF st(1)]
  obtain r0 e0 w0 where wr: "engine_write L op (e, w) = (r0, e0, w0)" by (metis prod_cases3)
  note ex = execute_write [OF assms(5,6) wr]
  have res: "e0 = e1" "w0 = w1" using assms(11) ex(3) by (cases r0; auto)+
  obtain r0' e0' w0' where wr': "engine_write L op' (e1, w1) = (r0', e0', w0')" by (metis prod_cases3)
  note ex' = execute_write [OF assms(12,13) wr']
  have small: "\<not> memtable_size_limit (eng_config e1) \<le> fst (memtable_apply op' (eng_memtable e1))"
    using assms(12,14) by (simp add: stays_in_memtable_def)
  obtain e2 w2 where r: "r0 = Err (Io x)" and run2: "engine_write L op' (e1, w1) = (Ok (), e2, w2)" and nf: "faults w2 = []"
    and ok2: "engine_ok ls e2 w2" and v2: "view ls e2 = apply_view op' (view ls e)" and k: "keeps ?p w w2"
    and dur: "durable w2 ?p = content w2 ?p" and sc: "fst (scan L (content w2 ?p)) = es"
    by (rule torn_entry_hides [OF assms(2) st(1,3) ex(1) assms(7-10) wr [unfolded res] ex'(1) assms(15,16) small])
  have "fst (engine_get key (e2, w2)) = Ok (snd (spec_exec c' m) key)" for key
    using engine_get_ok(4) [OF ok2, of key] nf v2 st(2) ex'(2) by (cases "engine_get key (e2, w2)") auto
  moreover have "\<exists>e' w'. engine_open L cfg w3 = (Ok e', w') \<and> (\<forall>key. fst (engine_get key (e', w')) = Ok (m key))"
    if cr: "crash w2 w3" and nf3: "faults w3 = []" for w3
  proof -
    note rec = log_aheadD(1) [OF durable_log_ahead [OF st(1)]]
    from sc crash_synced(1) [OF cr recoverable_keeps(3) [OF rec k] dur] have sc3: "fst (scan L (content w3 ?p)) = es" by simp
    from reopen_found [OF recoverable_keeps [OF rec k] cr nf3 ids_left_room [OF assms(4) st(1)] refl, of L] ds(11) obtain e' w' where
      "engine_open L cfg w3 = (Ok e', w')"
      "\<And>key. fst (engine_get key (e', w')) = Ok (fold apply_view (map operation es) (base_view ls) key)" unfolding sc3 by blast
    then show ?thesis using store_view [OF durable_store [OF st(1)]] st(2) by simp
  qed
  moreover have "r1 = Err (Io x)" "execute L c' (e1, w1) = (Ok None, e2, w2)" using assms(11) ex(3) ex'(3) r run2 wr' by simp_all
  ultimately show ?thesis by blast
qed

lemma full_disk_put:
  obtains en wr w1 where "wal_entry_new (current_lsn (eng_wal demo_engine)) (OpPut [7] (replicate 9000 0)) full_disk = Ok en"
    and "length (entry_bytes ref_libs en) = 9053" and "execute ref_libs big_put (demo_engine, full_disk) = (Err (Io eof_error), demo_engine\<lparr>eng_wal := wr\<rparr>, w1)"
    and "current_lsn wr = 2" and "now w1 = Some 5"
proof -
  from session_invariant [OF full_disk_session ref_libs_ok(1) demo_every_write] obtain ls es where
    st: "durable_state ref_libs (data_dir demo_config) ls es demo_engine full_disk" "healthy demo_engine" by (auto simp: session_state_def)
  let ?en = "\<lparr>lsn = 1, operation = OpPut [7] (replicate 9000 0), timestamp = 5\<rparr>"
  have new: "wal_entry_new (current_lsn (eng_wal demo_engine)) (OpPut [7] (replicate 9000 0)) full_disk = Ok ?en"
    by (simp add: wal_entry_new_def full_disk_def demo_engine_def)
  have len: "length (entry_bytes ref_libs ?en) = 9053" by (simp add: length_ref_entry WAL_HEADER_SIZE_def)
  have room: "has_room ref_libs (OpPut [7] (replicate 9000 0)) demo_engine" using big_put_room by (simp add: big_put_def)
  have f: "faults full_disk = [Some (Fault 20 eof_error)]" by (simp add: full_disk_def)
  have big: "BUF_CAPACITY \<le> length (entry_bytes ref_libs ?en)" and n: "20 < length (entry_bytes ref_libs ?en)"
    unfolding len by (simp_all add: BUF_CAPACITY_def)
  obtain wr w1 where "engine_write ref_libs (OpPut [7] (replicate 9000 0)) (demo_engine, full_disk) = (Err (Io eof_error), demo_engine\<lparr>eng_wal := wr\<rparr>, w1)"
    "current_lsn wr = current_lsn (eng_wal demo_engine) + 1" "now w1 = now full_disk"
    by (rule torn_write [OF st room new big f n])
  with new len that show ?thesis by (simp add: big_put_def engine_write_eq demo_engine_def full_disk_def)
qed

theorem acknowledged_write_lost_witness:
  "\<exists>e1 w1 e2 w2 e' w'. execute ref_libs big_put (demo_engine, full_disk) = (Err (Io eof_error), e1, w1) \<and>
     execute ref_libs (Put [1] [2]) (e1, w1) = (Ok None, e2, w2) \<and> engine_open ref_libs demo_config (w2\<lparr>faults := []\<rparr>) = (Ok e', w') \<and>
     fst (engine_get [1] (e2, w2)) = Ok (Some [2]) \<and> fst (engine_get [1] (e', w')) = Ok None"
proof -
  obtain en wr w1 where en: "wal_entry_new (current_lsn (eng_wal demo_engine)) (OpPut [7] (replicate 9000 0)) full_disk = Ok en"
    "length (entry_bytes ref_libs en) = 9053"
    and run: "execute ref_libs big_put (demo_engine, full_disk) = (Err (Io eof_error), demo_engine\<lparr>eng_wal := wr\<rparr>, w1)"
    and wr: "current_lsn wr = 2" "now w1 = Some 5" by (rule full_disk_put)
  let ?e = "demo_engine\<lparr>eng_wal := wr\<rparr>" and ?en = "\<lparr>lsn = 2, operation = OpPut [1] [2], timestamp = 5\<rparr>"
  have room: "room_for ref_libs (Put [1] [2]) ?e" by (rule single_entry_room) (simp_all add: demo_engine_def wr)
  have stays: "stays_in_memtable (Put [1] [2]) ?e" using demo_stays by (simp add: stays_in_memtable_def)
  have new: "wal_entry_new (current_lsn (eng_wal ?e)) (OpPut [1] [2]) w1 = Ok ?en" by (simp add: wal_entry_new_def wr)
  obtain e2 w2 where "execute ref_libs (Put [1] [2]) (?e, w1) = (Ok None, e2, w2)"
    "\<forall>key. fst (engine_get key (e2, w2)) = Ok (snd (spec_exec (Put [1] [2]) Map.empty) key)"
    "\<forall>w3. crash w2 w3 \<longrightarrow> faults w3 = [] \<longrightarrow>
      (\<exists>e' w'. engine_open ref_libs demo_config w3 = (Ok e', w') \<and> (\<forall>key. fst (engine_get key (e', w')) = Ok (Map.empty key)))"
    using acknowledged_write_lost [OF full_disk_session ref_libs_ok(1) demo_every_write demo_ids _ big_put_room en(1) _ _ _ run _ room stays new]
      en(2) by (auto simp: big_put_def full_disk_def BUF_CAPACITY_def WAL_HEADER_SIZE_def length_ref_entry)
  with run crash_calm [of w2] show ?thesis by fastforce
qed

end
