(* ===== verification/Failing_Disk.thy ===== *)
theory Failing_Disk
  imports Failed_Writes Simulation
begin

section \<open>A process on a failing disk (src/src/engine.rs)\<close>

text \<open>
  Commands that go on after writes failed, with any input/output errors and any clock at each of
  them. The specification is a map that answers, and the set of the maps a restart may find.
\<close>

subsection \<open>Commands on a failing disk\<close>

text \<open>
  A command under any errors and any clock; a write may fill the memtable and flush it, and then
  the flush does not fail. An entry smaller than the buffer of the log's writer is not torn when
  its append fails; \<open>failing_step\<close> excludes that the append of a larger one fails, after which
  nothing more would be recovered.
\<close>

definition fits_buffer :: "'h libs \<Rightarrow> command \<Rightarrow> bool" where
  "fits_buffer L c \<longleftrightarrow> (case write_of c of None \<Rightarrow> True
     | Some op \<Rightarrow> \<forall>en. operation en = op \<longrightarrow> length (entry_bytes L en) < BUF_CAPACITY)"

definition command_step :: "'h libs \<Rightarrow> engine \<times> world \<Rightarrow> command \<times> bytes option result \<Rightarrow> engine \<times> world \<Rightarrow> bool" where
  "command_step L = (\<lambda>(e, w) (c, r) (e', w'). room_for L c e \<and> (write_of c = None \<or> ids_left e) \<and>
     ((\<exists>x. r = Ok x) \<or> stays_in_memtable c e) \<and>
     (\<exists>f t. execute L c (e, w\<lparr>faults := f, now := t\<rparr>) = (r, e', w')))"

definition failing_step :: "'h libs \<Rightarrow> engine \<times> world \<Rightarrow> command \<times> bytes option result \<Rightarrow> engine \<times> world \<Rightarrow> bool" where
  "failing_step L s ev s' \<longleftrightarrow> command_step L s ev s' \<and> ((\<exists>x. snd ev = Ok x) \<or> fits_buffer L (fst ev))"

text \<open>
  The specification: a command that succeeds answers as the map does and takes effect in all maps
  a restart may find; one that fails changes nothing now, and a restart may find it or not.
\<close>

definition failing_spec :: "(bytes \<rightharpoonup> bytes) \<times> (bytes \<rightharpoonup> bytes) set \<Rightarrow> command \<times> bytes option result \<Rightarrow>
    (bytes \<rightharpoonup> bytes) \<times> (bytes \<rightharpoonup> bytes) set \<Rightarrow> bool" where
  "failing_spec = (\<lambda>(m, M) (c, r) (m', M'). case r of
     Ok x \<Rightarrow> (x, m') = spec_exec c m \<and> M' = (snd \<circ> spec_exec c) ` M
   | _ \<Rightarrow> m' = m \<and> M' = M \<union> (snd \<circ> spec_exec c) ` M)"

text \<open>The relation between the two: an engine whose log is ahead, and the maps a restart may find.\<close>

definition on_failing_disk :: "'h libs \<Rightarrow> config \<Rightarrow> engine \<times> world \<Rightarrow> (bytes \<rightharpoonup> bytes) \<times> (bytes \<rightharpoonup> bytes) set \<Rightarrow> bool" where
  "on_failing_disk L cfg = (\<lambda>(e, w) (m, M). m \<in> M \<and> (\<exists>ls sure rest. log_ahead L (data_dir cfg) ls sure rest e w \<and> ids_room ls \<and>
     m = view ls e \<and> survivors L (data_dir cfg) ls sure rest w \<subseteq> M))"

definition restarts_in :: "'h libs \<Rightarrow> config \<Rightarrow> world \<Rightarrow> (bytes \<rightharpoonup> bytes) set \<Rightarrow> bool" where
  "restarts_in L cfg w M \<longleftrightarrow> (\<exists>ls sure rest. recoverable L (data_dir cfg) ls sure rest w \<and> ids_room ls \<and>
     survivors L (data_dir cfg) ls sure rest w \<subseteq> M)"

lemma on_failing_diskI:
  "log_ahead L (data_dir cfg) ls sure rest e w \<Longrightarrow> ids_room ls \<Longrightarrow> view ls e = m \<Longrightarrow> m \<in> M \<Longrightarrow>
   survivors L (data_dir cfg) ls sure rest w \<subseteq> M \<Longrightarrow> on_failing_disk L cfg (e, w) (m, M)"
  by (auto simp: on_failing_disk_def)

lemma on_failing_diskE:
  assumes "on_failing_disk L cfg (e, w) (m, M)"
  obtains ls sure rest where "log_ahead L (data_dir cfg) ls sure rest e w" and "ids_room ls" and "m = view ls e" and "m \<in> M"
    and "survivors L (data_dir cfg) ls sure rest w \<subseteq> M"
  using assms by (auto simp: on_failing_disk_def)

lemma on_failing_disk_restarts: "on_failing_disk L cfg (e, w) (m, M) \<Longrightarrow> restarts_in L cfg w M"
  unfolding restarts_in_def by (erule on_failing_diskE) (blast dest: log_aheadD(1))

lemma survivors_fs: "fs w' = fs w \<Longrightarrow> survivors L d ls sure rest w' = survivors L d ls sure rest w"
  by (simp add: survivors_def old_log_def durable_def lookup_def)

lemma read_step_spec:
  assumes st: "on_failing_disk L cfg (e, w) (m, M)" and read: "write_of c = None" and run: "execute L c (e, w) = (r, e', w')"
  shows "failing_spec (m, M) (c, r) (m, M)" and "on_failing_disk L cfg (e', w') (m, M)"
proof -
  obtain ls sure rest where A: "log_ahead L (data_dir cfg) ls sure rest e w" and ids: "ids_room ls" and m: "m = view ls e" "m \<in> M"
    and M: "survivors L (data_dir cfg) ls sure rest w \<subseteq> M" using st by (rule on_failing_diskE)
  have same: "snd (spec_exec c m) = m" for m using read by (cases c) simp_all
  have g: "log_ahead L (data_dir cfg) ls sure rest e' w' \<and> view ls e' = m \<and> (\<forall>x. r = Ok x \<longrightarrow> x = fst (spec_exec c m)) \<and> fs w' = fs w"
  proof (cases c)
    case (Get key)
    with run have run: "engine_get key (e, w) = (r, e', w')" by simp
    from engine_get_ok(2-4) [OF log_aheadD(2) [OF A] run] ahead_get [OF A run] m Get show ?thesis by auto
  qed (use read run A m in auto)
  then show "failing_spec (m, M) (c, r) (m, M)"
    using same by (cases r) (auto simp: failing_spec_def prod_eq_iff image_iff)
  from g show "on_failing_disk L cfg (e', w') (m, M)" using ids M m(2) survivors_fs [of w' w L "data_dir cfg" ls sure rest] by (auto intro!: on_failing_diskI)
qed

lemma write_step_spec:
  assumes rt: "bincode_roundtrip L" and st: "on_failing_disk L cfg (e, w) (m, M)" and op: "write_of c = Some op" and room: "room_for L c e" "ids_left e"
    and small: "(\<exists>x. r = Ok x) \<or> stays_in_memtable c e" and run: "execute L c (e, w) = (r, e', w')"
  obtains m' M' where "failing_spec (m, M) (c, r) (m', M')" and "restarts_in L cfg w' M'"
    and "(\<exists>x. r = Ok x) \<or> fits_buffer L c \<Longrightarrow> on_failing_disk L cfg (e', w') (m', M')"
proof -
  note found = that
  obtain ls sure rest where A: "log_ahead L (data_dir cfg) ls sure rest e w" and ids: "ids_room ls" and m: "m = view ls e" "m \<in> M"
    and M: "survivors L (data_dir cfg) ls sure rest w \<subseteq> M" using st by (rule on_failing_diskE)
  obtain r0 e0 w0 where wr: "engine_write L op (e, w) = (r0, e0, w0)" by (metis prod_cases3)
  note ex = execute_write [OF op room(1) wr]
  have res: "e0 = e'" "w0 = w'" and r: "(\<exists>x. r = Ok x) \<longleftrightarrow> r0 = Ok ()" "\<And>x. r = Ok x \<Longrightarrow> x = None"
    using run ex(3) by (cases r0; auto)+
  have spec: "spec_exec c m = (None, apply_view op m)" for m using op by (cases c) auto
  show thesis
  proof (cases "r0 = Ok ()")
    case True
    let ?M = "apply_view op ` M"
    obtain ls' sure' where "log_ahead L (data_dir cfg) ls' sure' [] e' w'" "ids_room ls'" "view ls' e' = apply_view op m"
      "survivors L (data_dir cfg) ls' sure' [] w' \<subseteq> insert (apply_view op m) (apply_view op ` survivors L (data_dir cfg) ls sure rest w)"
      using ahead_write_Ok [OF rt A ex(1) ids room(2) wr [unfolded True res]] m(1) by blast
    with M m(2) have st': "on_failing_disk L cfg (e', w') (apply_view op m, ?M)" by (blast intro: on_failing_diskI)
    have "failing_spec (m, M) (c, r) (apply_view op m, ?M)" using r True by (cases r) (auto simp: failing_spec_def spec)
    then show thesis using on_failing_disk_restarts [OF st'] st' by (rule found)
  next
    case False
    let ?M = "M \<union> apply_view op ` M"
    have "\<not> memtable_size_limit (eng_config e) \<le> fst (memtable_apply op (eng_memtable e))"
      using small op False r(1) by (simp add: stays_in_memtable_def)
    from ahead_write_fails [OF A ex(1) this wr [unfolded res] False] obtain en where en: "operation en = op"
      "recoverable L (data_dir cfg) ls sure (rest @ [en]) w'" and v: "view ls e' = view ls e"
      and dur: "durable w' (data_dir cfg @ [WAL_FILENAME]) = durable w (data_dir cfg @ [WAL_FILENAME])"
      and next_state: "(\<And>en. operation en = op \<Longrightarrow> length (entry_bytes L en) < BUF_CAPACITY) \<Longrightarrow>
         \<exists>rest'. (rest' = rest \<or> (\<exists>en. operation en = op \<and> rest' = rest @ [en])) \<and> log_ahead L (data_dir cfg) ls sure rest' e' w'" by metis
    have sub: "survivors L (data_dir cfg) ls sure rest' w' \<subseteq> ?M" if "rest' = rest \<or> (\<exists>en. operation en = op \<and> rest' = rest @ [en])" for rest'
      using survivors_failed [OF dur that, of L ls sure] M by blast
    have "failing_spec (m, M) (c, r) (m, ?M)" using r(1) False by (cases r) (auto simp: failing_spec_def spec)
    then show thesis
    proof (rule found)
      show "restarts_in L cfg w' ?M" using en ids sub [of "rest @ [en]"] unfolding restarts_in_def by blast
      assume "(\<exists>x. r = Ok x) \<or> fits_buffer L c"
      with r(1) False op have "operation en = op \<Longrightarrow> length (entry_bytes L en) < BUF_CAPACITY" for en by (simp add: fits_buffer_def)
      from next_state [OF this] obtain rest' where "rest' = rest \<or> (\<exists>en. operation en = op \<and> rest' = rest @ [en])"
        "log_ahead L (data_dir cfg) ls sure rest' e' w'" by blast
      with sub [of rest'] ids v m show "on_failing_disk L cfg (e', w') (m, ?M)" by (intro on_failing_diskI) auto
    qed
  qed
qed

text \<open>One command: what it answers, and what the disk then holds.\<close>

lemma command_step_spec:
  assumes rt: "bincode_roundtrip L" and st: "on_failing_disk L cfg (e, w) (m, M)" and step: "command_step L (e, w) (c, r) (e', w')"
  obtains m' M' where "failing_spec (m, M) (c, r) (m', M')" and "restarts_in L cfg w' M'"
    and "(\<exists>x. r = Ok x) \<or> fits_buffer L c \<Longrightarrow> on_failing_disk L cfg (e', w') (m', M')"
proof -
  obtain f t where room: "room_for L c e" "write_of c = None \<or> ids_left e" "(\<exists>x. r = Ok x) \<or> stays_in_memtable c e"
    and run: "execute L c (e, w\<lparr>faults := f, now := t\<rparr>) = (r, e', w')"
    using step unfolding command_step_def prod.case by blast
  have st': "on_failing_disk L cfg (e, w\<lparr>faults := f, now := t\<rparr>) (m, M)"
    using st survivors_fs [of "w\<lparr>faults := f, now := t\<rparr>" w L] by (simp add: on_failing_disk_def log_ahead_environment)
  show thesis
  proof (cases "write_of c")
    case None
    from read_step_spec [OF st' None run] on_failing_disk_restarts show thesis by (metis that)
  next
    case (Some op)
    with room(2) have "ids_left e" by simp
    from write_step_spec [OF rt st' Some room(1) this room(3) run] that show thesis by metis
  qed
qed

text \<open>The simulation, with \<open>bincode_roundtrip\<close> as part of the relation.\<close>

interpretation failing: trace_simulation "failing_step L" failing_spec "\<lambda>s a. bincode_roundtrip L \<and> on_failing_disk L cfg s a" for L cfg
proof
  fix s a ev s' assume st: "bincode_roundtrip L \<and> on_failing_disk L cfg s a" and step: "failing_step L s ev s'"
  obtain e w m M c r e' w' where eqs: "s = (e, w)" "a = (m, M)" "ev = (c, r)" "s' = (e', w')" by (metis surj_pair)
  with step have "command_step L (e, w) (c, r) (e', w')" "(\<exists>x. r = Ok x) \<or> fits_buffer L c" by (simp_all add: failing_step_def)
  from command_step_spec [OF conjunct1 [OF st] conjunct2 [OF st, unfolded eqs] this(1)] this(2) st
  show "\<exists>a'. failing_spec a ev a' \<and> bincode_roundtrip L \<and> on_failing_disk L cfg s' a'" unfolding eqs by metis
qed

lemma session_failing_disk:
  assumes "session L cfg e w m" and "bincode_roundtrip L" and "sync_strategy_of cfg = EveryWrite" and "ids_left e"
  shows "on_failing_disk L cfg (e, w) (m, {m})"
proof -
  from session_invariant [OF assms(1-3)] obtain ls es where
    st: "durable_state L (data_dir cfg) ls es e w" "m = view ls e" by (auto simp: session_state_def)
  have "survivors L (data_dir cfg) ls es [] w \<subseteq> {m}" using durable_survivors [OF st(1)] st(2) by simp
  then show ?thesis using durable_log_ahead [OF st(1)] ids_left_room [OF assms(4) st(1)] st(2) by (intro on_failing_diskI) simp_all
qed

lemma restarts_in_reopen:
  assumes "bincode_roundtrip L" and "restarts_in L cfg w M" and "crash w w'" and "faults w' = []"
    and "log_fits (fst (scan L (content w' (data_dir cfg @ [WAL_FILENAME]))))"
  obtains e w'' m where "engine_open L cfg w' = (Ok e, w'')" and "m \<in> M" and "\<And>key. fst (engine_get key (e, w'')) = Ok (m key)"
proof -
  from assms(2) obtain ls sure rest where r: "recoverable L (data_dir cfg) ls sure rest w" "ids_room ls"
    "survivors L (data_dir cfg) ls sure rest w \<subseteq> M" by (auto simp: restarts_in_def)
  show ?thesis by (rule recoverable_reopen [OF assms(1) r(1) assms(3,4) r(2) refl assms(5)]) (use r(3) that in blast)
qed

subsection \<open>Properties\<close>

text \<open>The demo engine: a \<open>put\<close> on a disk whose \<open>fsync\<close> fails, then a lookup.\<close>

lemma demo_failing_run:
  obtains e1 w1 e2 w2 where "failing_step ref_libs (demo_engine, demo_opened) (Put [1] [2], Err (Io eof_error)) (e1, w1)"
    and "command_step ref_libs (e1, w1) (Get [1], Ok None) (e2, w2)"
    and "log_fits (fst (scan ref_libs (content w2 (data_dir demo_config @ [WAL_FILENAME]))))"
proof -
  obtain en where en: "wal_entry_new (current_lsn (eng_wal demo_engine)) (OpPut [1] [2]) bad_disk = Ok en"
    "length (entry_bytes ref_libs en) < BUF_CAPACITY" by (rule bad_disk_fails)
  obtain e1 w1 where put: "execute ref_libs (Put [1] [2]) (demo_engine, bad_disk) = (Err (Io eof_error), e1, w1)"
    and nf: "faults w1 = []" and fits: "log_fits (fst (scan ref_libs (content w1 (data_dir demo_config @ [WAL_FILENAME]))))"
    and get: "fst (engine_get [1] (e1, w1)) = Ok None"
    using session_fsync_fails [OF bad_disk_session ref_libs_ok(1) demo_every_write demo_ids _ demo_room en] by (auto simp: bad_disk_def)
  obtain e2 w2 where get: "engine_get [1] (e1, w1) = (Ok None, e2, w2)" using get by (cases "engine_get [1] (e1, w1)") auto
  have "fits_buffer ref_libs (Put [1] [2])"
    by (simp add: fits_buffer_def length_ref_entry WAL_HEADER_SIZE_def BUF_CAPACITY_def)
  moreover have put: "command_step ref_libs (demo_engine, demo_opened) (Put [1] [2], Err (Io eof_error)) (e1, w1)"
    using demo_room demo_stays demo_ids put unfolding command_step_def bad_disk_def by auto
  ultimately have step: "failing_step ref_libs (demo_engine, demo_opened) (Put [1] [2], Err (Io eof_error)) (e1, w1)"
    by (simp add: failing_step_def)
  from failing.simulate [OF conjI [OF ref_libs_ok(1) session_failing_disk [OF demo_session ref_libs_ok(1) demo_every_write demo_ids]] step]
  obtain a where "on_failing_disk ref_libs demo_config (e1, w1) a" by blast
  then obtain ls where "engine_ok ls e1 w1" by (cases a) (auto simp: on_failing_disk_def dest!: log_aheadD(2))
  from engine_get_ok(3) [OF this get] fits have "log_fits (fst (scan ref_libs (content w2 (data_dir demo_config @ [WAL_FILENAME]))))"
    by (simp add: content_def lookup_def)
  moreover have "w1\<lparr>faults := faults w1, now := now w1\<rparr> = w1" by simp
  then have "command_step ref_libs (e1, w1) (Get [1], Ok None) (e2, w2)"
    using get unfolding command_step_def stays_in_memtable_def prod.case execute.simps write_of.simps room_for.simps option.case by metis
  ultimately show ?thesis using that step by blast
qed

text \<open>C19: A process that goes on after failed writes. From any state of a session, any commands are executed;
  at each of them the operating system reports any errors and the clock shows any time. A write
  that fills the memtable, and so flushes it, succeeds, and a write that fails, but the last,
  fits the buffer of the log's writer. Then every command that succeeds answers as the map of the
  successful ones does; and after a crash of the process or of the machine the engine opens again
  with all writes that were acknowledged, in their order, and each of the failed ones either at its
  place among them or not at all.\<close>

theorem crash_after_failures:
  assumes "session L cfg e w m" and "bincode_roundtrip L" and "sync_strategy_of cfg = EveryWrite" and "ids_left e"
    and "trace_run (failing_step L) (e, w) tr (e1, w1)" and "command_step L (e1, w1) (c, r) (e2, w2)"
    and "crash w2 w3" and "faults w3 = []" and "log_fits (fst (scan L (content w3 (data_dir cfg @ [WAL_FILENAME]))))"
  shows "\<exists>m1 M e' w' m'. trace_run failing_spec (m, {m}) (tr @ [(c, r)]) (m1, M) \<and>
    engine_open L cfg w3 = (Ok e', w') \<and> m' \<in> M \<and> (\<forall>key. fst (engine_get key (e', w')) = Ok (m' key))"
proof -
  from failing.simulate_run [OF assms(5) conjI [OF assms(2) session_failing_disk [OF assms(1-4)]]] obtain a where
    run: "trace_run failing_spec (m, {m}) tr a" "on_failing_disk L cfg (e1, w1) a" by blast
  obtain m1 M where a: "a = (m1, M)" by (cases a)
  obtain m2 M2 where step: "failing_spec (m1, M) (c, r) (m2, M2)" "restarts_in L cfg w2 M2"
    by (rule command_step_spec [OF assms(2) run(2) [unfolded a] assms(6)])
  from run(1) one_step [of failing_spec, OF step(1)] have "trace_run failing_spec (m, {m}) (tr @ [(c, r)]) (m2, M2)"
    unfolding a trace_run_append_iff by blast
  moreover from restarts_in_reopen [OF assms(2) step(2) assms(7-9)] obtain e' w' m' where
    "engine_open L cfg w3 = (Ok e', w')" "m' \<in> M2" "\<And>key. fst (engine_get key (e', w')) = Ok (m' key)" by blast
  ultimately show ?thesis by blast
qed

theorem crash_after_failures_witness:
  "\<exists>e1 w1 e2 w2 e' w'. failing_step ref_libs (demo_engine, demo_opened) (Put [1] [2], Err (Io eof_error)) (e1, w1) \<and>
     command_step ref_libs (e1, w1) (Get [1], Ok None) (e2, w2) \<and>
     engine_open ref_libs demo_config (w2\<lparr>faults := []\<rparr>) = (Ok e', w') \<and> fst (engine_get [1] (e', w')) \<in> {Ok None, Ok (Some [2])}"
proof -
  obtain e1 w1 e2 w2 where run: "failing_step ref_libs (demo_engine, demo_opened) (Put [1] [2], Err (Io eof_error)) (e1, w1)"
    "command_step ref_libs (e1, w1) (Get [1], Ok None) (e2, w2)"
    and fits: "log_fits (fst (scan ref_libs (content w2 (data_dir demo_config @ [WAL_FILENAME]))))" by (rule demo_failing_run)
  let ?w = "w2\<lparr>faults := []\<rparr>"
  have fits: "log_fits (fst (scan ref_libs (content ?w (data_dir demo_config @ [WAL_FILENAME]))))" using fits by (simp add: content_def lookup_def)
  obtain m1 M e' w' m' where "trace_run failing_spec (Map.empty, {Map.empty}) [(Put [1] [2], Err (Io eof_error)), (Get [1], Ok None)] (m1, M)"
    and o: "engine_open ref_libs demo_config ?w = (Ok e', w')" "m' \<in> M" "\<forall>key. fst (engine_get key (e', w')) = Ok (m' key)"
    using crash_after_failures [OF demo_session ref_libs_ok(1) demo_every_write demo_ids
        one_step [of "failing_step ref_libs", OF run(1)] run(2) crash_calm _ fits] by auto
  then have "M = {Map.empty, [[1] \<mapsto> [2]]}" by (auto simp: trace_run_Cons_iff trace_run_Nil_iff failing_spec_def)
  with o have "fst (engine_get [1] (e', w')) \<in> {Ok None, Ok (Some [2])}" by auto
  with o(1) run show ?thesis by blast
qed

end
