(* ===== verification/Spec2Isabelle.thy ===== *)
theory Spec2Isabelle
  imports Readers Cli Deployment Torn_Tables Failing_Disk
begin

text \<open>
  AtlasKV, a key-value store in Rust: a verification of the crate under \<open>src/src/\<close>.

  \<^bold>\<open>The program.\<close> A write goes to a write-ahead log (\<open>wal/\<close>), then to a sorted table in memory
  (\<open>memtable/\<close>); a full memtable is written to an immutable sorted file and the log is truncated
  (\<open>storage/\<close>). A lookup asks the memtable and then the files, newest first. \<open>Engine\<close> (\<open>engine.rs\<close>)
  ties them together, recovers the log when it is opened, and is shared by the worker threads of a
  TCP server (\<open>network/\<close>) that speaks a binary protocol (\<open>protocol/\<close>) with the command line client
  (\<open>bin/cli.rs\<close>).

  \<^bold>\<open>The theories\<close>, in the order in which they build on each other:
  \<^item> \<open>Prelude\<close>: machine types (64-, 32-, 16- and 8-bit words), the result type \<open>outcome\<close> (\<open>Ok\<close>, \<open>Err\<close>,
    \<open>Panic\<close>) with \<open>andThen\<close> for the operator \<open>?\<close>, byte encodings, formatting, the locale
    \<open>effect_order\<close> for what a computation leaves alone. \<open>Simulation\<close>: runs of labelled steps and the
    locale \<open>trace_simulation\<close>, a forward simulation between two step relations.
  \<^item> \<open>Std_IO\<close>: the part of \<open>std::fs\<close> and \<open>std::io\<close> the source uses. A \<open>world\<close> has the files, each with
    its content and the content that was last synced, the clock, and the list of the errors the
    operating system will report: every call may fail, a write after any number of bytes. \<open>BufWriter\<close>
    is modelled with its buffer of 8 KiB.
  \<^item> \<open>Errors\<close> (\<open>error.rs\<close>), \<open>Config_Model\<close> (\<open>config.rs\<close>), \<open>Ordered_Map\<close> (the \<open>BTreeMap\<close>, locale
    \<open>ordered_map\<close>).
  \<^item> \<open>Wal_Entry\<close> (\<open>wal/entry.rs\<close>), \<open>Wal_Writer\<close> (\<open>wal/writer.rs\<close>), \<open>Wal_Reader\<close> (\<open>wal/reader.rs\<close>,
    \<open>wal/recovery.rs\<close>): the entry format and its round trip, what is in the file and what is durable
    after every operation and every failure, recovery as a scan of the bytes, also of a cut log.
  \<^item> \<open>MemTable\<close> (\<open>memtable/\<close>, locale \<open>kv_table\<close>), \<open>SSTable\<close>, \<open>SSTable_Reader\<close> (\<open>storage/sstable/\<close>),
    \<open>Layers\<close> (locale \<open>layered_search\<close>: the newest table that has the key decides), \<open>Storage_Manager\<close>
    (\<open>storage/manager.rs\<close>): a table that was written is read back; discovery, lookup and flush.
  \<^item> \<open>Wire_Protocol\<close> (\<open>protocol/\<close>, locale \<open>message_stream\<close> for both directions).
  \<^item> \<open>Engine\<close> (\<open>engine.rs\<close>): every operation, the contents of an engine as a map (\<open>view\<close>), and the
    invariant \<open>engine_ok\<close>, which every operation keeps whatever the operating system answers.
  \<^item> \<open>Durability\<close>, \<open>Sessions\<close>, \<open>Batched\<close>: crashes. A session opens, executes, flushes, crashes, closes
    and reopens in any order; with \<open>EveryWrite\<close> the engine refines a map across all of it. With
    \<open>EveryNEntries\<close> (the default) a crash of the process loses fewer than \<open>n\<close> writes, and a power
    loss can undo a flushed write.
  \<^item> \<open>Log_Ahead\<close>, \<open>Failed_Writes\<close>, \<open>Failing_Disk\<close>: what the log holds after appends that failed, and what
    a restart makes of it. A process that goes on after failed writes refines a map together with
    the set of the maps a restart may find; an entry that was torn in the log hides all later ones.
  \<^item> \<open>Torn_Tables\<close>: what a crash while a table is built leaves, and why no later open gets past it.
  \<^item> \<open>Readers\<close>: the operations split into the steps other threads can see; lookups, which do not take
    the write lock, are linearizable.
  \<^item> \<open>Connection\<close> (\<open>network/connection.rs\<close>; locale \<open>map_store\<close> is what it needs of the engine), \<open>Server\<close>
    (\<open>network/server.rs\<close>, a step relation over all interleavings of the accept loop and the workers),
    \<open>Server_Binary\<close> (\<open>bin/server.rs\<close>), \<open>Cli\<close> (\<open>bin/cli.rs\<close>).
  \<^item> \<open>Service\<close>, \<open>Deployment\<close>: the layers together. The commands of all clients, in the order in which
    the workers execute them, are answered by one map, also when calls of the operating system
    fail; with \<open>EveryWrite\<close> nothing that was answered is lost in a crash, and the server as it is
    shipped loses fewer than 100 writes when its process dies. Three simulations, each an
    interpretation of \<open>trace_simulation\<close> on the steps of the server (a fourth is in \<open>Failing_Disk\<close>).
  \<^item> This theory: the properties of the engine's operations on an arbitrary consistent state.

  \<^bold>\<open>Reading the model.\<close> A struct is a \<open>record\<close>, an enum a \<open>datatype\<close>, a method a function from the
  arguments and the state to a result and the new state; the world is part of the state of
  whatever does input or output. Functions keep their Rust names, with the type in front where two
  types share one (\<open>memtable_get\<close>, \<open>engine_get\<close>). Arithmetic on \<open>u64\<close>, \<open>u32\<close> and \<open>usize\<close> (64 bits) wraps,
  as in a release build, and casts cut.

  \<^bold>\<open>Parameters.\<close> The crates \<open>bincode\<close> and \<open>crc32fast\<close> are the fields of the record \<open>libs\<close>; what is needed
  of them is the hypothesis \<open>bincode_roundtrip\<close>, that decoding inverts encoding. \<open>ref_libs\<close> is a concrete
  instance for the witnesses. \<open>crossbeam\<close>'s channel is a bounded queue, \<open>parking_lot\<close>'s locks make an
  operation atomic and are not poisoned; \<open>std::sync::Mutex\<close> is poisoned by a panic of its holder.

  \<^bold>\<open>Bounds.\<close> \<open>has_room\<close> and \<open>room_for\<close> state the limits of the formats a write must respect: lengths
  below \<open>2 ^ 32\<close>, files below \<open>2 ^ 63\<close> bytes, LSNs and table ids below \<open>2 ^ 64\<close>; \<open>log_fits\<close> says that the entries of a log fit one table;
  \<open>command_fits\<close> and
  \<open>response_fits\<close> are the 16 MiB of the protocol. No definition has fuel: loops over files end with
  the file, the loop of \<open>Connection::handle\<close> with the bytes of the client, and the loop of the server
  is the step relation.

  \<^bold>\<open>Crashes.\<close> \<open>crash\<close> keeps the names of the files. Each file has its written content, its synced
  content, or anything between when the written content extends the synced one. That a file whose
  directory was not synced may lose its name is not in the model.

  \<^bold>\<open>Not modelled.\<close> Logging; the parsing of the command lines (\<open>clap\<close>); \<open>Server::local_addr\<close>,
  which only asks the operating system; \<open>ctrlc_handler\<close>, which drops its closure without calling it.
  A failed write or flush ends a session of \<open>Sessions\<close>. What the engine holds then is \<open>write_effect\<close> and
  \<open>flush_keeps_view\<close>; commands that follow failed writes in the same process are \<open>Failing_Disk\<close>. A
  flush that fails can leave an unfinished table, which no later open gets past when it is shorter
  than a header (\<open>Torn_Tables\<close>); what follows a failed flush in the same process is not modelled.
\<close>

section \<open>Properties of the engine\<close>

lemma demo_ok: "\<exists>ls. engine_ok ls demo_engine demo_opened"
  using session_invariant [OF demo_session ref_libs_ok(1) demo_every_write] durable_state_ok
  unfolding session_state_def by blast

text \<open>C23: A \<open>put\<close> or a \<open>delete\<close>, whatever the operating system answers and whatever the sync strategy: the
  engine stays consistent with its files; after \<open>Ok\<close> the key has the value (or none, also when older
  tables have one) and every other key is as it was; after an error, or a panic of the clock, the
  contents are those before or those after the write, nothing else.\<close>

theorem write_effect:
  assumes "engine_ok ls e w" and "next_free (eng_storage e)"
    and "entries_fit (memtable_iter (snd (memtable_apply op (eng_memtable e))))"
    and "(case op of OpPut key val \<Rightarrow> engine_put L key val | OpDelete key \<Rightarrow> engine_delete L key) (e, w) = (r, e', w')"
  shows "\<exists>ls'. engine_ok ls' e' w' \<and> (r = Ok () \<longrightarrow> view ls' e' = apply_view op (view ls e)) \<and>
    (view ls' e' = view ls e \<or> view ls' e' = apply_view op (view ls e))"
proof -
  have "engine_write L op (e, w) = (r, e', w')" using assms(4) by (cases op) (simp_all add: engine_write_eq)
  from engine_write_ok [OF assms(1-3) this] show ?thesis by metis
qed

theorem write_effect_witness:
  "\<exists>ls e w. engine_ok ls e w \<and> fst (engine_put ref_libs [1] [2] (demo_engine, demo_opened)) = Ok () \<and>
     view ls e [1] = Some [2]"
proof -
  obtain ls where ok: "engine_ok ls demo_engine demo_opened" using demo_ok by blast
  obtain e w where "execute ref_libs (Put [1] [2]) (demo_engine, demo_opened) = (Ok None, e, w)" by (rule demo_put)
  then have put: "engine_put ref_libs [1] [2] (demo_engine, demo_opened) = (Ok (), e, w)" by (auto elim!: andThen.elims)
  have "next_free (eng_storage demo_engine)"
    "entries_fit (memtable_iter (snd (memtable_apply (OpPut [1] [2]) (eng_memtable demo_engine))))"
    using demo_room by (simp_all add: has_room_def)
  from write_effect [OF ok this, of ref_libs "Ok ()" e w] put obtain ls' where
    "engine_ok ls' e w" "view ls' e = (view ls demo_engine)([1] \<mapsto> [2])" by auto
  then have "engine_ok ls' e w \<and> view ls' e [1] = Some [2]" by simp
  with put show ?thesis by (metis fst_conv)
qed

text \<open>A lookup answers the contents of the engine, or the input/output error the operating system
  reported, and changes neither the contents nor a file.\<close>

lemma get_answers_view:
  assumes "engine_ok ls e w"
  shows "case engine_get key (e, w) of (r, e', w') \<Rightarrow> engine_ok ls e' w' \<and> view ls e' = view ls e \<and> fs w' = fs w \<and>
    (r = Ok (view ls e key) \<or> faults w \<noteq> [] \<and> (\<exists>x. r = Err (Io x)))"
proof -
  obtain r e' w' where run: "engine_get key (e, w) = (r, e', w')" by (metis prod_cases3)
  from engine_get_ok [OF assms run] run show ?thesis by simp
qed

text \<open>C24: A flush, successful or not, does not change the contents of the engine, and never panics; after
  \<open>Ok\<close> the memtable is empty.\<close>

theorem flush_keeps_view:
  assumes "engine_ok ls e w" and "next_free (eng_storage e)" and "entries_fit (memtable_iter (eng_memtable e))"
    and "engine_flush L (e, w) = (r, e', w')"
  shows "r \<noteq> Panic \<and> (\<exists>ls'. engine_ok ls' e' w' \<and> view ls' e' = view ls e \<and>
    (r = Ok () \<longrightarrow> memtable_is_empty (eng_memtable e')))"
proof (cases "write_lock_poisoned e")
  case True
  with assms show ?thesis by (auto simp: engine_flush_def with_write_lock_def)
next
  case False
  obtain r1 e1 w1 where fl: "flush_internal L (e, w) = (r1, e1, w1)" by (metis prod_cases3)
  from flush_internal_ok [OF assms(1-3) fl] obtain ls' where *: "engine_ok ls' e1 w1" "view ls' e1 = view ls e" "r1 \<noteq> Panic"
    "r1 = Ok () \<Longrightarrow> memtable_is_empty (eng_memtable e1)" by metis
  with assms(4) False fl have "r = r1" "e' = e1" "w' = w1"
    by (cases r1; simp add: engine_flush_def with_write_lock_def)+
  with * show ?thesis by blast
qed

theorem flush_keeps_view_witness:
  "\<exists>ls e w. engine_ok ls e w \<and> fst (engine_flush ref_libs (demo_engine, demo_opened)) \<noteq> Panic"
proof -
  obtain ls where ok: "engine_ok ls demo_engine demo_opened" using demo_ok by blast
  obtain r e w where fl: "engine_flush ref_libs (demo_engine, demo_opened) = (r, e, w)" by (metis prod_cases3)
  have "next_free (eng_storage demo_engine)" "entries_fit (memtable_iter (eng_memtable demo_engine))"
    using demo_room log_fits_Nil by (simp_all add: has_room_def demo_engine_def log_fits_def)
  from flush_keeps_view [OF ok this fl] fl show ?thesis by auto
qed

text \<open>C32: A clock before the epoch makes a write panic. The panic poisons both locks: from then on every
  write and flush reports a poisoned lock without touching a file, while lookups go on.\<close>

theorem clock_panic_poisons:
  assumes "now w = None" and "\<not> wal_poisoned e" and "\<not> write_lock_poisoned e"
  shows "\<exists>e'. engine_put L key val (e, w) = (Panic, e', w) \<and>
    (\<forall>k v v'. engine_put L k v (e', v') = (Err (LockPoisoned (''Write lock poisoned: '' @ poison_text)), e', v') \<and>
       engine_delete L k (e', v') = (Err (LockPoisoned (''Write lock poisoned: '' @ poison_text)), e', v') \<and>
       engine_flush L (e', v') = (Err (LockPoisoned (''Write lock poisoned: '' @ poison_text)), e', v')) \<and>
    (\<forall>k. fst (engine_get k (e', w)) = fst (engine_get k (e, w)))"
proof -
  let ?wr = "(eng_wal e)\<lparr>current_lsn := current_lsn (eng_wal e) + 1\<rparr>"
  let ?e = "e\<lparr>eng_wal := ?wr, wal_poisoned := True, write_lock_poisoned := True\<rparr>"
  have "engine_put L key val (e, w) = (Panic, ?e, w)"
    using assms by (simp add: engine_put_def with_write_lock_def with_wal_def wal_append_def wal_entry_new_def Let_def)
  moreover have "fst (engine_get k (?e, w)) = fst (engine_get k (e, w))" for k
    by (simp add: engine_get_def on_storage_def zoom_def split: option.split memtable_entry.split prod.split)
  ultimately show ?thesis
    by (intro exI [of _ ?e]) (simp add: engine_put_def engine_delete_def engine_flush_def with_write_lock_def)
qed

theorem clock_panic_poisons_witness:
  "\<exists>e. engine_put ref_libs [1] [2] (demo_engine, demo_opened\<lparr>now := None\<rparr>) = (Panic, e, demo_opened\<lparr>now := None\<rparr>)"
  using clock_panic_poisons [of "demo_opened\<lparr>now := None\<rparr>" demo_engine ref_libs "[1]" "[2]"] by (auto simp: demo_engine_def)

end
